(* ===== verification/Prelude.thy ===== *)
theory Prelude
  imports Main "HOL-Library.Word" "HOL-Library.Monad_Syntax" "HOL-Library.Multiset"
begin

text \<open>
  What the components share: the machine types of the sources (pointers, \<open>unsigned\<close> arithmetic
  with its wrap-around, bytes), a byte memory whose out-of-bounds accesses are the value
  \<^term>\<open>None\<close>, the little-endian layout of a 32-bit integer, and the generic list lemmas.
\<close>

section \<open>Machine types\<close>

text \<open>Object addresses. Address 0 is the \<open>NULL\<close> of the sources.\<close>

type_synonym ptr = nat
type_synonym byte = "8 word"
type_synonym u32 = "32 word"
type_synonym u64 = "64 word"

abbreviation (input) NULL :: ptr where "NULL \<equiv> 0"

named_theorems u32_simps \<open>rewriting of 32-bit arithmetic where it does not wrap\<close>
named_theorems mem_simps \<open>reads and writes of a byte memory that are in bounds\<close>

text \<open>
  C \<open>unsigned\<close> values (32 bits on the platforms of the sources) as naturals below \<open>2 ^ 32\<close>,
  with the wrap-around of every addition and subtraction written out.
\<close>

definition u32_max :: nat where
  "u32_max = 2 ^ 32"

definition u32_add :: "nat \<Rightarrow> nat \<Rightarrow> nat" where
  "u32_add a b = (a + b) mod u32_max"

definition u32_sub :: "nat \<Rightarrow> nat \<Rightarrow> nat" where
  "u32_sub a b = (a + (u32_max - b mod u32_max)) mod u32_max"

lemma u32_add_exact [u32_simps]: "a + b < u32_max \<Longrightarrow> u32_add a b = a + b"
  by (simp add: u32_add_def)

lemma u32_sub_exact [u32_simps]: "b \<le> a \<Longrightarrow> a < u32_max \<Longrightarrow> u32_sub a b = a - b"
proof -
  assume *: "b \<le> a" "a < u32_max"
  then have "a + (u32_max - b mod u32_max) = (a - b) + u32_max" by simp
  then have "u32_sub a b = (a - b) mod u32_max" by (simp only: u32_sub_def mod_add_self2)
  with * show ?thesis by simp
qed

text \<open>A difference that wraps below 0 is made good by a later addition.\<close>

lemma u32_sub_add:
  assumes "b \<le> a + c" "a + c < u32_max"
  shows "u32_add (u32_sub a b) c = a + c - b"
proof -
  have "u32_add (u32_sub a b) c = u32_sub (a + c) b"
    by (simp only: u32_add_def u32_sub_def mod_add_left_eq) (simp only: add_ac)
  with assms show ?thesis by (simp add: u32_sub_exact)
qed

lemma u32_add_less [simp]: "u32_add a b < u32_max"
  by (simp add: u32_add_def u32_max_def)

lemma u32_sub_less [simp]: "u32_sub a b < u32_max"
  by (simp add: u32_sub_def u32_max_def)

lemma append_take_drop_assoc [simp]: "take n xs @ drop n xs @ ys = xs @ ys"
  by (metis append.assoc append_take_drop_id)

section \<open>Byte memory\<close>

text \<open>
  A block of memory is the list of its bytes. \<open>memcpy\<close> from and to a block is defined only
  inside the block: a read or write past its end, undefined behaviour in the sources, is
  \<^term>\<open>None\<close>. A theorem that an operation returns \<^term>\<open>Some\<close> is a memory-safety theorem.
\<close>

definition mem_rd :: "byte list \<Rightarrow> nat \<Rightarrow> nat \<Rightarrow> byte list option" where
  "mem_rd m off n = (if off + n \<le> length m then Some (take n (drop off m)) else None)"

definition mem_wr :: "byte list \<Rightarrow> nat \<Rightarrow> byte list \<Rightarrow> byte list option" where
  "mem_wr m off bs =
     (if off + length bs \<le> length m
      then Some (take off m @ bs @ drop (off + length bs) m) else None)"

lemma mem_rd_Some [mem_simps]: "off + n \<le> length m \<Longrightarrow> mem_rd m off n = Some (take n (drop off m))"
  by (simp add: mem_rd_def)

lemma mem_wr_Some [mem_simps]:
  "off + length bs \<le> length m \<Longrightarrow> mem_wr m off bs = Some (take off m @ bs @ drop (off + length bs) m)"
  by (simp add: mem_wr_def)

lemma mem_wr_length: "mem_wr m off bs = Some m' \<Longrightarrow> length m' = length m"
  by (auto simp: mem_wr_def split: if_splits)

lemma mem_wr_nth:
  "mem_wr m off bs = Some m' \<Longrightarrow> j < length m \<Longrightarrow>
   m' ! j = (if off \<le> j \<and> j < off + length bs then bs ! (j - off) else m ! j)"
  by (auto simp: mem_wr_def nth_append split: if_splits)

text \<open>A 32-bit integer in memory, least significant byte first.\<close>

definition le32 :: "nat \<Rightarrow> byte list" where
  "le32 n = [word_of_nat n, word_of_nat (n div 256), word_of_nat (n div 65536),
             word_of_nat (n div 16777216)]"

definition rd32 :: "byte list \<Rightarrow> nat" where
  "rd32 bs = unat (bs ! 0) + 256 * unat (bs ! 1) + 65536 * unat (bs ! 2) + 16777216 * unat (bs ! 3)"

lemma length_le32 [simp]: "length (le32 n) = 4"
  by (simp add: le32_def)

lemma rd32_le32 [simp]: "rd32 (le32 n) = n mod u32_max"
proof -
  have b: "unat (word_of_nat k :: byte) = k mod 256" for k
    by (simp add: unat_of_nat)
  have "n mod (256 * 16777216) = 256 * (n div 256 mod 16777216) + n mod 256"
    by (rule mod_mult2_eq)
  moreover have "n div 256 mod (256 * 65536) = 256 * (n div 65536 mod 65536) + n div 256 mod 256"
    by (simp only: mod_mult2_eq div_mult2_eq [symmetric]) simp
  moreover have "n div 65536 mod (256 * 256) = 256 * (n div 16777216 mod 256) + n div 65536 mod 256"
    by (simp only: mod_mult2_eq div_mult2_eq [symmetric]) simp
  ultimately show ?thesis
    by (simp add: rd32_def le32_def b u32_max_def)
qed

lemma rd32_le32_append [simp]: "rd32 (le32 n @ bs) = n mod u32_max"
  using rd32_le32 [of n] by (simp add: rd32_def le32_def)

lemma rd32_le32_exact [u32_simps]: "n < u32_max \<Longrightarrow> rd32 (le32 n) = n"
  by simp

text \<open>Signed 32-bit arithmetic: the value a 32-bit \<open>int\<close> holds after a computation.\<close>

definition i32_wrap :: "int \<Rightarrow> int" where
  "i32_wrap z = (z + 2 ^ 31) mod 2 ^ 32 - 2 ^ 31"

lemma i32_wrap_mod: "i32_wrap z mod 2 ^ 32 = z mod 2 ^ 32"
  by (simp add: i32_wrap_def mod_diff_left_eq)

lemma i32_wrap_range: "- (2 ^ 31) \<le> i32_wrap z" "i32_wrap z < 2 ^ 31"
  using pos_mod_sign [of "2 ^ 32" "z + 2 ^ 31"] pos_mod_bound [of "2 ^ 32" "z + 2 ^ 31"]
  by (simp_all add: i32_wrap_def)

lemma i32_wrap_exact [u32_simps]: "- (2 ^ 31) \<le> z \<Longrightarrow> z < 2 ^ 31 \<Longrightarrow> i32_wrap z = z"
  by (simp add: i32_wrap_def)

lemma i32_wrap_zero: "i32_wrap z = 0 \<longleftrightarrow> z mod 2 ^ 32 = 0"
proof
  assume "i32_wrap z = 0"
  then show "z mod 2 ^ 32 = 0" using i32_wrap_mod [of z] by simp
next
  assume "z mod 2 ^ 32 = 0"
  then obtain k where "z = 2 ^ 32 * k" by auto
  then show "i32_wrap z = 0" by (simp add: i32_wrap_def)
qed

lemma i32_wrap_mod_diff: "(a - i32_wrap b) mod 2 ^ 32 = (a - b) mod 2 ^ 32"
  by (metis i32_wrap_mod mod_diff_right_eq)

end
