(* ===== verification/Heap_List.thy ===== *)
theory Heap_List
  imports Prelude
begin

text \<open>
  The binary min-heap of \<open>sync_frame/micro_thread/heap.h\<close>: an array of entry pointers
  indexed from 1, whose entries carry their own position (\<open>_index\<close>, 0 when not queued) so
  that an arbitrary entry can be removed. The micro-thread scheduler keeps its sleep queue and
  the timer manager its timers in it.
\<close>

section \<open>State and operations\<close>

text \<open>
  \<open>hp_list\<close>, \<open>hp_max\<close> and \<open>hp_count\<close> are the fields of \<open>HeapList\<close>;
  \<open>hp_index\<close> is the \<open>_index\<close> field of every \<open>HeapEntry\<close>, by address. The virtual
  method \<open>HeapValue\<close>, which the subclasses implement, is the argument \<open>hv\<close> of the
  operations that compare entries.
\<close>

record heap_list =
  hp_list :: "ptr list"
  hp_max :: nat
  hp_count :: nat
  hp_index :: "ptr \<Rightarrow> nat"

definition HeapValueCmp :: "(ptr \<Rightarrow> u64) \<Rightarrow> ptr \<Rightarrow> ptr \<Rightarrow> int" where
  "HeapValueCmp hv a b = (if hv a = hv b then 0 else if hv a > hv b then 1 else - 1)"

definition SetIndex :: "ptr \<Rightarrow> nat \<Rightarrow> heap_list \<Rightarrow> heap_list" where
  "SetIndex p i s = s\<lparr>hp_index := (hp_index s)(p := i)\<rparr>"

definition HeapList_init :: "int \<Rightarrow> heap_list" where
  "HeapList_init mx =
     (let m = (if mx > 0 then nat mx else 100000)
      in \<lparr>hp_list = replicate (m + 1) NULL, hp_max = m, hp_count = 0, hp_index = (\<lambda>_. 0)\<rparr>)"

definition HeapResize :: "bool \<Rightarrow> int \<Rightarrow> heap_list \<Rightarrow> int \<times> heap_list" where
  \<comment> \<open>the first argument says whether \<open>malloc\<close> succeeds\<close>
  "HeapResize malloc_ok sz s =
     (if int (hp_max s) \<ge> sz then (0, s)
      else if \<not> malloc_ok then (- 1, s)
      else (0, s\<lparr>hp_list := hp_list s @ replicate (nat sz - hp_max s) NULL, hp_max := nat sz\<rparr>))"

definition HeapSize :: "heap_list \<Rightarrow> nat" where
  "HeapSize s = hp_count s"

definition HeapTop :: "heap_list \<Rightarrow> ptr" where
  "HeapTop s = (if hp_count s > 0 then hp_list s ! 1 else NULL)"

definition HeapFull :: "heap_list \<Rightarrow> bool" where
  "HeapFull s \<longleftrightarrow> hp_count s \<ge> hp_max s"

definition HeapEmpty :: "heap_list \<Rightarrow> bool" where
  "HeapEmpty s \<longleftrightarrow> hp_count s = 0"

text \<open>The exchange of two slots that \<open>HeapUp\<close> and \<open>HeapDown\<close> share, with both \<open>SetIndex\<close> calls.\<close>

definition heap_swap :: "nat \<Rightarrow> nat \<Rightarrow> heap_list \<Rightarrow> heap_list" where
  "heap_swap i j s =
     (let s1 = s\<lparr>hp_list := (hp_list s)[j := hp_list s ! i, i := hp_list s ! j]\<rparr>
      in SetIndex (hp_list s1 ! j) j (SetIndex (hp_list s1 ! i) i s1))"

lemma heap_swap_count [simp]: "hp_count (heap_swap i j s) = hp_count s"
  by (simp add: heap_swap_def SetIndex_def Let_def)

function heap_up_loop :: "(ptr \<Rightarrow> u64) \<Rightarrow> nat \<Rightarrow> heap_list \<Rightarrow> heap_list" where
  "heap_up_loop hv pos s =
     (if pos > 0
      then if pos div 2 < 1 then s
           else if HeapValueCmp hv (hp_list s ! pos) (hp_list s ! (pos div 2)) < 0
           then heap_up_loop hv (pos div 2) (heap_swap pos (pos div 2) s)
           else s
      else s)"
  by pat_completeness auto
termination
  by (relation "measure (\<lambda>(hv, pos, s). pos)") auto

definition HeapUp :: "(ptr \<Rightarrow> u64) \<Rightarrow> heap_list \<Rightarrow> heap_list" where
  "HeapUp hv s = heap_up_loop hv (hp_count s) s"

text \<open>The child that \<open>HeapDown\<close> compares with: the smaller one, the left one when they are equal.\<close>

definition min_son :: "(ptr \<Rightarrow> u64) \<Rightarrow> nat \<Rightarrow> heap_list \<Rightarrow> nat" where
  "min_son hv pos s =
     (if pos * 2 = hp_count s then pos * 2
      else if HeapValueCmp hv (hp_list s ! (pos * 2 + 1)) (hp_list s ! (pos * 2)) < 0
      then pos * 2 + 1 else pos * 2)"

function heap_down_loop :: "(ptr \<Rightarrow> u64) \<Rightarrow> nat \<Rightarrow> heap_list \<Rightarrow> heap_list" where
  "heap_down_loop hv pos s =
     (if pos \<le> hp_count s
      then if pos * 2 > hp_count s then s
           else if HeapValueCmp hv (hp_list s ! pos) (hp_list s ! min_son hv pos s) > 0
           then heap_down_loop hv (min_son hv pos s) (heap_swap pos (min_son hv pos s) s)
           else s
      else s)"
  by pat_completeness auto
termination
proof (relation "measure (\<lambda>(hv, pos, s). hp_count s - pos)", simp, goal_cases)
  case (1 hv pos s)
  then have "min_son hv pos s \<noteq> pos"
    by (auto simp: HeapValueCmp_def)
  with 1 show ?case
    by (auto simp: min_son_def split: if_splits)
qed

definition HeapDown :: "(ptr \<Rightarrow> u64) \<Rightarrow> nat \<Rightarrow> heap_list \<Rightarrow> heap_list" where
  "HeapDown hv index s = heap_down_loop hv index s"

declare heap_up_loop.simps [simp del] heap_down_loop.simps [simp del]

definition HeapPush :: "(ptr \<Rightarrow> u64) \<Rightarrow> ptr \<Rightarrow> heap_list \<Rightarrow> int \<times> heap_list" where
  "HeapPush hv item s =
     (if HeapFull s then (- 1, s)
      else if hp_index s item \<noteq> 0 then (- 2, s)
      else (let c = hp_count s + 1;
                s1 = s\<lparr>hp_count := c, hp_list := (hp_list s)[c := item]\<rparr>;
                s2 = SetIndex item c s1
            in (0, HeapUp hv s2)))"

definition HeapPop :: "(ptr \<Rightarrow> u64) \<Rightarrow> heap_list \<Rightarrow> ptr \<times> heap_list" where
  "HeapPop hv s =
     (if HeapEmpty s then (NULL, s)
      else (let top = hp_list s ! 1; c = hp_count s;
                s1 = s\<lparr>hp_list := (hp_list s)[1 := hp_list s ! c]\<rparr>;
                s2 = SetIndex (hp_list s1 ! 1) 1 s1;
                s3 = s2\<lparr>hp_list := (hp_list s2)[c := NULL], hp_count := c - 1\<rparr>;
                s4 = HeapDown hv 1 s3
            in (top, SetIndex top 0 s4)))"

definition HeapDelete :: "(ptr \<Rightarrow> u64) \<Rightarrow> ptr \<Rightarrow> heap_list \<Rightarrow> int \<times> heap_list" where
  "HeapDelete hv item s =
     (if HeapEmpty s then (- 1, s)
      else (let pos = hp_index s item
            in if pos > hp_count s \<or> pos \<le> 0 then (- 2, s)
               else (let del = hp_list s ! pos; c = hp_count s;
                         s1 = s\<lparr>hp_list := (hp_list s)[pos := hp_list s ! c]\<rparr>;
                         s2 = SetIndex (hp_list s1 ! pos) pos s1;
                         s3 = s2\<lparr>hp_list := (hp_list s2)[c := NULL], hp_count := c - 1\<rparr>;
                         s4 = HeapDown hv pos s3
                     in (0, SetIndex del 0 s4))))"


section \<open>Well-formedness\<close>

text \<open>
  The array holds the queued entries at \<open>1 .. hp_count\<close> and \<open>NULL\<close> elsewhere, and the
  \<open>_index\<close> of every entry is its position, 0 when it is not queued.
\<close>

definition heap_wf :: "heap_list \<Rightarrow> bool" where
  "heap_wf s \<longleftrightarrow>
     length (hp_list s) = hp_max s + 1 \<and> hp_count s \<le> hp_max s \<and> hp_list s ! 0 = NULL \<and>
     (\<forall>i. 1 \<le> i \<and> i \<le> hp_count s \<longrightarrow> hp_list s ! i \<noteq> NULL \<and> hp_index s (hp_list s ! i) = i) \<and>
     (\<forall>i. hp_count s < i \<and> i \<le> hp_max s \<longrightarrow> hp_list s ! i = NULL) \<and>
     (\<forall>p. hp_index s p \<noteq> 0 \<longrightarrow> hp_index s p \<le> hp_count s \<and> hp_list s ! (hp_index s p) = p)"

definition heap_entries :: "heap_list \<Rightarrow> ptr set" where
  "heap_entries s = set (map (\<lambda>i. hp_list s ! i) [1..<hp_count s + 1])"

text \<open>The heap order: no entry is smaller than its parent.\<close>

definition tree_ord :: "(nat \<Rightarrow> 'a::linorder) \<Rightarrow> nat \<Rightarrow> bool" where
  "tree_ord f n \<longleftrightarrow> (\<forall>i. 2 \<le> i \<and> i \<le> n \<longrightarrow> f (i div 2) \<le> f i)"

definition heap_ord :: "(ptr \<Rightarrow> u64) \<Rightarrow> heap_list \<Rightarrow> bool" where
  "heap_ord hv s \<longleftrightarrow> tree_ord (\<lambda>i. hv (hp_list s ! i)) (hp_count s)"

lemma heap_wf_shape:
  assumes "heap_wf s"
  shows "length (hp_list s) = Suc (hp_max s)" "hp_count s \<le> hp_max s" "hp_list s ! 0 = NULL"
    "\<And>i. hp_count s < i \<Longrightarrow> i \<le> hp_max s \<Longrightarrow> hp_list s ! i = NULL"
  using assms unfolding heap_wf_def Suc_eq_plus1 by blast+

lemma heap_wf_nth:
  assumes "heap_wf s" "1 \<le> i" "i \<le> hp_count s"
  shows "hp_list s ! i \<noteq> NULL" "hp_index s (hp_list s ! i) = i" "i < length (hp_list s)"
proof -
  show "hp_list s ! i \<noteq> NULL" "hp_index s (hp_list s ! i) = i"
    using assms unfolding heap_wf_def by blast+
  show "i < length (hp_list s)"
    using heap_wf_shape(1,2) [OF assms(1)] assms(3) by simp
qed

lemma heap_wf_index:
  assumes "heap_wf s" "hp_index s p \<noteq> 0"
  shows "hp_index s p \<le> hp_count s" "hp_list s ! hp_index s p = p" "p \<noteq> NULL"
proof -
  show *: "hp_index s p \<le> hp_count s" "hp_list s ! hp_index s p = p"
    using assms unfolding heap_wf_def by blast+
  show "p \<noteq> NULL"
    using heap_wf_nth(1) [OF assms(1), of "hp_index s p"] * assms(2) by simp
qed

lemma heap_entriesI: "1 \<le> i \<Longrightarrow> i \<le> hp_count s \<Longrightarrow> hp_list s ! i \<in> heap_entries s"
  unfolding heap_entries_def by (simp only: set_map) (rule imageI, auto)

lemma heap_entries_iff:
  assumes wf: "heap_wf s"
  shows "p \<in> heap_entries s \<longleftrightarrow> hp_index s p \<noteq> 0"
proof
  assume "p \<in> heap_entries s"
  then obtain i where "1 \<le> i" "i \<le> hp_count s" "p = hp_list s ! i"
    by (auto simp: heap_entries_def)
  with heap_wf_nth(2) [OF wf] show "hp_index s p \<noteq> 0" by simp
next
  assume nz: "hp_index s p \<noteq> 0"
  note * = heap_wf_index [OF wf nz]
  with nz heap_entriesI [of "hp_index s p" s] show "p \<in> heap_entries s" by simp
qed

lemma heap_wf_inj:
  assumes "heap_wf s" "1 \<le> i" "i \<le> hp_count s" "1 \<le> j" "j \<le> hp_count s"
    "hp_list s ! i = hp_list s ! j"
  shows "i = j"
  using heap_wf_nth(2) [OF assms(1-3)] heap_wf_nth(2) [OF assms(1,4,5)] assms(6) by metis

text \<open>Two heaps over the same entries: what every rearrangement keeps.\<close>

definition heap_same :: "heap_list \<Rightarrow> heap_list \<Rightarrow> bool" where
  "heap_same s s' \<longleftrightarrow> heap_wf s' \<and> hp_count s' = hp_count s \<and> hp_max s' = hp_max s \<and>
     (\<forall>p. hp_index s' p = 0 \<longleftrightarrow> hp_index s p = 0)"

lemma heap_same_refl: "heap_wf s \<Longrightarrow> heap_same s s"
  by (simp add: heap_same_def)

lemma heap_same_trans: "heap_same s t \<Longrightarrow> heap_same t u \<Longrightarrow> heap_same s u"
  by (simp add: heap_same_def)

lemma heap_same_entries: "heap_wf s \<Longrightarrow> heap_same s t \<Longrightarrow> heap_entries t = heap_entries s"
  by (auto simp: heap_same_def heap_entries_iff)

lemma heap_swap_list:
  "hp_list (heap_swap i j s) = (hp_list s)[j := hp_list s ! i, i := hp_list s ! j]"
  by (simp add: heap_swap_def SetIndex_def Let_def)

lemma heap_swap_nth:
  assumes "i < length (hp_list s)" "j < length (hp_list s)"
  shows "hp_list (heap_swap i j s) ! k =
    (if k = i then hp_list s ! j else if k = j then hp_list s ! i else hp_list s ! k)"
  using assms by (simp add: heap_swap_list nth_list_update)

lemma heap_swap_same:
  assumes wf: "heap_wf s" and i: "1 \<le> i" "i \<le> hp_count s" and j: "1 \<le> j" "j \<le> hp_count s"
    and ne: "i \<noteq> j"
  shows "heap_same s (heap_swap i j s)"
proof -
  let ?t = "heap_swap i j s"
  note I = heap_wf_nth [OF wf i] and J = heap_wf_nth [OF wf j]
  have nth: "hp_list ?t ! k = (if k = i then hp_list s ! j else if k = j then hp_list s ! i
      else hp_list s ! k)" for k
    using I J by (simp add: heap_swap_nth)
  have idx: "hp_index ?t = (hp_index s)(hp_list s ! j := i, hp_list s ! i := j)"
    using I J ne by (simp add: heap_swap_def SetIndex_def Let_def nth_list_update)
  have d: "hp_list s ! i \<noteq> hp_list s ! j"
    using heap_wf_inj [OF wf i j] ne by blast
  have keep: "hp_list s ! k \<noteq> hp_list s ! i" "hp_list s ! k \<noteq> hp_list s ! j"
    if "1 \<le> k" "k \<le> hp_count s" "k \<noteq> i" "k \<noteq> j" for k
    using heap_wf_inj [OF wf that(1,2) i] heap_wf_inj [OF wf that(1,2) j] that(3,4) by blast+
  have other: "hp_index s p \<noteq> i \<and> hp_index s p \<noteq> j"
    if "hp_index s p \<noteq> 0" "p \<noteq> hp_list s ! i" "p \<noteq> hp_list s ! j" for p
    using heap_wf_index(2) [OF wf that(1)] that(2,3) by metis
  have "heap_wf ?t"
    unfolding heap_wf_def
  proof (intro conjI allI impI)
    show "length (hp_list ?t) = hp_max ?t + 1" "hp_count ?t \<le> hp_max ?t"
      using heap_wf_shape [OF wf] by (simp_all add: heap_swap_def SetIndex_def Let_def)
    show "hp_list ?t ! 0 = NULL" using heap_wf_shape(3) [OF wf] i j by (simp add: nth)
  next
    fix k assume k: "1 \<le> k \<and> k \<le> hp_count ?t"
    then show "hp_list ?t ! k \<noteq> NULL" using I J heap_wf_nth(1) [OF wf, of k] by (simp add: nth)
    show "hp_index ?t (hp_list ?t ! k) = k"
      using k d keep [of k] heap_wf_nth(2) [OF wf, of k] by (auto simp: nth idx)
  next
    fix k assume "hp_count ?t < k \<and> k \<le> hp_max ?t"
    then show "hp_list ?t ! k = NULL"
      using heap_wf_shape(4) [OF wf, of k] i j
      by (simp add: nth) (simp add: heap_swap_def SetIndex_def Let_def)
  next
    fix p assume p: "hp_index ?t p \<noteq> 0"
    show "hp_index ?t p \<le> hp_count ?t"
      using p i j heap_wf_index(1) [OF wf, of p] by (auto simp: idx split: if_splits)
    show "hp_list ?t ! hp_index ?t p = p"
      using p d other [of p] heap_wf_index(2) [OF wf, of p] by (auto simp: idx nth split: if_splits)
  qed
  moreover have "hp_index ?t p = 0 \<longleftrightarrow> hp_index s p = 0" for p
    using i j I J by (auto simp: idx)
  ultimately show ?thesis
    by (simp add: heap_same_def heap_swap_def SetIndex_def Let_def)
qed

lemma heap_up_loop_same:
  "heap_wf s \<Longrightarrow> pos \<le> hp_count s \<Longrightarrow> heap_same s (heap_up_loop hv pos s)"
proof (induction hv pos s rule: heap_up_loop.induct)
  case (1 hv pos s)
  show ?case
  proof (cases "pos > 0 \<and> \<not> pos div 2 < 1 \<and>
      HeapValueCmp hv (hp_list s ! pos) (hp_list s ! (pos div 2)) < 0")
    case True
    let ?t = "heap_swap pos (pos div 2) s"
    have t: "heap_same s ?t"
      using True "1.prems" by (intro heap_swap_same) auto
    then have wt: "heap_wf ?t" by (simp add: heap_same_def)
    moreover have "pos div 2 \<le> hp_count ?t" using "1.prems" by simp
    ultimately have "heap_same ?t (heap_up_loop hv (pos div 2) ?t)"
      using "1.IH" True by blast
    with t have "heap_same s (heap_up_loop hv (pos div 2) ?t)" by (rule heap_same_trans)
    with True show ?thesis by (simp add: heap_up_loop.simps [of hv pos s])
  next
    case False
    then have "heap_up_loop hv pos s = s"
      by (auto simp: heap_up_loop.simps [of hv pos s])
    with "1.prems" show ?thesis by (simp add: heap_same_refl)
  qed
qed

lemma min_son_bounds:
  assumes "1 \<le> pos" "pos * 2 \<le> hp_count s"
  shows "pos < min_son hv pos s" "min_son hv pos s \<le> hp_count s" "min_son hv pos s div 2 = pos"
  using assms by (auto simp: min_son_def)

lemma heap_down_loop_same:
  "heap_wf s \<Longrightarrow> 1 \<le> pos \<Longrightarrow> heap_same s (heap_down_loop hv pos s)"
proof (induction hv pos s rule: heap_down_loop.induct)
  case (1 hv pos s)
  show ?case
  proof (cases "pos \<le> hp_count s \<and> \<not> pos * 2 > hp_count s \<and>
      HeapValueCmp hv (hp_list s ! pos) (hp_list s ! min_son hv pos s) > 0")
    case True
    let ?m = "min_son hv pos s"
    let ?t = "heap_swap pos ?m s"
    have m: "pos < ?m" "?m \<le> hp_count s"
      using min_son_bounds [of pos s hv] True "1.prems" by auto
    have t: "heap_same s ?t"
      using True "1.prems" m by (intro heap_swap_same) auto
    then have wt: "heap_wf ?t" by (simp add: heap_same_def)
    then have "heap_same ?t (heap_down_loop hv ?m ?t)"
      using "1.IH" True m by simp
    with t have "heap_same s (heap_down_loop hv (?m) ?t)" by (rule heap_same_trans)
    with True show ?thesis by (simp add: heap_down_loop.simps [of hv pos s])
  next
    case False
    then have "heap_down_loop hv pos s = s"
      by (auto simp: heap_down_loop.simps [of hv pos s])
    with "1.prems" show ?thesis by (simp add: heap_same_refl)
  qed
qed


section \<open>The heap order\<close>

text \<open>
  Sifting on an abstract array: \<open>up_ok f n k\<close> is the order but for slot \<open>k\<close> and its parent,
  \<open>down_ok f n k\<close> the order but for slot \<open>k\<close> and its children; in both, the parent of
  \<open>k\<close> bounds the children of \<open>k\<close>. One exchange moves the exception one level.
\<close>

definition up_ok :: "(nat \<Rightarrow> 'a::linorder) \<Rightarrow> nat \<Rightarrow> nat \<Rightarrow> bool" where
  "up_ok f n k \<longleftrightarrow>
     (\<forall>i. 2 \<le> i \<and> i \<le> n \<and> i \<noteq> k \<longrightarrow> f (i div 2) \<le> f i) \<and>
     (\<forall>i. 2 \<le> k \<and> i \<le> n \<and> i div 2 = k \<longrightarrow> f (k div 2) \<le> f i)"

definition down_ok :: "(nat \<Rightarrow> 'a::linorder) \<Rightarrow> nat \<Rightarrow> nat \<Rightarrow> bool" where
  "down_ok f n k \<longleftrightarrow>
     (\<forall>i. 2 \<le> i \<and> i \<le> n \<and> i div 2 \<noteq> k \<longrightarrow> f (i div 2) \<le> f i) \<and>
     (\<forall>i. 2 \<le> k \<and> i \<le> n \<and> i div 2 = k \<longrightarrow> f (k div 2) \<le> f i)"

lemma tree_ord_root:
  assumes "tree_ord f n" "1 \<le> i" "i \<le> n"
  shows "f 1 \<le> f i"
  using assms(2,3)
proof (induction i rule: less_induct)
  case (less i)
  show ?case
  proof (cases "i = 1")
    case False
    with less have "f 1 \<le> f (i div 2)" by simp
    also have "\<dots> \<le> f i" using assms(1) less.prems False by (simp add: tree_ord_def)
    finally show ?thesis .
  qed simp
qed

lemma up_ok_done: "up_ok f n k \<Longrightarrow> k < 2 \<or> f (k div 2) \<le> f k \<Longrightarrow> tree_ord f n"
  unfolding tree_ord_def up_ok_def by (metis not_less)

lemma down_ok_leaf: "down_ok f n k \<Longrightarrow> n < k * 2 \<Longrightarrow> tree_ord f n"
  unfolding tree_ord_def down_ok_def by (metis div_times_less_eq_dividend le_trans not_less)

lemma down_ok_done:
  assumes "down_ok f n k" "\<And>i. i \<le> n \<Longrightarrow> i div 2 = k \<Longrightarrow> f k \<le> f i"
  shows "tree_ord f n"
  using assms unfolding tree_ord_def down_ok_def by metis

lemma up_ok_step:
  assumes ok: "up_ok f n k" and k: "2 \<le> k" "k \<le> n" and lt: "f k < f (k div 2)"
    and g: "\<And>i. g i = (if i = k then f (k div 2) else if i = k div 2 then f k else f i)"
  shows "up_ok g n (k div 2)"
  unfolding up_ok_def
proof (intro conjI allI impI)
  have A: "f (i div 2) \<le> f i" if "2 \<le> i" "i \<le> n" "i \<noteq> k" for i
    using ok that unfolding up_ok_def by blast
  have B: "f (k div 2) \<le> f i" if "i \<le> n" "i div 2 = k" for i
    using ok k that unfolding up_ok_def by blast
  show "g (i div 2) \<le> g i" if i: "2 \<le> i \<and> i \<le> n \<and> i \<noteq> k div 2" for i
  proof (cases "i = k")
    case True
    with k lt show ?thesis by (auto simp: g)
  next
    case False
    consider "i div 2 = k" | "i div 2 = k div 2" | "i div 2 \<noteq> k" "i div 2 \<noteq> k div 2" by blast
    then show ?thesis
    proof cases
      case 1
      with B [of i] i False show ?thesis by (auto simp: g)
    next
      case 2
      with A [of i] lt i False k show ?thesis by (auto simp: g)
    next
      case 3
      with A [of i] i False show ?thesis by (auto simp: g)
    qed
  qed
  show "g (k div 2 div 2) \<le> g i" if i: "2 \<le> k div 2 \<and> i \<le> n \<and> i div 2 = k div 2" for i
  proof -
    have par: "f (k div 2 div 2) \<le> f (k div 2)" using A [of "k div 2"] i k by auto
    have ne: "k div 2 div 2 \<noteq> k" "k div 2 div 2 \<noteq> k div 2" "i \<noteq> k div 2" using i by auto
    show ?thesis
    proof (cases "i = k")
      case True
      with par ne show ?thesis by (auto simp: g)
    next
      case False
      with A [of i] i have "f (k div 2) \<le> f i" by auto
      with par ne False show ?thesis by (auto simp: g)
    qed
  qed
qed

lemma down_ok_step:
  assumes ok: "down_ok f n k" and k: "1 \<le> k" and m: "m \<le> n" "m div 2 = k" and lt: "f m < f k"
    and least: "\<And>i. i \<le> n \<Longrightarrow> i div 2 = k \<Longrightarrow> f m \<le> f i"
    and g: "\<And>i. g i = (if i = k then f m else if i = m then f k else f i)"
  shows "down_ok g n m"
  unfolding down_ok_def
proof (intro conjI allI impI)
  have km: "k < m" using k m(2) by auto
  have A: "f (i div 2) \<le> f i" if "2 \<le> i" "i \<le> n" "i div 2 \<noteq> k" for i
    using ok that unfolding down_ok_def by blast
  have B: "f (k div 2) \<le> f i" if "2 \<le> k" "i \<le> n" "i div 2 = k" for i
    using ok that unfolding down_ok_def by blast
  show "g (i div 2) \<le> g i" if i: "2 \<le> i \<and> i \<le> n \<and> i div 2 \<noteq> m" for i
  proof (cases "i div 2 = k")
    case True
    with least [of i] i lt km show ?thesis by (auto simp: g)
  next
    case False
    show ?thesis
    proof (cases "i = k")
      case True
      with B [of m] m i km show ?thesis by (auto simp: g)
    next
      case nk: False
      have "i \<noteq> m" using False m(2) by auto
      with A [of i] i False nk show ?thesis by (auto simp: g)
    qed
  qed
  show "g (m div 2) \<le> g i" if i: "2 \<le> m \<and> i \<le> n \<and> i div 2 = m" for i
  proof -
    have "i div 2 \<noteq> k" "2 \<le> i" "i \<noteq> m" "i \<noteq> k" using i km k m by auto
    with A [of i] i m km show ?thesis by (auto simp: g)
  qed
qed


lemma HeapValueCmp_less [simp]: "HeapValueCmp hv a b < 0 \<longleftrightarrow> hv a < hv b"
  by (auto simp: HeapValueCmp_def)

lemma HeapValueCmp_greater [simp]: "HeapValueCmp hv a b > 0 \<longleftrightarrow> hv a > hv b"
  by (auto simp: HeapValueCmp_def)

lemma heap_up_loop_ord:
  "heap_wf s \<Longrightarrow> pos \<le> hp_count s \<Longrightarrow> up_ok (\<lambda>i. hv (hp_list s ! i)) (hp_count s) pos \<Longrightarrow>
   heap_ord hv (heap_up_loop hv pos s)"
proof (induction hv pos s rule: heap_up_loop.induct)
  case (1 hv pos s)
  note prems = "1.prems" and simps = heap_up_loop.simps [of hv pos s]
  show ?case
  proof (cases "pos > 0 \<and> \<not> pos div 2 < 1 \<and> hv (hp_list s ! pos) < hv (hp_list s ! (pos div 2))")
    case True
    let ?t = "heap_swap pos (pos div 2) s"
    have pos: "2 \<le> pos" using True by auto
    have "heap_same s ?t" using pos prems by (intro heap_swap_same) auto
    then have wt: "heap_wf ?t" by (simp add: heap_same_def)
    have len: "pos < length (hp_list s)" "pos div 2 < length (hp_list s)"
      using heap_wf_shape(1,2) [OF prems(1)] prems(2) by auto
    have "up_ok (\<lambda>i. hv (hp_list ?t ! i)) (hp_count s) (pos div 2)"
      by (rule up_ok_step [OF prems(3) pos prems(2)]) (use True len in \<open>auto simp: heap_swap_nth\<close>)
    then have "heap_ord hv (heap_up_loop hv (pos div 2) ?t)"
      using "1.IH" True wt prems(2) by simp
    with True show ?thesis by (simp add: simps)
  next
    case False
    then have "heap_up_loop hv pos s = s" by (auto simp: simps)
    moreover have "pos < 2 \<or> hv (hp_list s ! (pos div 2)) \<le> hv (hp_list s ! pos)"
      using False by auto
    ultimately show ?thesis
      using up_ok_done [OF prems(3)] by (simp add: heap_ord_def)
  qed
qed

lemma min_son_least:
  assumes "1 \<le> pos" "pos * 2 \<le> hp_count s" "i \<le> hp_count s" "i div 2 = pos"
  shows "hv (hp_list s ! min_son hv pos s) \<le> hv (hp_list s ! i)"
proof -
  have "i = pos * 2 \<or> i = pos * 2 + 1" using assms(4) by auto
  with assms(3) show ?thesis by (auto simp: min_son_def)
qed

lemma heap_down_loop_ord:
  "heap_wf s \<Longrightarrow> 1 \<le> pos \<Longrightarrow> down_ok (\<lambda>i. hv (hp_list s ! i)) (hp_count s) pos \<Longrightarrow>
   heap_ord hv (heap_down_loop hv pos s)"
proof (induction hv pos s rule: heap_down_loop.induct)
  case (1 hv pos s)
  note prems = "1.prems" and simps = heap_down_loop.simps [of hv pos s]
  let ?m = "min_son hv pos s"
  show ?case
  proof (cases "pos * 2 \<le> hp_count s")
    case False
    then have "heap_down_loop hv pos s = s" by (auto simp: simps)
    moreover have "hp_count s < pos * 2" using False by simp
    ultimately show ?thesis
      using down_ok_leaf [OF prems(3)] by (simp add: heap_ord_def)
  next
    case le: True
    note m = min_son_bounds [OF prems(2) le, of hv]
    note least = min_son_least [OF prems(2) le, of _ hv]
    show ?thesis
    proof (cases "hv (hp_list s ! pos) > hv (hp_list s ! ?m)")
      case True
      let ?t = "heap_swap pos ?m s"
      have "heap_same s ?t" using prems m by (intro heap_swap_same) auto
      then have wt: "heap_wf ?t" by (simp add: heap_same_def)
      have len: "pos < length (hp_list s)" "?m < length (hp_list s)"
        using heap_wf_shape(1,2) [OF prems(1)] le m by auto
      have "down_ok (\<lambda>i. hv (hp_list ?t ! i)) (hp_count s) ?m"
        by (rule down_ok_step [OF prems(3) prems(2) m(2,3)])
          (use True len least in \<open>auto simp: heap_swap_nth\<close>)
      then have "heap_ord hv (heap_down_loop hv ?m ?t)"
        using "1.IH" True wt le m by simp
      with True le show ?thesis by (simp add: simps)
    next
      case False
      then have "heap_down_loop hv pos s = s" by (auto simp: simps)
      moreover have "tree_ord (\<lambda>i. hv (hp_list s ! i)) (hp_count s)"
      proof (rule down_ok_done [OF prems(3)])
        fix i assume i: "i \<le> hp_count s" "i div 2 = pos"
        have "hv (hp_list s ! pos) \<le> hv (hp_list s ! ?m)" using False by simp
        also have "\<dots> \<le> hv (hp_list s ! i)" by (rule least [OF i])
        finally show "hv (hp_list s ! pos) \<le> hv (hp_list s ! i)" .
      qed
      ultimately show ?thesis by (simp add: heap_ord_def)
    qed
  qed
qed

section \<open>Correctness of the operations\<close>

lemma HeapList_init_wf: "heap_wf (HeapList_init mx)"
  unfolding heap_wf_def HeapList_init_def Let_def by (simp del: replicate.simps)

lemma HeapResize_wf:
  assumes wf: "heap_wf s"
  shows "heap_wf (snd (HeapResize ok sz s))"
proof (cases "int (hp_max s) \<ge> sz \<or> \<not> ok")
  case True
  with wf show ?thesis by (auto simp: HeapResize_def)
next
  case False
  define t where "t = snd (HeapResize ok sz s)"
  have fields: "hp_count t = hp_count s" "hp_max t = nat sz" "hp_index t = hp_index s"
    "hp_list t = hp_list s @ replicate (nat sz - hp_max s) NULL"
    using False by (auto simp: t_def HeapResize_def)
  note shape = heap_wf_shape [OF wf]
  have nth: "hp_list t ! i = (if i \<le> hp_max s then hp_list s ! i else NULL)" if "i \<le> nat sz" for i
    using that shape(1) by (auto simp: fields nth_append)
  have big: "hp_max s \<le> nat sz" using False by auto
  have "heap_wf t"
    unfolding heap_wf_def fields(1-3)
  proof (intro conjI allI impI)
    show "length (hp_list t) = nat sz + 1" using shape big by (simp add: fields)
    show "hp_count s \<le> nat sz" using shape(2) big by simp
    show "hp_list t ! 0 = NULL" using shape(3) by (simp add: nth)
    show "hp_list t ! i \<noteq> NULL" "hp_index s (hp_list t ! i) = i" if "1 \<le> i \<and> i \<le> hp_count s" for i
      using heap_wf_nth(1,2) [OF wf, of i] that shape(2) big by (simp_all add: nth)
    show "hp_list t ! i = NULL" if "hp_count s < i \<and> i \<le> nat sz" for i
      using shape(4) [of i] that by (simp add: nth)
    show "hp_index s p \<le> hp_count s" if "hp_index s p \<noteq> 0" for p
      using heap_wf_index [OF wf that] by simp
    show "hp_list t ! hp_index s p = p" if "hp_index s p \<noteq> 0" for p
      using heap_wf_index [OF wf that] shape(2) big by (simp add: nth)
  qed
  then show ?thesis by (simp add: t_def)
qed

text \<open>The state of \<open>HeapPush\<close> before \<open>HeapUp\<close>: the item in the first free slot.\<close>

definition heap_append :: "ptr \<Rightarrow> heap_list \<Rightarrow> heap_list" where
  "heap_append item s =
     SetIndex item (hp_count s + 1)
       (s\<lparr>hp_count := hp_count s + 1, hp_list := (hp_list s)[hp_count s + 1 := item]\<rparr>)"

lemma heap_append_fields:
  "hp_count (heap_append x s) = hp_count s + 1" "hp_max (heap_append x s) = hp_max s"
  "hp_list (heap_append x s) = (hp_list s)[hp_count s + 1 := x]"
  "hp_index (heap_append x s) = (hp_index s)(x := hp_count s + 1)"
  by (simp_all add: heap_append_def SetIndex_def)

lemma heap_append_wf:
  assumes wf: "heap_wf s" and x: "x \<noteq> NULL" "hp_index s x = 0" and room: "hp_count s < hp_max s"
  shows "heap_wf (heap_append x s)"
proof -
  note shape = heap_wf_shape [OF wf]
  have nth: "hp_list (heap_append x s) ! i = (if i = hp_count s + 1 then x else hp_list s ! i)" for i
    using shape room by (simp add: heap_append_fields nth_list_update)
  have old: "hp_list s ! i \<noteq> x" if "1 \<le> i" "i \<le> hp_count s" for i
    using heap_wf_nth(2) [OF wf that] x that by auto
  show ?thesis
    unfolding heap_wf_def heap_append_fields(1,2)
  proof (intro conjI allI impI)
    show "length (hp_list (heap_append x s)) = hp_max s + 1" "hp_count s + 1 \<le> hp_max s"
      using shape room by (simp_all add: heap_append_fields)
    show "hp_list (heap_append x s) ! 0 = NULL" using shape by (simp add: nth)
    show "hp_list (heap_append x s) ! i \<noteq> NULL" if "1 \<le> i \<and> i \<le> hp_count s + 1" for i
      using that x heap_wf_nth(1) [OF wf, of i] by (simp add: nth)
    show "hp_index (heap_append x s) (hp_list (heap_append x s) ! i) = i"
      if "1 \<le> i \<and> i \<le> hp_count s + 1" for i
      using that old [of i] heap_wf_nth(2) [OF wf, of i]
      by (cases "i = hp_count s + 1") (simp_all add: nth heap_append_fields(4))
    show "hp_list (heap_append x s) ! i = NULL" if "hp_count s + 1 < i \<and> i \<le> hp_max s" for i
      using that shape(4) [of i] by (simp add: nth)
    show "hp_index (heap_append x s) p \<le> hp_count s + 1" if "hp_index (heap_append x s) p \<noteq> 0" for p
      using that heap_wf_index(1) [OF wf, of p] by (cases "p = x") (auto simp: heap_append_fields(4))
    show "hp_list (heap_append x s) ! hp_index (heap_append x s) p = p"
      if "hp_index (heap_append x s) p \<noteq> 0" for p
      using that heap_wf_index(1,2) [OF wf, of p] by (cases "p = x") (auto simp: nth heap_append_fields(4))
  qed
qed

lemma HeapPush_eq:
  assumes "hp_count s < hp_max s" "hp_index s x = 0"
  shows "HeapPush hv x s = (0, heap_up_loop hv (hp_count s + 1) (heap_append x s))"
  using assms by (simp add: HeapPush_def HeapFull_def HeapUp_def heap_append_def Let_def SetIndex_def)

lemma HeapPush_same:
  assumes wf: "heap_wf s" and x: "x \<noteq> NULL" "hp_index s x = 0" and room: "hp_count s < hp_max s"
  shows "heap_same (heap_append x s) (snd (HeapPush hv x s))"
  using heap_up_loop_same [OF heap_append_wf [OF assms], of "hp_count s + 1" hv]
  by (simp add: HeapPush_eq [OF room x(2)] heap_append_fields)

lemma HeapPush_ord:
  assumes wf: "heap_wf s" and x: "x \<noteq> NULL" "hp_index s x = 0" and room: "hp_count s < hp_max s"
    and ord: "heap_ord hv s"
  shows "heap_ord hv (snd (HeapPush hv x s))"
proof -
  note shape = heap_wf_shape [OF wf]
  have "up_ok (\<lambda>i. hv (hp_list (heap_append x s) ! i)) (hp_count s + 1) (hp_count s + 1)"
    unfolding up_ok_def
    using ord shape room
    by (auto simp: heap_append_fields nth_list_update heap_ord_def tree_ord_def)
  then show ?thesis
    using heap_up_loop_ord [OF heap_append_wf [OF assms(1-4)], of "hp_count s + 1" hv]
    by (simp add: HeapPush_eq [OF room x(2)] heap_append_fields)
qed


text \<open>
  Removal: the last entry moves into slot \<open>pos\<close>, the removed entry's \<open>_index\<close> becomes 0.
  The code resets that \<open>_index\<close> after \<open>HeapDown\<close>; as \<open>HeapDown\<close> touches queued entries
  only, the two steps commute.
\<close>

definition heap_unlink :: "nat \<Rightarrow> heap_list \<Rightarrow> heap_list" where
  "heap_unlink pos s =
     s\<lparr>hp_list := (hp_list s)[pos := hp_list s ! hp_count s, hp_count s := NULL],
       hp_count := hp_count s - 1,
       hp_index := (hp_index s)(hp_list s ! hp_count s := pos, hp_list s ! pos := 0)\<rparr>"

lemma SetIndex_fields [simp]:
  "hp_list (SetIndex p i s) = hp_list s" "hp_count (SetIndex p i s) = hp_count s"
  "hp_max (SetIndex p i s) = hp_max s"
  by (simp_all add: SetIndex_def)

lemma heap_swap_SetIndex:
  assumes "p \<noteq> hp_list s ! i" "p \<noteq> hp_list s ! j" "i < length (hp_list s)" "j < length (hp_list s)"
    "i \<noteq> j"
  shows "heap_swap i j (SetIndex p n s) = SetIndex p n (heap_swap i j s)"
  using assms by (auto simp: heap_swap_def SetIndex_def Let_def fun_eq_iff)

lemma heap_down_loop_SetIndex:
  "hp_count s < length (hp_list s) \<Longrightarrow> 1 \<le> pos \<Longrightarrow> p \<notin> heap_entries s \<Longrightarrow>
   heap_down_loop hv pos (SetIndex p n s) = SetIndex p n (heap_down_loop hv pos s)"
proof (induction hv pos s rule: heap_down_loop.induct)
  case (1 hv pos s)
  note prems = "1.prems"
  let ?m = "min_son hv pos s"
  have m': "min_son hv pos (SetIndex p n s) = ?m"
    by (simp add: min_son_def)
  show ?case
  proof (cases "pos \<le> hp_count s \<and> pos * 2 \<le> hp_count s \<and>
      hv (hp_list s ! pos) > hv (hp_list s ! ?m)")
    case True
    let ?t = "heap_swap pos ?m s"
    have m: "pos < ?m" "?m \<le> hp_count s"
      using min_son_bounds [of pos s hv] True prems(2) by auto
    note ent = heap_entriesI [of _ s]
    have len: "pos < length (hp_list s)" "?m < length (hp_list s)" using True m prems(1) by auto
    have ne: "p \<noteq> hp_list s ! pos" "p \<noteq> hp_list s ! ?m"
      using ent [of pos] ent [of ?m] True m prems(2,3) by auto
    have nth: "hp_list ?t ! k \<in> heap_entries s" if "1 \<le> k" "k \<le> hp_count s" for k
      using ent [of pos] ent [of ?m] ent [OF that] True m prems(2) by (simp add: heap_swap_nth [OF len])
    have "p \<notin> heap_entries ?t"
      using nth prems(3) unfolding heap_entries_def [of ?t] by auto
    moreover have "hp_count ?t < length (hp_list ?t)" using prems(1) by (simp add: heap_swap_list)
    ultimately have "heap_down_loop hv ?m (SetIndex p n ?t) = SetIndex p n (heap_down_loop hv ?m ?t)"
      using "1.IH" True m by simp
    moreover have "heap_swap pos ?m (SetIndex p n s) = SetIndex p n ?t"
      using ne len m by (intro heap_swap_SetIndex) auto
    ultimately show ?thesis
      using True by (simp add: heap_down_loop.simps [of hv pos "SetIndex p n s"]
          heap_down_loop.simps [of hv pos s] m')
  next
    case False
    then have "heap_down_loop hv pos s = s" "heap_down_loop hv pos (SetIndex p n s) = SetIndex p n s"
      by (auto simp: heap_down_loop.simps [of hv pos "SetIndex p n s"]
          heap_down_loop.simps [of hv pos s] m')
    then show ?thesis by simp
  qed
qed

lemma heap_unlink_fields:
  "hp_count (heap_unlink pos s) = hp_count s - 1" "hp_max (heap_unlink pos s) = hp_max s"
  "hp_index (heap_unlink pos s) = (hp_index s)(hp_list s ! hp_count s := pos, hp_list s ! pos := 0)"
  by (simp_all add: heap_unlink_def)

lemma heap_unlink_nth:
  assumes "heap_wf s" "1 \<le> pos" "pos \<le> hp_count s"
  shows "hp_list (heap_unlink pos s) ! i =
    (if i = hp_count s then NULL else if i = pos then hp_list s ! hp_count s else hp_list s ! i)"
  using heap_wf_shape(1,2) [OF assms(1)] assms(2,3) by (simp add: heap_unlink_def nth_list_update)

lemma heap_unlink_wf:
  assumes wf: "heap_wf s" and pos: "1 \<le> pos" "pos \<le> hp_count s"
  shows "heap_wf (heap_unlink pos s)"
proof -
  let ?c = "hp_count s" and ?t = "heap_unlink pos s"
  note shape = heap_wf_shape [OF wf] and nth = heap_unlink_nth [OF assms]
  have inj: "hp_list s ! i = hp_list s ! j \<longleftrightarrow> i = j"
    if "1 \<le> i" "i \<le> ?c" "1 \<le> j" "j \<le> ?c" for i j
    using heap_wf_inj [OF wf that] by blast
  show ?thesis
    unfolding heap_wf_def heap_unlink_fields(1,2)
  proof (intro conjI allI impI)
    show "length (hp_list ?t) = hp_max s + 1" "?c - 1 \<le> hp_max s"
      using shape by (simp_all add: heap_unlink_def)
    show "hp_list ?t ! 0 = NULL" using shape pos by (simp add: nth)
    show "hp_list ?t ! i \<noteq> NULL" if "1 \<le> i \<and> i \<le> ?c - 1" for i
      using that pos heap_wf_nth(1) [OF wf, of i] heap_wf_nth(1) [OF wf, of ?c] by (auto simp: nth)
    show "hp_index ?t (hp_list ?t ! i) = i" if "1 \<le> i \<and> i \<le> ?c - 1" for i
    proof (cases "i = pos")
      case True
      with that pos show ?thesis by (auto simp: nth heap_unlink_fields(3) inj)
    next
      case False
      with that pos show ?thesis
        using heap_wf_nth(2) [OF wf, of i] by (auto simp: nth heap_unlink_fields(3) inj)
    qed
    show "hp_list ?t ! i = NULL" if "?c - 1 < i \<and> i \<le> hp_max s" for i
      using that pos shape(4) [of i] by (cases "i = ?c") (auto simp: nth)
    show "hp_index ?t p \<le> ?c - 1" if p: "hp_index ?t p \<noteq> 0" for p
    proof (cases "p = hp_list s ! ?c")
      case True
      with p pos show ?thesis by (auto simp: heap_unlink_fields(3) inj split: if_splits)
    next
      case False
      with p have "hp_index ?t p = hp_index s p" "hp_index s p \<noteq> 0"
        by (auto simp: heap_unlink_fields(3) split: if_splits)
      moreover from this have "hp_index s p \<noteq> ?c"
        using False heap_wf_index(2) [OF wf, of p] by metis
      ultimately show ?thesis using heap_wf_index(1) [OF wf, of p] by simp
    qed
    show "hp_list ?t ! hp_index ?t p = p" if p: "hp_index ?t p \<noteq> 0" for p
    proof (cases "p = hp_list s ! ?c")
      case True
      with p pos show ?thesis by (auto simp: nth heap_unlink_fields(3) inj split: if_splits)
    next
      case False
      with p have *: "hp_index ?t p = hp_index s p" "hp_index s p \<noteq> 0" "p \<noteq> hp_list s ! pos"
        by (auto simp: heap_unlink_fields(3) split: if_splits)
      with False heap_wf_index(2) [OF wf, of p] show ?thesis by (auto simp: nth)
    qed
  qed
qed

lemma heap_unlink_index:
  assumes wf: "heap_wf s" and pos: "1 \<le> pos" "pos \<le> hp_count s"
  shows "hp_index (heap_unlink pos s) p = 0 \<longleftrightarrow> hp_index s p = 0 \<or> p = hp_list s ! pos"
  using heap_wf_nth(2) [OF wf, of "hp_count s"] pos by (auto simp: heap_unlink_fields(3))


lemma heap_remove_eq:
  assumes wf: "heap_wf s" and pos: "1 \<le> pos" "pos \<le> hp_count s"
  defines "s1 \<equiv> s\<lparr>hp_list := (hp_list s)[pos := hp_list s ! hp_count s]\<rparr>"
  defines "s2 \<equiv> SetIndex (hp_list s1 ! pos) pos s1"
  defines "s3 \<equiv> s2\<lparr>hp_list := (hp_list s2)[hp_count s := NULL], hp_count := hp_count s - 1\<rparr>"
  shows "SetIndex (hp_list s ! pos) 0 (HeapDown hv pos s3) = heap_down_loop hv pos (heap_unlink pos s)"
proof -
  let ?d = "hp_list s ! pos"
  have len: "pos < length (hp_list s)" "hp_count s < length (hp_list s)"
    using heap_wf_shape(1,2) [OF wf] pos by auto
  have unl: "SetIndex ?d 0 s3 = heap_unlink pos s"
    using len by (simp add: s3_def s2_def s1_def heap_unlink_def SetIndex_def)
  have ent: "heap_entries s3 = heap_entries (heap_unlink pos s)"
    by (simp add: heap_entries_def flip: unl)
  have "?d \<notin> heap_entries s3"
    using heap_unlink_index [OF wf pos, of ?d] by (simp add: ent heap_entries_iff [OF heap_unlink_wf [OF wf pos]])
  moreover have "hp_count s3 < length (hp_list s3)"
    using len by (simp add: s3_def s2_def s1_def)
  ultimately have "heap_down_loop hv pos (SetIndex ?d 0 s3) = SetIndex ?d 0 (heap_down_loop hv pos s3)"
    using pos(1) by (intro heap_down_loop_SetIndex) auto
  then show ?thesis by (simp add: HeapDown_def unl)
qed

lemma HeapDelete_eq:
  assumes "heap_wf s" "hp_index s x \<noteq> 0"
  shows "HeapDelete hv x s = (0, heap_down_loop hv (hp_index s x) (heap_unlink (hp_index s x) s))"
proof -
  note i = heap_wf_index [OF assms]
  have "1 \<le> hp_index s x" using assms(2) by simp
  from heap_remove_eq [OF assms(1) this i(1), of hv] show ?thesis
    using assms(2) i(1) by (simp add: HeapDelete_def HeapEmpty_def Let_def)
qed

lemma HeapPop_eq:
  assumes "heap_wf s" "hp_count s \<noteq> 0"
  shows "HeapPop hv s = (hp_list s ! 1, heap_down_loop hv 1 (heap_unlink 1 s))"
proof -
  have "1 \<le> (1::nat)" "1 \<le> hp_count s" using assms(2) by auto
  from heap_remove_eq [OF assms(1) this, of hv] show ?thesis
    using assms(2) by (simp add: HeapPop_def HeapEmpty_def Let_def)
qed

lemma HeapPop_HeapDelete:
  assumes "heap_wf s" "hp_count s \<noteq> 0"
  shows "HeapPop hv s = (HeapTop s, snd (HeapDelete hv (HeapTop s) s))"
proof -
  have "hp_index s (hp_list s ! 1) = 1" using heap_wf_nth(2) [OF assms(1), of 1] assms(2) by simp
  then show ?thesis
    using HeapPop_eq [OF assms, of hv] HeapDelete_eq [OF assms(1), of "hp_list s ! 1" hv] assms(2)
    by (simp add: HeapTop_def)
qed

lemma heap_remove_same:
  assumes "heap_wf s" "1 \<le> pos" "pos \<le> hp_count s"
  shows "heap_same (heap_unlink pos s) (heap_down_loop hv pos (heap_unlink pos s))"
  by (rule heap_down_loop_same [OF heap_unlink_wf [OF assms] assms(2)])

text \<open>
  The order survives a removal when the entry that moves into the gap is not smaller than the
  parent of the gap. \<open>HeapDown\<close> alone cannot repair the other case.
\<close>

lemma heap_remove_ord:
  assumes wf: "heap_wf s" and pos: "1 \<le> pos" "pos \<le> hp_count s" and ord: "heap_ord hv s"
    and gap: "pos = 1 \<or> hv (hp_list s ! (pos div 2)) \<le> hv (hp_list s ! hp_count s)"
  shows "heap_ord hv (heap_down_loop hv pos (heap_unlink pos s))"
proof (rule heap_down_loop_ord [OF heap_unlink_wf [OF wf pos] pos(1)])
  let ?f = "\<lambda>i. hv (hp_list s ! i)" and ?g = "\<lambda>i. hv (hp_list (heap_unlink pos s) ! i)"
  note nth = heap_unlink_nth [OF wf pos]
  have O: "?f (i div 2) \<le> ?f i" if "2 \<le> i" "i \<le> hp_count s" for i
    using ord that by (simp add: heap_ord_def tree_ord_def)
  show "down_ok ?g (hp_count (heap_unlink pos s)) pos"
    unfolding down_ok_def heap_unlink_fields(1)
  proof (intro conjI allI impI)
    fix i assume i: "2 \<le> i \<and> i \<le> hp_count s - 1 \<and> i div 2 \<noteq> pos"
    then have "i \<noteq> hp_count s" "i div 2 \<noteq> hp_count s" by auto
    with i O [of i] gap show "?g (i div 2) \<le> ?g i" by (auto simp: nth)
  next
    fix i assume i: "2 \<le> pos \<and> i \<le> hp_count s - 1 \<and> i div 2 = pos"
    then have ne: "i \<noteq> hp_count s" "pos div 2 \<noteq> hp_count s" "pos div 2 \<noteq> pos" "i \<noteq> pos" by auto
    have "?f (pos div 2) \<le> ?f pos" using O [of pos] i pos by simp
    also have "\<dots> \<le> ?f i" using O [of i] i by auto
    finally show "?g (pos div 2) \<le> ?g i" using ne by (simp add: nth)
  qed
qed

lemma heap_unlink_entries:
  assumes "heap_wf s" "1 \<le> pos" "pos \<le> hp_count s"
  shows "heap_entries (heap_unlink pos s) = heap_entries s - {hp_list s ! pos}"
  using heap_unlink_index [OF assms] heap_entries_iff [OF assms(1)]
    heap_entries_iff [OF heap_unlink_wf [OF assms]] by auto

lemma HeapDelete_queued:
  assumes wf: "heap_wf s" and x: "x \<in> heap_entries s"
  shows "fst (HeapDelete hv x s) = 0" "heap_wf (snd (HeapDelete hv x s))"
    "heap_entries (snd (HeapDelete hv x s)) = heap_entries s - {x}"
    "hp_count (snd (HeapDelete hv x s)) = hp_count s - 1"
    "hp_max (snd (HeapDelete hv x s)) = hp_max s"
proof -
  have nz: "hp_index s x \<noteq> 0" using x by (simp add: heap_entries_iff [OF wf])
  note i = heap_wf_index [OF wf nz] and eq = HeapDelete_eq [OF wf nz, of hv]
  have pos: "1 \<le> hp_index s x" using nz by simp
  note sm = heap_remove_same [OF wf pos i(1), of hv]
  show "fst (HeapDelete hv x s) = 0" by (simp add: eq)
  show "heap_wf (snd (HeapDelete hv x s))" "hp_count (snd (HeapDelete hv x s)) = hp_count s - 1"
    "hp_max (snd (HeapDelete hv x s)) = hp_max s"
    using sm by (simp_all add: eq heap_same_def heap_unlink_fields)
  show "heap_entries (snd (HeapDelete hv x s)) = heap_entries s - {x}"
    using heap_same_entries [OF heap_unlink_wf [OF wf pos i(1)] sm]
      heap_unlink_entries [OF wf pos i(1)] i(2) by (simp add: eq)
qed

lemma HeapDelete_not_queued:
  assumes "heap_wf s" "x \<notin> heap_entries s"
  shows "HeapDelete hv x s = (if HeapEmpty s then - 1 else - 2, s)"
  using assms by (simp add: heap_entries_iff HeapDelete_def Let_def)

lemma HeapDelete_ord:
  assumes "heap_wf s" "heap_ord hv s" "x \<in> heap_entries s"
    and "hp_index s x = 1 \<or> hv (hp_list s ! (hp_index s x div 2)) \<le> hv (hp_list s ! hp_count s)"
  shows "heap_ord hv (snd (HeapDelete hv x s))"
proof -
  have nz: "hp_index s x \<noteq> 0" using assms(1,3) by (simp add: heap_entries_iff)
  then have pos: "1 \<le> hp_index s x" "hp_index s x \<le> hp_count s"
    using heap_wf_index(1) [OF assms(1) nz] by auto
  show ?thesis
    using heap_remove_ord [OF assms(1) pos assms(2,4)] by (simp add: HeapDelete_eq [OF assms(1) nz])
qed

lemma HeapTop_min:
  assumes wf: "heap_wf s" and ord: "heap_ord hv s" and x: "x \<in> heap_entries s"
  shows "hv (HeapTop s) \<le> hv x"
proof -
  have nz: "hp_index s x \<noteq> 0" using x by (simp add: heap_entries_iff [OF wf])
  note i = heap_wf_index [OF wf nz]
  have "hv (hp_list s ! 1) \<le> hv (hp_list s ! hp_index s x)"
    using tree_ord_root [OF ord [unfolded heap_ord_def], of "hp_index s x"] nz i(1) by simp
  with nz i show ?thesis by (simp add: HeapTop_def)
qed

lemma HeapTop_empty_iff:
  assumes wf: "heap_wf s"
  shows "HeapTop s = NULL \<longleftrightarrow> heap_entries s = {}" "hp_count s = 0 \<longleftrightarrow> heap_entries s = {}"
    "heap_entries s \<noteq> {} \<Longrightarrow> HeapTop s \<in> heap_entries s"
  using heap_wf_nth(1) [OF wf, of 1] heap_entriesI [of 1 s]
  by (auto simp: HeapTop_def heap_entries_def)

lemma heap_entries_finite: "finite (heap_entries s)"
  by (simp add: heap_entries_def)

lemma heap_entries_card:
  assumes wf: "heap_wf s"
  shows "card (heap_entries s) = hp_count s"
proof -
  have "inj_on (\<lambda>i. hp_list s ! i) {1..hp_count s}"
    using heap_wf_inj [OF wf] by (auto intro!: inj_onI)
  moreover have "heap_entries s = (\<lambda>i. hp_list s ! i) ` {1..hp_count s}"
    unfolding heap_entries_def by (simp only: set_map) (rule image_cong, auto)
  ultimately show ?thesis by (simp add: card_image)
qed

lemma NULL_not_entry: "heap_wf s \<Longrightarrow> NULL \<notin> heap_entries s"
  using heap_wf_index(3) heap_entries_iff by blast


text \<open>When the gap is below a larger entry, \<open>HeapDown\<close> stops at once and the order stays broken.\<close>

lemma heap_remove_ord_fails:
  assumes wf: "heap_wf s" and pos: "2 \<le> pos" "pos \<le> hp_count s" and ord: "heap_ord hv s"
    and gap: "hv (hp_list s ! hp_count s) < hv (hp_list s ! (pos div 2))"
  shows "\<not> heap_ord hv (heap_down_loop hv pos (heap_unlink pos s))"
proof -
  let ?f = "\<lambda>i. hv (hp_list s ! i)" and ?t = "heap_unlink pos s" and ?c = "hp_count s"
  have pos1: "1 \<le> pos" using pos by simp
  note nth = heap_unlink_nth [OF wf pos1 pos(2)]
  have O: "?f (i div 2) \<le> ?f i" if "2 \<le> i" "i \<le> ?c" for i
    using ord that by (simp add: heap_ord_def tree_ord_def)
  have ne: "pos \<noteq> ?c"
  proof
    assume "pos = ?c"
    with O [of pos] pos gap show False by simp
  qed
  have keep: "heap_down_loop hv pos ?t = ?t"
  proof (cases "pos * 2 \<le> hp_count ?t")
    case True
    let ?m = "min_son hv pos ?t"
    note m = min_son_bounds [OF pos1 True, of hv]
    have mc: "?m \<noteq> ?c" "?m \<noteq> pos" "?m \<le> ?c" using m by (auto simp: heap_unlink_fields)
    have "?f ?c < ?f (pos div 2)" by (rule gap)
    also have "\<dots> \<le> ?f pos" using O [of pos] pos by simp
    also have "\<dots> \<le> ?f ?m" using O [of ?m] m(1,3) mc(3) pos by simp
    finally have "\<not> hv (hp_list ?t ! pos) > hv (hp_list ?t ! ?m)"
      using ne mc by (simp add: nth)
    then show ?thesis by (simp add: heap_down_loop.simps [of hv pos ?t])
  next
    case False
    then show ?thesis by (simp add: heap_down_loop.simps [of hv pos ?t])
  qed
  have "pos div 2 \<noteq> ?c" "pos div 2 \<noteq> pos" using pos ne by auto
  then have "\<not> hv (hp_list ?t ! (pos div 2)) \<le> hv (hp_list ?t ! pos)"
    using ne gap by (simp add: nth)
  moreover have "2 \<le> pos \<and> pos \<le> hp_count ?t" using pos ne by (simp add: heap_unlink_fields)
  ultimately show ?thesis
    unfolding keep heap_ord_def tree_ord_def by blast
qed

lemma HeapPush_queued:
  assumes wf: "heap_wf s" and x: "x \<noteq> NULL" "x \<notin> heap_entries s" and room: "\<not> HeapFull s"
  shows "fst (HeapPush hv x s) = 0" "heap_wf (snd (HeapPush hv x s))"
    "heap_entries (snd (HeapPush hv x s)) = insert x (heap_entries s)"
    "hp_count (snd (HeapPush hv x s)) = hp_count s + 1" "hp_max (snd (HeapPush hv x s)) = hp_max s"
    "heap_ord hv s \<Longrightarrow> heap_ord hv (snd (HeapPush hv x s))"
proof -
  have nz: "hp_index s x = 0" and room': "hp_count s < hp_max s"
    using x(2) room by (simp_all add: heap_entries_iff [OF wf] HeapFull_def)
  note sm = HeapPush_same [OF wf x(1) nz room', of hv]
  show "fst (HeapPush hv x s) = 0" by (simp add: HeapPush_eq [OF room' nz])
  show "heap_wf (snd (HeapPush hv x s))" "hp_count (snd (HeapPush hv x s)) = hp_count s + 1"
    "hp_max (snd (HeapPush hv x s)) = hp_max s"
    using sm by (simp_all add: heap_same_def heap_append_fields)
  show "heap_entries (snd (HeapPush hv x s)) = insert x (heap_entries s)"
    using heap_same_entries [OF heap_append_wf [OF wf x(1) nz room'] sm]
      heap_entries_iff [OF heap_append_wf [OF wf x(1) nz room']] heap_entries_iff [OF wf]
    by (auto simp: heap_append_fields split: if_splits)
  show "heap_ord hv (snd (HeapPush hv x s))" if "heap_ord hv s"
    by (rule HeapPush_ord [OF wf x(1) nz room' that])
qed

lemma heap_push_all:
  assumes "heap_wf s" "heap_ord hv s" "distinct xs" "NULL \<notin> set xs" "set xs \<inter> heap_entries s = {}"
    "hp_count s + length xs \<le> hp_max s"
  shows "heap_wf (fold (\<lambda>p s. snd (HeapPush hv p s)) xs s) \<and>
    heap_ord hv (fold (\<lambda>p s. snd (HeapPush hv p s)) xs s) \<and>
    heap_entries (fold (\<lambda>p s. snd (HeapPush hv p s)) xs s) = heap_entries s \<union> set xs"
  using assms
proof (induction xs arbitrary: s)
  case (Cons x xs)
  then have "x \<noteq> NULL" "x \<notin> heap_entries s" "\<not> HeapFull s" by (auto simp: HeapFull_def)
  note q = HeapPush_queued [OF Cons.prems(1) this, of hv]
  have "heap_wf (snd (HeapPush hv x s))" "heap_ord hv (snd (HeapPush hv x s))"
    using q Cons.prems(2) by auto
  from Cons.IH [OF this] Cons.prems q show ?case by auto
qed simp

lemma HeapList_init_ord: "heap_ord hv (HeapList_init mx)"
  by (simp add: heap_ord_def tree_ord_def HeapList_init_def Let_def)

lemma HeapList_init_fields:
  "hp_count (HeapList_init mx) = 0" "hp_max (HeapList_init mx) = (if mx > 0 then nat mx else 100000)"
  by (simp_all add: HeapList_init_def Let_def)

lemma HeapList_init_entries: "heap_entries (HeapList_init mx) = {}"
  by (simp add: heap_entries_def HeapList_init_def Let_def)

section \<open>Properties\<close>

text \<open>
  A heap from the list of its entries. Every well-formed heap is of this form, so that a concrete
  one is checked by evaluation of its array.
\<close>

definition heap_of :: "ptr list \<Rightarrow> nat \<Rightarrow> heap_list" where
  "heap_of xs m = \<lparr>hp_list = NULL # xs @ replicate (m - length xs) NULL, hp_max = m, hp_count = length xs,
     hp_index = (\<lambda>p. if p \<in> set xs then Suc (length (takeWhile (\<lambda>y. y \<noteq> p) xs)) else 0)\<rparr>"

lemma heap_of_wf:
  assumes "distinct xs" "NULL \<notin> set xs" "length xs \<le> m"
  shows "heap_wf (heap_of xs m)"
proof -
  have idx: "length (takeWhile (\<lambda>y. y \<noteq> xs ! i) xs) = i" if "i < length xs" for i
  proof -
    have "takeWhile (\<lambda>y. y \<noteq> xs ! i) xs = take i xs"
      using that assms(1) by (intro takeWhile_eq_take_P_nth) (auto simp: nth_eq_iff_index_eq)
    with that show ?thesis by simp
  qed
  have nth: "hp_list (heap_of xs m) ! i = xs ! (i - 1)" if "1 \<le> i" "i \<le> length xs" for i
    using that by (cases i) (auto simp: heap_of_def nth_append)
  show ?thesis
    unfolding heap_wf_def
  proof (intro conjI allI impI)
    show "length (hp_list (heap_of xs m)) = hp_max (heap_of xs m) + 1"
      "hp_count (heap_of xs m) \<le> hp_max (heap_of xs m)" "hp_list (heap_of xs m) ! 0 = NULL"
      using assms(3) by (simp_all add: heap_of_def)
    fix i assume i: "1 \<le> i \<and> i \<le> hp_count (heap_of xs m)"
    then have i': "1 \<le> i" "i \<le> length xs" by (simp_all add: heap_of_def)
    then have mem: "xs ! (i - 1) \<in> set xs" by auto
    with assms(2) nth [OF i'] show "hp_list (heap_of xs m) ! i \<noteq> NULL" by metis
    show "hp_index (heap_of xs m) (hp_list (heap_of xs m) ! i) = i"
      using nth [OF i'] idx [of "i - 1"] mem i' by (auto simp: heap_of_def)
  next
    fix i assume "hp_count (heap_of xs m) < i \<and> i \<le> hp_max (heap_of xs m)"
    then show "hp_list (heap_of xs m) ! i = NULL"
      by (cases i) (auto simp: heap_of_def nth_append)
  next
    fix p assume p: "hp_index (heap_of xs m) p \<noteq> 0"
    then have mem: "p \<in> set xs" by (auto simp: heap_of_def split: if_splits)
    then obtain k where k: "k < length xs" "p = xs ! k" by (auto simp: in_set_conv_nth)
    have "hp_index (heap_of xs m) p = Suc k" using mem idx [OF k(1)] k(2) by (simp add: heap_of_def)
    with k nth [of "Suc k"] show "hp_index (heap_of xs m) p \<le> hp_count (heap_of xs m)"
      "hp_list (heap_of xs m) ! hp_index (heap_of xs m) p = p"
      by (simp_all add: heap_of_def)
  qed
qed

lemma heap_of_entries: "heap_entries (heap_of xs m) = set xs"
proof -
  have "map (\<lambda>i. hp_list (heap_of xs m) ! i) [1..<hp_count (heap_of xs m) + 1] = xs"
    by (rule nth_equalityI) (auto simp: heap_of_def nth_append simp del: upt_Suc)
  then show ?thesis by (simp only: heap_entries_def)
qed

lemma heap_wf_eqI:
  assumes s: "heap_wf s" and t: "heap_wf t"
    and eq: "hp_list s = hp_list t" "hp_count s = hp_count t" "hp_max s = hp_max t"
  shows "s = t"
proof -
  have "heap_entries s = heap_entries t" by (simp add: heap_entries_def eq)
  then have zero: "hp_index s p = 0 \<longleftrightarrow> hp_index t p = 0" for p
    using heap_entries_iff [OF s, of p] heap_entries_iff [OF t, of p] by metis
  have "hp_index s p = hp_index t p" for p
  proof (cases "hp_index s p = 0")
    case True
    then show ?thesis using zero [of p] by simp
  next
    case False
    note si = heap_wf_index(1,2) [OF s False]
    have "hp_index t (hp_list t ! hp_index s p) = hp_index s p"
      using heap_wf_nth(2) [OF t, of "hp_index s p"] False si(1) eq by simp
    then show ?thesis using si(2) eq(1) by simp
  qed
  then have "hp_index s = hp_index t" by (rule ext)
  with eq show ?thesis by (cases s, cases t) simp
qed

text \<open>The heap of the witnesses: 6 entries, in heap order.\<close>

definition example_keys :: "ptr \<Rightarrow> u64" where
  "example_keys p = (if p = 1 then 1 else if p = 2 then 10 else if p = 3 then 2
     else if p = 4 then 11 else if p = 5 then 12 else 3)"

definition example_heap :: heap_list where
  "example_heap = heap_of [1, 2, 3, 4, 5, 6] 7"

lemma tree_ord_code [code]: "tree_ord f n \<longleftrightarrow> (\<forall>i \<in> set [2..<n + 1]. f (i div 2) \<le> f i)"
  by (auto simp: tree_ord_def)

lemma example_heap_ok:
  "heap_wf example_heap \<and> heap_ord example_keys example_heap \<and> heap_entries example_heap = {1, 2, 3, 4, 5, 6}"
proof -
  have "heap_wf example_heap" unfolding example_heap_def by (rule heap_of_wf) simp_all
  moreover have "heap_ord example_keys example_heap" by code_simp
  ultimately show ?thesis by (simp add: example_heap_def heap_of_entries)
qed

text \<open>
  \<open>HeapPush\<close> refuses a full heap with -1 and an entry that is already queued with -2,
  both without a change; otherwise it returns 0, the heap stays well-formed, holds exactly the new
  entry more, and stays in heap order.
\<close>

theorem heap_push_correct:
  assumes "heap_wf s" "x \<noteq> NULL"
  shows "(HeapFull s \<longrightarrow> HeapPush hv x s = (- 1, s)) \<and>
    (\<not> HeapFull s \<and> x \<in> heap_entries s \<longrightarrow> HeapPush hv x s = (- 2, s)) \<and>
    (\<not> HeapFull s \<and> x \<notin> heap_entries s \<longrightarrow>
       (\<exists>t. HeapPush hv x s = (0, t) \<and> heap_wf t \<and> heap_entries t = insert x (heap_entries s) \<and>
            HeapSize t = HeapSize s + 1 \<and> (heap_ord hv s \<longrightarrow> heap_ord hv t)))"
  using HeapPush_queued [OF assms, of hv] heap_entries_iff [OF assms(1), of x]
  by (cases "HeapPush hv x s") (auto simp: HeapPush_def HeapSize_def)

theorem heap_push_correct_witness:
  "\<exists>t. HeapPush (\<lambda>p. 5) 7 example_heap = (0, t) \<and> heap_wf t \<and> heap_entries t = {1, 2, 3, 4, 5, 6, 7}"
proof -
  have "\<not> HeapFull example_heap" by code_simp
  with heap_push_correct [of example_heap 7 "\<lambda>p. 5"] example_heap_ok show ?thesis by auto
qed

text \<open>
  C5: \<open>HeapPop\<close> on a non-empty heap in heap order returns an entry with the least value of
  all queued entries, removes that entry and no other, and leaves a well-formed heap in order; on
  an empty heap it returns \<open>NULL\<close> and changes nothing.
\<close>

theorem heap_pop_min:
  assumes "heap_wf s" "heap_ord hv s"
  shows "(heap_entries s = {} \<longrightarrow> HeapPop hv s = (NULL, s)) \<and>
    (heap_entries s \<noteq> {} \<longrightarrow>
       (\<exists>p t. HeapPop hv s = (p, t) \<and> p \<in> heap_entries s \<and> (\<forall>q \<in> heap_entries s. hv p \<le> hv q) \<and>
              heap_wf t \<and> heap_ord hv t \<and> heap_entries t = heap_entries s - {p}))"
proof (intro conjI impI)
  assume "heap_entries s = {}"
  then show "HeapPop hv s = (NULL, s)"
    using HeapTop_empty_iff(2) [OF assms(1)] by (simp add: HeapPop_def HeapEmpty_def)
next
  let ?p = "HeapTop s"
  assume ne: "heap_entries s \<noteq> {}"
  then have c: "hp_count s \<noteq> 0" and top: "?p \<in> heap_entries s"
    using HeapTop_empty_iff [OF assms(1)] by auto
  have i: "hp_index s ?p = 1"
    using heap_wf_nth(2) [OF assms(1), of 1] c by (simp add: HeapTop_def)
  show "\<exists>p t. HeapPop hv s = (p, t) \<and> p \<in> heap_entries s \<and> (\<forall>q \<in> heap_entries s. hv p \<le> hv q) \<and>
      heap_wf t \<and> heap_ord hv t \<and> heap_entries t = heap_entries s - {p}"
    using HeapPop_HeapDelete [OF assms(1) c, of hv] top HeapTop_min [OF assms]
      HeapDelete_queued [OF assms(1) top, of hv] HeapDelete_ord [OF assms top] i by auto
qed

theorem heap_pop_min_witness:
  "\<exists>p t. HeapPop example_keys example_heap = (p, t) \<and> (\<forall>q \<in> {1, 2, 3, 4, 5, 6}. example_keys p \<le> example_keys q) \<and>
     heap_wf t \<and> heap_ord example_keys t"
  using heap_pop_min [of example_heap example_keys] example_heap_ok by auto

text \<open>
  \<open>HeapDelete\<close> of a queued entry returns 0 and removes that entry and no other, from any
  position and without assuming heap order; an entry that is not queued is refused with -1 (empty
  heap) or -2 and nothing changes. The heap stays well-formed: every queued entry still carries its
  own position.
\<close>

theorem heap_delete_correct:
  assumes "heap_wf s"
  shows "(x \<in> heap_entries s \<longrightarrow>
       (\<exists>t. HeapDelete hv x s = (0, t) \<and> heap_wf t \<and> heap_entries t = heap_entries s - {x} \<and>
            HeapSize t = HeapSize s - 1)) \<and>
    (x \<notin> heap_entries s \<longrightarrow> HeapDelete hv x s = (if HeapEmpty s then - 1 else - 2, s))"
  using HeapDelete_queued [OF assms, of x hv] HeapDelete_not_queued [OF assms, of x hv]
  by (cases "HeapDelete hv x s") (auto simp: HeapSize_def)

theorem heap_delete_correct_witness:
  "\<exists>t. HeapDelete example_keys 4 example_heap = (0, t) \<and> heap_wf t \<and> heap_entries t = {1, 2, 3, 5, 6}"
  using heap_delete_correct [of example_heap 4 example_keys] example_heap_ok by auto

text \<open>
  C19: after \<open>HeapDelete\<close> of a queued entry the heap is in order exactly when the entry was the
  root or the last entry of the array, which fills the gap, is not smaller than the gap's parent:
  the code only sifts down. In the other case the order is lost.
\<close>

theorem heap_delete_order:
  assumes "heap_wf s" "heap_ord hv s" "x \<in> heap_entries s"
  shows "heap_ord hv (snd (HeapDelete hv x s)) \<longleftrightarrow>
    (hp_index s x = 1 \<or> hv (hp_list s ! (hp_index s x div 2)) \<le> hv (hp_list s ! hp_count s))"
    (is "?L \<longleftrightarrow> ?R")
proof
  assume ?R
  then show ?L by (rule HeapDelete_ord [OF assms])
next
  have nz: "hp_index s x \<noteq> 0" using assms(1,3) by (simp add: heap_entries_iff)
  assume ?L
  then show ?R
    using heap_remove_ord_fails [OF assms(1) _ heap_wf_index(1) [OF assms(1) nz] assms(2)] nz
    by (force simp: HeapDelete_eq [OF assms(1) nz])
qed

theorem heap_delete_order_witness:
  "\<not> heap_ord example_keys (snd (HeapDelete example_keys 4 example_heap))"
proof -
  have "\<not> (hp_index example_heap 4 = 1 \<or>
    example_keys (hp_list example_heap ! (hp_index example_heap 4 div 2))
      \<le> example_keys (hp_list example_heap ! hp_count example_heap))"
    by code_simp
  with heap_delete_order [of example_heap example_keys 4] example_heap_ok show ?thesis by blast
qed

end
