(* ===== verification/Min_Queue.thy ===== *)
theory Min_Queue
  imports Prelude
begin

text \<open>
  What the users of the heap rely on. The timer manager and the sleep queue of the scheduler both
  drain the entries that are due with the same loop; what it does is proved once, here. A
  \<open>top_queue\<close> promises that its top is some entry: this is what a heap with the right shape gives,
  also after an entry was taken out of its middle and the order of the keys is lost. A \<open>min_queue\<close>
  promises in addition that the top has the least deadline: this takes a heap in order.
\<close>

locale top_queue =
  fixes invar :: "'s \<Rightarrow> bool"
    and entries :: "'s \<Rightarrow> ptr set"
    and key :: "'s \<Rightarrow> ptr \<Rightarrow> u64"
    and top :: "'s \<Rightarrow> ptr"
    and remove :: "ptr \<Rightarrow> 's \<Rightarrow> 's"
  assumes entries_finite: "finite (entries s)"
    and top_empty: "invar s \<Longrightarrow> entries s = {} \<Longrightarrow> top s = NULL"
    and top_entry: "invar s \<Longrightarrow> entries s \<noteq> {} \<Longrightarrow> top s \<noteq> NULL \<and> top s \<in> entries s"
    and remove_top: "invar s \<Longrightarrow> entries s \<noteq> {} \<Longrightarrow>
      invar (remove (top s) s) \<and> entries (remove (top s) s) = entries s - {top s}"
    and remove_key: "key (remove p s) = key s"
begin

definition due :: "u64 \<Rightarrow> 's \<Rightarrow> ptr set" where
  "due now s = {q \<in> entries s. key s q \<le> now}"

text \<open>What the loop does with an entry after its removal must leave the due entries alone.\<close>

definition quiet :: "u64 \<Rightarrow> (ptr \<Rightarrow> 's \<Rightarrow> 's) \<Rightarrow> bool" where
  "quiet now act \<longleftrightarrow> (\<forall>p s. invar s \<and> p \<noteq> NULL \<and> p \<notin> entries s \<longrightarrow>
     invar (act p s) \<and> due now (act p s) = due now s \<and> (\<forall>q \<in> due now s. key (act p s) q = key s q))"

lemma due_finite: "finite (due now s)"
  unfolding due_def by (rule finite_subset [OF _ entries_finite [of s]]) auto

text \<open>One turn of the loop.\<close>

lemma due_turn:
  assumes inv: "invar s" and top: "top s \<noteq> NULL" "key s (top s) \<le> now" and quiet: "quiet now act"
  shows "top s \<in> due now s" "invar (act (top s) (remove (top s) s))"
    "due now (act (top s) (remove (top s) s)) = due now s - {top s}"
    "\<And>q. q \<in> due now s - {top s} \<Longrightarrow> key (act (top s) (remove (top s) s)) q = key s q"
    "card (due now (act (top s) (remove (top s) s))) < card (due now s)"
proof -
  let ?p = "top s" and ?r = "remove (top s) s"
  have ne: "entries s \<noteq> {}" using top_empty [OF inv] top(1) by metis
  note rem = remove_top [OF inv ne]
  show p: "?p \<in> due now s" using top_entry [OF inv ne] top(2) by (simp add: due_def)
  have d: "due now ?r = due now s - {?p}" using rem by (auto simp: due_def remove_key)
  have "invar ?r \<and> ?p \<noteq> NULL \<and> ?p \<notin> entries ?r" using rem top(1) by auto
  then have a: "invar (act ?p ?r)" "due now (act ?p ?r) = due now ?r" "\<forall>q \<in> due now ?r. key (act ?p ?r) q = key ?r q"
    using quiet unfolding quiet_def by blast+
  show "invar (act ?p ?r)" by (rule a(1))
  show e: "due now (act ?p ?r) = due now s - {?p}" using a(2) d by simp
  show "key (act ?p ?r) q = key s q" if "q \<in> due now s - {?p}" for q
    using a(3) d that by (simp add: remove_key)
  show "card (due now (act ?p ?r)) < card (due now s)"
    unfolding e by (rule card_Diff1_less [OF due_finite p])
qed

text \<open>
  The drain loop, given by its equation: with a quiet action it ends; it hands out due entries only,
  each once; it stops when the top is not due.
\<close>

lemma drain_sound:
  fixes run :: "'s \<Rightarrow> (ptr list \<times> 's) option"
  assumes run: "\<And>s. invar s \<Longrightarrow> run s = (if top s \<noteq> NULL \<and> key s (top s) \<le> now
       then Option.bind (run (act (top s) (remove (top s) s))) (\<lambda>(f, t). Some (top s # f, t))
       else Some ([], s))"
    and quiet: "quiet now act"
  shows "invar s \<Longrightarrow> \<exists>fired t. run s = Some (fired, t) \<and> set fired \<subseteq> due now s \<and> distinct fired \<and>
      invar t \<and> due now t = due now s - set fired \<and> (top t = NULL \<or> now < key t (top t))"
proof (induction "card (due now s)" arbitrary: s rule: less_induct)
  case less
  show ?case
  proof (cases "top s \<noteq> NULL \<and> key s (top s) \<le> now")
    case False
    with run [OF less.prems] less.prems show ?thesis by auto
  next
    case True
    let ?a = "act (top s) (remove (top s) s)"
    note t = due_turn [OF less.prems conjunct1 [OF True] conjunct2 [OF True] quiet]
    from less.hyps [OF t(5,2)] obtain fired t where
      ft: "run ?a = Some (fired, t)" "set fired \<subseteq> due now s - {top s}" "distinct fired" "invar t"
        "due now t = due now s - {top s} - set fired" "top t = NULL \<or> now < key t (top t)"
      unfolding t(3) by blast
    moreover have "run s = Some (top s # fired, t)" using run [OF less.prems] ft(1) True by simp
    ultimately show ?thesis using t(1) by (intro exI [of _ "top s # fired"] exI [of _ t]) auto
  qed
qed

text \<open>
  When the action only records the entry, the loop's trace is the record and the entries handed out
  are gone from the queue.
\<close>

lemma drain_trace:
  fixes run :: "'s \<Rightarrow> (ptr list \<times> 's) option" and log :: "'s \<Rightarrow> ptr list"
  assumes run: "\<And>s. invar s \<Longrightarrow> run s = (if top s \<noteq> NULL \<and> key s (top s) \<le> now
       then Option.bind (run (act (top s) (remove (top s) s))) (\<lambda>(f, t). Some (top s # f, t))
       else Some ([], s))"
    and quiet: "quiet now act"
    and log: "\<And>p s. log (act p (remove p s)) = log s @ [p]" and ent: "\<And>p s. entries (act p s) = entries s"
    and key: "\<And>p s. key (act p s) = key s"
  shows "invar s \<Longrightarrow> run s = Some (fired, t) \<Longrightarrow>
    log t = log s @ fired \<and> entries t = entries s - set fired \<and> key t = key s"
proof (induction "card (due now s)" arbitrary: s fired rule: less_induct)
  case less
  show ?case
  proof (cases "top s \<noteq> NULL \<and> key s (top s) \<le> now")
    case False
    with run [OF less.prems(1)] less.prems(2) show ?thesis by auto
  next
    case True
    let ?a = "act (top s) (remove (top s) s)"
    note t = due_turn [OF less.prems(1) conjunct1 [OF True] conjunct2 [OF True] quiet]
    from run [OF less.prems(1)] less.prems(2) True obtain f where
      f: "run ?a = Some (f, t)" "fired = top s # f" by (auto split: bind_splits)
    have "entries s \<noteq> {}" using t(1) by (auto simp: due_def)
    then have "entries ?a = entries s - {top s}" using ent remove_top [OF less.prems(1)] by simp
    with less.hyps [OF t(5,2) f(1)] f(2) log show ?thesis by (auto simp: key remove_key)
  qed
qed

end

locale min_queue = top_queue invar entries key top remove
  for invar :: "'s \<Rightarrow> bool" and entries and key and top and remove +
  assumes top_least: "invar s \<Longrightarrow> q \<in> entries s \<Longrightarrow> key s (top s) \<le> key s q"
begin

lemma due_iff_top:
  assumes "invar s"
  shows "top s \<noteq> NULL \<and> key s (top s) \<le> now \<longleftrightarrow> due now s \<noteq> {}"
proof
  assume t: "top s \<noteq> NULL \<and> key s (top s) \<le> now"
  then have "entries s \<noteq> {}" using top_empty [OF assms] by metis
  with t show "due now s \<noteq> {}" using top_entry [OF assms] by (auto simp: due_def)
next
  assume "due now s \<noteq> {}"
  then obtain q where "q \<in> entries s" "key s q \<le> now" by (auto simp: due_def)
  then show "top s \<noteq> NULL \<and> key s (top s) \<le> now"
    using top_entry [OF assms] order_trans [OF top_least [OF assms], of q now] by blast
qed

text \<open>
  With the least deadline on top the loop hands out exactly the due entries, by increasing deadline,
  and leaves none.
\<close>

lemma drain_correct:
  fixes run :: "'s \<Rightarrow> (ptr list \<times> 's) option"
  assumes run: "\<And>s. invar s \<Longrightarrow> run s = (if top s \<noteq> NULL \<and> key s (top s) \<le> now
       then Option.bind (run (act (top s) (remove (top s) s))) (\<lambda>(f, t). Some (top s # f, t))
       else Some ([], s))"
    and quiet: "quiet now act"
  shows "invar s \<Longrightarrow> \<exists>fired t. run s = Some (fired, t) \<and> set fired = due now s \<and> distinct fired \<and>
      sorted (map (key s) fired) \<and> invar t \<and> due now t = {}"
proof (induction "card (due now s)" arbitrary: s rule: less_induct)
  case less
  show ?case
  proof (cases "top s \<noteq> NULL \<and> key s (top s) \<le> now")
    case False
    with due_iff_top [OF less.prems, of now] run [OF less.prems] less.prems show ?thesis by auto
  next
    case True
    let ?a = "act (top s) (remove (top s) s)"
    note t = due_turn [OF less.prems conjunct1 [OF True] conjunct2 [OF True] quiet]
    from less.hyps [OF t(5,2)] obtain fired t where
      ft: "run ?a = Some (fired, t)" "set fired = due now s - {top s}" "distinct fired"
        "sorted (map (key ?a) fired)" "invar t" "due now t = {}"
      unfolding t(3) by blast
    have "map (key ?a) fired = map (key s) fired" using ft(2) t(4) by (intro map_cong) auto
    with ft(4) have "sorted (map (key s) fired)" by metis
    moreover have "\<forall>q \<in> set fired. key s (top s) \<le> key s q"
      using top_least [OF less.prems] ft(2) by (auto simp: due_def)
    ultimately have "sorted (map (key s) (top s # fired))" by simp
    moreover have "run s = Some (top s # fired, t)" using run [OF less.prems] ft(1) True by simp
    ultimately show ?thesis
      using t(1) ft(2,3,5,6) by (intro exI [of _ "top s # fired"] exI [of _ t]) auto
  qed
qed

end

end
