(* ===== verification/Heap_Timer.thy ===== *)
theory Heap_Timer
  imports Heap_List Min_Queue
begin

text \<open>
  The timer manager of \<open>sync_frame/micro_thread/heap_timer.cpp\<close>: timers ordered by their
  absolute expiry time in a \<open>HeapList\<close>. \<open>MtFrame::Instance()->GetLastClock()\<close> is the
  argument \<open>now\<close>; the virtual method \<open>timer_notify\<close> is the argument \<open>notify\<close>.
\<close>

record timer_mng =
  tm_heap :: heap_list
  tm_expired :: "ptr \<Rightarrow> u64"

definition CTimerMng_init :: "u32 \<Rightarrow> timer_mng" where
  "CTimerMng_init max_item =
     (let m = (if max_item < 100000 then 100000 else max_item)
      in \<lparr>tm_heap = HeapList_init (sint m), tm_expired = (\<lambda>_. 0)\<rparr>)"

definition start_timer :: "u64 \<Rightarrow> ptr \<Rightarrow> u32 \<Rightarrow> timer_mng \<Rightarrow> bool \<times> timer_mng" where
  "start_timer now timerable interval t =
     (if timerable = NULL then (False, t)
      else (let t1 = t\<lparr>tm_expired := (tm_expired t)(timerable := now + ucast interval)\<rparr>;
                (ret, h) = HeapPush (tm_expired t1) timerable (tm_heap t1)
            in (\<not> ret < 0, t1\<lparr>tm_heap := h\<rparr>)))"

definition stop_timer :: "ptr \<Rightarrow> timer_mng \<Rightarrow> timer_mng" where
  "stop_timer timerable t =
     (if timerable = NULL then t
      else t\<lparr>tm_heap := snd (HeapDelete (tm_expired t) timerable (tm_heap t))\<rparr>)"

text \<open>
  The loop of \<open>check_expired\<close>; the result is the list of notified timers in order and the
  final state, \<^term>\<open>None\<close> if the loop never ends (a callback may re-arm its timer for now).
\<close>

partial_function (option) check_expired_loop ::
    "(ptr \<Rightarrow> timer_mng \<Rightarrow> timer_mng) \<Rightarrow> u64 \<Rightarrow> timer_mng \<Rightarrow> (ptr list \<times> timer_mng) option" where
  "check_expired_loop notify now t =
     (let timer = HeapTop (tm_heap t)
      in if timer \<noteq> NULL \<and> tm_expired t timer \<le> now
         then do {
           (fired, t') \<leftarrow> check_expired_loop notify now
              (notify timer (t\<lparr>tm_heap := snd (HeapDelete (tm_expired t) timer (tm_heap t))\<rparr>));
           Some (timer # fired, t')
         }
         else Some ([], t))"

definition check_expired ::
    "(ptr \<Rightarrow> timer_mng \<Rightarrow> timer_mng) \<Rightarrow> u64 \<Rightarrow> timer_mng \<Rightarrow> (ptr list \<times> timer_mng) option" where
  "check_expired notify now t = check_expired_loop notify now t"

section \<open>Invariant and interface\<close>

definition timer_inv :: "timer_mng \<Rightarrow> bool" where
  "timer_inv t \<longleftrightarrow> heap_wf (tm_heap t) \<and> heap_ord (tm_expired t) (tm_heap t)"

abbreviation armed :: "timer_mng \<Rightarrow> ptr set" where
  "armed t \<equiv> heap_entries (tm_heap t)"

definition timers_due :: "u64 \<Rightarrow> timer_mng \<Rightarrow> ptr set" where
  "timers_due now t = {q \<in> armed t. tm_expired t q \<le> now}"

definition timer_remove :: "ptr \<Rightarrow> timer_mng \<Rightarrow> timer_mng" where
  "timer_remove p t = t\<lparr>tm_heap := snd (HeapDelete (tm_expired t) p (tm_heap t))\<rparr>"

lemma HeapTop_index:
  assumes "heap_wf s" "heap_entries s \<noteq> {}"
  shows "hp_index s (HeapTop s) = 1"
  using heap_wf_nth(2) [OF assms(1), of 1] HeapTop_empty_iff(2) [OF assms(1)] assms(2)
  by (simp add: HeapTop_def)

text \<open>Without the order of the keys: after any of the operations.\<close>

interpretation timer_pool: top_queue "\<lambda>t. heap_wf (tm_heap t)" armed tm_expired "\<lambda>t. HeapTop (tm_heap t)" timer_remove
proof (unfold_locales, goal_cases)
  case (1 s) show ?case by (rule heap_entries_finite)
next
  case (2 s) then show ?case by (simp add: HeapTop_empty_iff(1))
next
  case (3 s) then show ?case by (simp add: HeapTop_empty_iff(1,3))
next
  case (4 s)
  with HeapDelete_queued [OF 4(1) HeapTop_empty_iff(3) [OF 4]] show ?case by (simp add: timer_remove_def)
next
  case (5 p s) show ?case by (simp add: timer_remove_def)
qed

text \<open>With it.\<close>

interpretation timer_queue: min_queue timer_inv armed tm_expired "\<lambda>t. HeapTop (tm_heap t)" timer_remove
proof (unfold_locales, goal_cases)
  case (1 s) show ?case by (rule heap_entries_finite)
next
  case (2 s) then show ?case by (simp add: timer_inv_def HeapTop_empty_iff(1))
next
  case (3 s) then show ?case by (simp add: timer_inv_def HeapTop_empty_iff(1,3))
next
  case (4 s)
  then have wf: "heap_wf (tm_heap s)" and ord: "heap_ord (tm_expired s) (tm_heap s)"
    by (simp_all add: timer_inv_def)
  note top = HeapTop_empty_iff(3) [OF wf 4(2)]
  show ?case
    using HeapDelete_queued [OF wf top] HeapDelete_ord [OF wf ord top] HeapTop_index [OF wf 4(2)]
    by (simp add: timer_inv_def timer_remove_def)
next
  case (5 p s) show ?case by (simp add: timer_remove_def)
next
  case (6 s q) then show ?case by (simp add: timer_inv_def HeapTop_min)
qed

lemma timer_queue_due: "timer_queue.due = timers_due"
  by (simp add: fun_eq_iff timer_queue.due_def timers_due_def)

text \<open>The order of the heap depends on the keys of the queued entries only.\<close>

lemma heap_ord_cong:
  assumes "\<And>p. p \<in> heap_entries s \<Longrightarrow> f p = g p"
  shows "heap_ord f s = heap_ord g s"
proof -
  have "f (hp_list s ! i) = g (hp_list s ! i)" if "1 \<le> i" "i \<le> hp_count s" for i
    using assms heap_entriesI [OF that] by blast
  then show ?thesis unfolding heap_ord_def tree_ord_def by (auto simp: Suc_le_eq)
qed

lemma start_timer_wf:
  assumes wf: "heap_wf (tm_heap t)" and p: "p \<notin> armed t"
  shows "heap_wf (tm_heap (snd (start_timer now p i t)))"
    "armed (snd (start_timer now p i t)) =
       (if p = NULL \<or> HeapFull (tm_heap t) then armed t else insert p (armed t))"
    "fst (start_timer now p i t) \<longleftrightarrow> p \<noteq> NULL \<and> \<not> HeapFull (tm_heap t)"
    "tm_expired (snd (start_timer now p i t)) =
       (if p = NULL then tm_expired t else (tm_expired t)(p := now + ucast i))"
    "hp_max (tm_heap (snd (start_timer now p i t))) = hp_max (tm_heap t)"
    "timer_inv t \<Longrightarrow> timer_inv (snd (start_timer now p i t))"
proof -
  let ?e = "(tm_expired t)(p := now + ucast i)" and ?h = "tm_heap t"
  have cong: "heap_ord ?e ?h = heap_ord (tm_expired t) ?h"
    by (rule heap_ord_cong) (use p in auto)
  have "heap_wf (tm_heap (snd (start_timer now p i t))) \<and>
    armed (snd (start_timer now p i t)) =
       (if p = NULL \<or> HeapFull ?h then armed t else insert p (armed t)) \<and>
    (fst (start_timer now p i t) \<longleftrightarrow> p \<noteq> NULL \<and> \<not> HeapFull ?h) \<and>
    hp_max (tm_heap (snd (start_timer now p i t))) = hp_max ?h \<and>
    (timer_inv t \<longrightarrow> timer_inv (snd (start_timer now p i t)))"
  proof (cases "p = NULL \<or> HeapFull ?h")
    case True
    then have "HeapPush ?e p ?h = (- 1, ?h) \<or> p = NULL" by (auto simp: HeapPush_def)
    with True wf cong show ?thesis by (auto simp: start_timer_def timer_inv_def)
  next
    case False
    note push = HeapPush_queued [OF wf _ p, of ?e]
    obtain h where h: "HeapPush ?e p ?h = (0, h)"
      using push(1) False by (cases "HeapPush ?e p ?h") simp
    with False push cong show ?thesis by (simp add: start_timer_def timer_inv_def)
  qed
  then show "heap_wf (tm_heap (snd (start_timer now p i t)))"
    "armed (snd (start_timer now p i t)) =
       (if p = NULL \<or> HeapFull (tm_heap t) then armed t else insert p (armed t))"
    "fst (start_timer now p i t) \<longleftrightarrow> p \<noteq> NULL \<and> \<not> HeapFull (tm_heap t)"
    "hp_max (tm_heap (snd (start_timer now p i t))) = hp_max (tm_heap t)"
    "timer_inv t \<Longrightarrow> timer_inv (snd (start_timer now p i t))" by blast+
  show "tm_expired (snd (start_timer now p i t)) =
       (if p = NULL then tm_expired t else (tm_expired t)(p := now + ucast i))"
    by (auto simp: start_timer_def split: prod.splits)
qed

text \<open>A timer that is already armed gets a new expiry time, but the heap is left as it is.\<close>

lemma start_timer_armed:
  assumes "heap_wf (tm_heap t)" "p \<in> armed t"
  shows "tm_heap (snd (start_timer now p i t)) = tm_heap t"
  using assms heap_entries_iff [OF assms(1), of p] by (auto simp: start_timer_def HeapPush_def Let_def)

lemma stop_timer_wf:
  assumes "heap_wf (tm_heap t)"
  shows "heap_wf (tm_heap (stop_timer p t))" "armed (stop_timer p t) = armed t - {p}"
    "tm_expired (stop_timer p t) = tm_expired t"
proof -
  note del = HeapDelete_queued [OF assms, of p "tm_expired t"]
    and nodel = HeapDelete_not_queued [OF assms, of p "tm_expired t"]
  have null: "NULL \<notin> armed t" by (rule NULL_not_entry [OF assms])
  show "heap_wf (tm_heap (stop_timer p t))"
    using assms del nodel by (cases "p \<in> armed t") (auto simp: stop_timer_def)
  show "armed (stop_timer p t) = armed t - {p}"
    using del nodel null by (cases "p \<in> armed t") (auto simp: stop_timer_def)
  show "tm_expired (stop_timer p t) = tm_expired t" by (simp add: stop_timer_def)
qed

lemma CTimerMng_init_inv: "timer_inv (CTimerMng_init n)" "armed (CTimerMng_init n) = {}"
  by (simp_all add: CTimerMng_init_def Let_def timer_inv_def HeapList_init_wf HeapList_init_ord
      HeapList_init_entries)

section \<open>Reachable states\<close>

text \<open>What \<open>timer_notify\<close> may do while \<open>check_expired\<close> runs: anything that leaves the due timers alone.\<close>

definition notify_quiet :: "u64 \<Rightarrow> (ptr \<Rightarrow> timer_mng \<Rightarrow> timer_mng) \<Rightarrow> bool" where
  "notify_quiet now notify \<longleftrightarrow>
     (\<forall>p t. heap_wf (tm_heap t) \<and> p \<noteq> NULL \<and> p \<notin> armed t \<longrightarrow>
        heap_wf (tm_heap (notify p t)) \<and> (timer_inv t \<longrightarrow> timer_inv (notify p t)) \<and>
        timers_due now (notify p t) = timers_due now t \<and>
        (\<forall>q \<in> timers_due now t. tm_expired (notify p t) q = tm_expired t q))"

text \<open>A periodic timer: its callback starts it again.\<close>

lemma periodic_notify_quiet:
  assumes "now < now + ucast i"
  shows "notify_quiet now (\<lambda>p t. snd (start_timer now p i t))"
  unfolding notify_quiet_def
proof (intro allI impI)
  fix p t assume h: "heap_wf (tm_heap t) \<and> p \<noteq> NULL \<and> p \<notin> armed t"
  note st = start_timer_wf [of t p now i]
  have "timers_due now (snd (start_timer now p i t)) = timers_due now t"
    using h st assms by (auto simp: timers_due_def split: if_splits)
  moreover have "tm_expired (snd (start_timer now p i t)) q = tm_expired t q"
    if "q \<in> timers_due now t" for q
    using h st that by (auto simp: timers_due_def)
  ultimately show "heap_wf (tm_heap (snd (start_timer now p i t))) \<and>
      (timer_inv t \<longrightarrow> timer_inv (snd (start_timer now p i t))) \<and>
      timers_due now (snd (start_timer now p i t)) = timers_due now t \<and>
      (\<forall>q \<in> timers_due now t. tm_expired (snd (start_timer now p i t)) q = tm_expired t q)"
    using h st by blast
qed

lemma check_expired_loop_eq:
  "check_expired_loop notify now s =
    (if HeapTop (tm_heap s) \<noteq> NULL \<and> tm_expired s (HeapTop (tm_heap s)) \<le> now
     then Option.bind (check_expired_loop notify now
            (notify (HeapTop (tm_heap s)) (timer_remove (HeapTop (tm_heap s)) s)))
            (\<lambda>(f, u). Some (HeapTop (tm_heap s) # f, u))
     else Some ([], s))"
  by (subst check_expired_loop.simps) (simp add: timer_remove_def Let_def)

text \<open>The loop on any well-formed heap, and on one in order.\<close>

lemma check_expired_sound:
  assumes "heap_wf (tm_heap t)" "notify_quiet now notify"
  obtains fired t' where "check_expired notify now t = Some (fired, t')" "set fired \<subseteq> timers_due now t"
    "distinct fired" "heap_wf (tm_heap t')" "timers_due now t' = timers_due now t - set fired"
proof -
  have "timer_pool.quiet now notify"
    using assms(2) unfolding notify_quiet_def timer_pool.quiet_def timer_queue_due by blast
  from timer_pool.drain_sound [of "check_expired_loop notify now" now notify, OF check_expired_loop_eq this assms(1)]
  show thesis using that by (auto simp: timer_queue_due check_expired_def)
qed

lemma check_expired_exact:
  assumes "timer_inv t" "notify_quiet now notify"
  obtains fired t' where "check_expired notify now t = Some (fired, t')" "set fired = timers_due now t"
    "sorted (map (tm_expired t) fired)" "timer_inv t'"
proof -
  have "timer_queue.quiet now notify"
    using assms(2) unfolding notify_quiet_def timer_queue.quiet_def timer_queue_due timer_inv_def by blast
  from timer_queue.drain_correct [of "check_expired_loop notify now" now notify, OF check_expired_loop_eq this assms(1)]
  show thesis using that by (auto simp: timer_queue_due check_expired_def)
qed

text \<open>
  The states of a manager, from its construction by any calls of its operations. The flag says that
  an armed timer was stopped or started again: both leave the heap without its order.
\<close>

inductive timer_reach :: "bool \<Rightarrow> timer_mng \<Rightarrow> bool" where
  init: "timer_reach False (CTimerMng_init n)"
| start: "timer_reach (dis \<or> p \<in> armed t) (snd (start_timer now p i t))" if "timer_reach dis t"
| stop: "timer_reach (dis \<or> p \<in> armed t) (stop_timer p t)" if "timer_reach dis t"
| check: "timer_reach dis t'"
  if "timer_reach dis t" "notify_quiet now notify" "check_expired notify now t = Some (fired, t')"

lemma timer_reach_inv: "timer_reach dis t \<Longrightarrow> heap_wf (tm_heap t) \<and> (\<not> dis \<longrightarrow> timer_inv t)"
proof (induction rule: timer_reach.induct)
  case (init n)
  show ?case using CTimerMng_init_inv(1) [of n] by (simp add: timer_inv_def)
next
  case (start dis t p now i)
  then show ?case using start_timer_wf [of t p now i] start_timer_armed [of t p now i] by metis
next
  case (stop dis t p)
  have "stop_timer p t = t" if "p \<notin> armed t"
    using HeapDelete_not_queued [of "tm_heap t" p "tm_expired t"] stop.IH that by (simp add: stop_timer_def)
  with stop.IH stop_timer_wf(1) [of t p] show ?case by auto
next
  case (check dis t now notify fired t')
  have "heap_wf (tm_heap t')"
    using check_expired_sound [OF _ check.hyps(2), of t] check.IH check.hyps(3) by (metis option.inject prod.inject)
  moreover have "timer_inv t'" if "\<not> dis"
    using check_expired_exact [OF _ check.hyps(2), of t] check.IH check.hyps(3) that by (metis option.inject prod.inject)
  ultimately show ?case by blast
qed

section \<open>Properties\<close>

text \<open>
  C3: in every state that the manager reaches from its construction by \<open>start_timer\<close>, \<open>stop_timer\<close>
  and \<open>check_expired\<close>, with callbacks that leave the due timers alone (for instance ones that
  re-arm their own timer for later), \<open>check_expired\<close> ends; it notifies only timers whose expiry
  time is not after the current clock, each once, and those it does not notify stay armed. As long as
  no armed timer was stopped or started again, the heap is in order and it notifies all the timers
  that are due, by increasing expiry time.
\<close>

theorem check_expired_correct:
  assumes "timer_reach disturbed t" "notify_quiet now notify"
  shows "\<exists>fired t'. check_expired notify now t = Some (fired, t') \<and> distinct fired \<and>
    set fired \<subseteq> timers_due now t \<and> timers_due now t' = timers_due now t - set fired \<and>
    (\<not> disturbed \<longrightarrow> set fired = timers_due now t \<and> sorted (map (tm_expired t) fired))"
proof -
  have inv: "heap_wf (tm_heap t)" "\<not> disturbed \<longrightarrow> timer_inv t" using timer_reach_inv [OF assms(1)] by blast+
  obtain fired t' where s: "check_expired notify now t = Some (fired, t')" "set fired \<subseteq> timers_due now t"
    "distinct fired" "timers_due now t' = timers_due now t - set fired"
    by (rule check_expired_sound [OF inv(1) assms(2)])
  moreover have "set fired = timers_due now t \<and> sorted (map (tm_expired t) fired)" if "\<not> disturbed"
    using check_expired_exact [OF _ assms(2), of t] inv(2) s(1) that by (metis option.inject prod.inject)
  ultimately show ?thesis by blast
qed

text \<open>Two timers started at clock 100 on a new manager, for 5 and 50 milliseconds.\<close>

definition two_timers :: timer_mng where
  "two_timers = snd (start_timer 100 2 50 (snd (start_timer 100 1 5 (CTimerMng_init 0))))"

lemma two_timers_view:
  "timer_reach False two_timers" "armed two_timers = {1, 2}" "tm_expired two_timers 1 = 105" "tm_expired two_timers 2 = 150"
proof -
  let ?i = "CTimerMng_init 0"
  let ?a = "snd (start_timer 100 1 5 ?i)"
  note i = CTimerMng_init_inv [of 0]
  have wf: "heap_wf (tm_heap ?i)" using i(1) by (simp add: timer_inv_def)
  have mx: "hp_max (tm_heap ?i) = 100000" "\<not> HeapFull (tm_heap ?i)"
    using heap_entries_card [OF wf] i(2)
    by (simp_all add: CTimerMng_init_def Let_def HeapList_init_def HeapFull_def)
  note a = start_timer_wf [OF wf, of 1 100 5]
  have armed: "armed ?a = {1}" using a(2) i(2) mx(2) by simp
  have wfa: "heap_wf (tm_heap ?a)" using a(1) i(2) by simp
  have "\<not> HeapFull (tm_heap ?a)"
    using heap_entries_card [OF wfa] armed a(5) mx(1) i(2) by (simp add: HeapFull_def)
  note b = start_timer_wf [OF wfa, of 2 100 50] this
  show "armed two_timers = {1, 2}" using b(2,7) armed by (auto simp: two_timers_def)
  show "tm_expired two_timers 1 = 105" "tm_expired two_timers 2 = 150"
    using a(4) b(4) armed i(2) by (simp_all add: two_timers_def)
  have "timer_reach False ?a" using timer_reach.start [OF timer_reach.init, of 1 0 100 5] i(2) by simp
  from timer_reach.start [OF this, of 2 100 50] armed show "timer_reach False two_timers" by (simp add: two_timers_def)
qed

theorem check_expired_correct_witness:
  "\<exists>fired t'. check_expired (\<lambda>p t. snd (start_timer 110 p 10 t)) 110 two_timers = Some (fired, t') \<and>
     set fired = {1} \<and> timers_due 110 t' = {}"
proof -
  have q: "notify_quiet 110 (\<lambda>p t. snd (start_timer 110 p 10 t))"
    by (rule periodic_notify_quiet) simp
  have due: "timers_due 110 two_timers = {1}" by (auto simp: timers_due_def two_timers_view simp del: One_nat_def)
  from check_expired_correct [OF two_timers_view(1) q] show ?thesis unfolding due by auto
qed

text \<open>Three timers, the second due at the same time as the first.\<close>

definition example_timers :: timer_mng where
  "example_timers = \<lparr>tm_heap = heap_of [1, 2, 3] 7, tm_expired = (\<lambda>p. if p = 3 then 150 else 105)\<rparr>"

lemma example_timers_inv: "timer_inv example_timers \<and> armed example_timers = {1, 2, 3}"
proof -
  have "heap_wf (tm_heap example_timers)" by (simp add: example_timers_def heap_of_wf)
  moreover have "heap_ord (tm_expired example_timers) (tm_heap example_timers)" by code_simp
  ultimately show ?thesis by (simp add: timer_inv_def example_timers_def heap_of_entries)
qed

text \<open>
  \<open>start_timer\<close> on a timer that is not armed, with room in the heap, arms it with expiry
  \<open>now + interval\<close> and returns true; every other timer keeps its state and the invariant holds.
  With a \<open>NULL\<close> timer or a full heap it returns false and arms nothing.
\<close>

theorem start_timer_correct:
  assumes "timer_inv t" "p \<notin> armed t"
  shows "timer_inv (snd (start_timer now p i t)) \<and>
    fst (start_timer now p i t) = (p \<noteq> NULL \<and> \<not> HeapFull (tm_heap t)) \<and>
    armed (snd (start_timer now p i t)) =
      (if fst (start_timer now p i t) then insert p (armed t) else armed t) \<and>
    (p \<noteq> NULL \<longrightarrow> tm_expired (snd (start_timer now p i t)) p = now + ucast i) \<and>
    (\<forall>q. q \<noteq> p \<longrightarrow> tm_expired (snd (start_timer now p i t)) q = tm_expired t q)"
proof -
  have "heap_wf (tm_heap t)" using assms(1) by (simp add: timer_inv_def)
  from start_timer_wf [OF this assms(2), of now i] assms(1) show ?thesis by auto
qed

theorem start_timer_correct_witness:
  "timer_inv (snd (start_timer 100 4 7 example_timers)) \<and>
   armed (snd (start_timer 100 4 7 example_timers)) = {1, 2, 3, 4} \<and>
   tm_expired (snd (start_timer 100 4 7 example_timers)) 4 = 107"
proof -
  have "\<not> HeapFull (tm_heap example_timers)" by code_simp
  with start_timer_correct [of example_timers 4 100 7] example_timers_inv show ?thesis by auto
qed

text \<open>
  The heap of the next theorem: 12 timers in heap order. Stopping timer 8 puts timer 12, due at 4,
  below timers due at 20 and 10.
\<close>

definition late_keys :: "ptr \<Rightarrow> u64" where
  "late_keys p = (if p = 1 then 1 else if p = 2 then 10 else if p = 3 then 2 else
     if p = 4 then 20 else if p = 5 then 11 else if p = 6 then 3 else if p = 7 then 30 else
     if p = 8 then 21 else if p = 9 then 22 else if p = 10 then 12 else if p = 11 then 13 else 4)"

definition late_timers :: "ptr list \<Rightarrow> timer_mng" where
  "late_timers xs = \<lparr>tm_heap = heap_of xs 13, tm_expired = late_keys\<rparr>"

lemma heap_of_top: "HeapTop (heap_of (p # xs) m) = p"
  by (simp add: heap_of_def HeapTop_def)

lemma late_timers_remove:
  assumes "distinct xs" "NULL \<notin> set xs" "length xs \<le> 13" "p \<in> set xs"
    "distinct ys" "NULL \<notin> set ys" "length ys = length xs - 1"
    "hp_list (snd (HeapDelete late_keys p (heap_of xs 13))) = hp_list (heap_of ys 13)"
  shows "timer_remove p (late_timers xs) = late_timers ys"
proof -
  note wf = heap_of_wf [OF assms(1-3)]
  have p: "p \<in> heap_entries (heap_of xs 13)" using assms(4) by (simp add: heap_of_entries)
  have "snd (HeapDelete late_keys p (heap_of xs 13)) = heap_of ys 13"
    by (rule heap_wf_eqI [OF HeapDelete_queued(2) [OF wf p] heap_of_wf])
      (use assms HeapDelete_queued(4,5) [OF wf p, of late_keys] in \<open>auto simp: heap_of_def\<close>)
  then show ?thesis by (simp add: timer_remove_def late_timers_def)
qed

lemma late_timers_run:
  "timer_remove 8 (late_timers [1, 2, 3, 4, 5, 6, 7, 8, 9, 10, 11, 12]) =
     late_timers [1, 2, 3, 4, 5, 6, 7, 12, 9, 10, 11]"
  "timer_remove 1 (late_timers [1, 2, 3, 4, 5, 6, 7, 12, 9, 10, 11]) =
     late_timers [3, 2, 6, 4, 5, 11, 7, 12, 9, 10]"
  "timer_remove 3 (late_timers [3, 2, 6, 4, 5, 11, 7, 12, 9, 10]) =
     late_timers [6, 2, 10, 4, 5, 11, 7, 12, 9]"
  "timer_remove 6 (late_timers [6, 2, 10, 4, 5, 11, 7, 12, 9]) =
     late_timers [2, 5, 10, 4, 9, 11, 7, 12]"
  by (rule late_timers_remove; (code_simp | simp))+

text \<open>
  C22: \<open>stop_timer\<close> of one timer can make \<open>check_expired\<close> miss another. From 12 armed timers in
  heap order, one stopped, \<open>check_expired\<close> at clock 4 notifies the timers due at 1, 2 and 3 but
  not the one due at 4, which stays armed behind one due at 10.
\<close>

theorem stop_timer_can_delay_others:
  "\<exists>t. timer_inv t \<and>
     (\<exists>fired t'. check_expired (\<lambda>p u. u) 4 (stop_timer 8 t) = Some (fired, t') \<and>
        12 \<in> timers_due 4 t \<and> 12 \<notin> set fired \<and> 12 \<in> timers_due 4 t')"
proof -
  let ?t = "late_timers [1, 2, 3, 4, 5, 6, 7, 8, 9, 10, 11, 12]"
  let ?u = "late_timers [2, 5, 10, 4, 9, 11, 7, 12]"
  have "heap_ord late_keys (heap_of [1, 2, 3, 4, 5, 6, 7, 8, 9, 10, 11, 12] 13)" by code_simp
  then have "timer_inv ?t" by (simp add: timer_inv_def late_timers_def heap_of_wf)
  moreover have "stop_timer 8 ?t = timer_remove 8 ?t" by (simp add: stop_timer_def timer_remove_def)
  moreover have loop: "check_expired_loop (\<lambda>p u. u) 4 (late_timers (p # xs)) =
    (if p \<noteq> NULL \<and> late_keys p \<le> 4
     then Option.bind (check_expired_loop (\<lambda>p u. u) 4 (timer_remove p (late_timers (p # xs))))
       (\<lambda>(f, u). Some (p # f, u))
     else Some ([], late_timers (p # xs)))" for p xs
    by (subst check_expired_loop.simps)
      (simp add: late_timers_def timer_remove_def Let_def heap_of_top)
  have "check_expired (\<lambda>p u. u) 4 (timer_remove 8 ?t) = Some ([1, 3, 6], ?u)"
    by (simp add: check_expired_def late_timers_run loop late_keys_def del: One_nat_def)
  moreover have "12 \<in> timers_due 4 ?t" "12 \<in> timers_due 4 ?u"
    by (simp_all add: timers_due_def late_timers_def heap_of_entries late_keys_def)
  ultimately show ?thesis
    by (intro exI [of _ ?t] conjI exI [of _ "[1, 3, 6]"] exI [of _ ?u]) auto
qed

end
