(* ===== verification/Ring.thy ===== *)
theory Ring
  imports Prelude
begin

text \<open>
  A block of memory used as a ring. \<open>ring_put m t bs\<close> stores the bytes \<open>bs\<close> from position
  \<open>t\<close> on, \<open>ring_get m h n\<close> reads \<open>n\<close> bytes from position \<open>h\<close> on, both modulo the size
  of the block. The lemmas relate them to the one or two straight copies the queues make.
\<close>

fun ring_put :: "byte list \<Rightarrow> nat \<Rightarrow> byte list \<Rightarrow> byte list" where
  "ring_put m t [] = m"
| "ring_put m t (b # bs) = ring_put (m[t mod length m := b]) (t + 1) bs"

definition ring_get :: "byte list \<Rightarrow> nat \<Rightarrow> nat \<Rightarrow> byte list" where
  "ring_get m h n = map (\<lambda>i. m ! ((h + i) mod length m)) [0..<n]"

lemma length_ring_put [simp]: "length (ring_put m t bs) = length m"
  by (induction m t bs rule: ring_put.induct) auto

lemma length_ring_get [simp]: "length (ring_get m h n) = n"
  by (simp add: ring_get_def)

lemma ring_put_append: "ring_put m t (a @ b) = ring_put (ring_put m t a) (t + length a) b"
  by (induction m t a rule: ring_put.induct) auto

lemma ring_put_mod: "ring_put m (t + length m) bs = ring_put m t bs"
proof (induction bs arbitrary: m t)
  case (Cons b bs)
  have "ring_put (m[t mod length m := b]) (t + 1 + length (m[t mod length m := b])) bs =
      ring_put (m[t mod length m := b]) (t + 1) bs" by (rule Cons.IH)
  then show ?case by (simp add: add.assoc)
qed simp

lemma ring_get_nth [simp]: "i < n \<Longrightarrow> ring_get m h n ! i = m ! ((h + i) mod length m)"
  by (simp add: ring_get_def)

lemma ring_get_0 [simp]: "ring_get m h 0 = []"
  by (simp add: ring_get_def)

lemma ring_get_take: "k \<le> n \<Longrightarrow> take k (ring_get m h n) = ring_get m h k"
  by (rule nth_equalityI) auto

lemma ring_get_drop: "k \<le> n \<Longrightarrow> drop k (ring_get m h n) = ring_get m (h + k) (n - k)"
  by (rule nth_equalityI) (auto simp: add.assoc)

lemma ring_get_add: "ring_get m h (a + b) = ring_get m h a @ ring_get m (h + a) b"
  by (rule nth_equalityI) (auto simp: nth_append add.assoc)

lemma ring_get_mod: "ring_get m (h + length m) n = ring_get m h n"
  by (rule nth_equalityI) (auto simp: mod_add_right_eq add.commute add.left_commute,
      metis add.assoc add.commute mod_add_self2)

lemma ring_get_straight: "h + n \<le> length m \<Longrightarrow> ring_get m h n = take n (drop h m)"
  by (rule nth_equalityI) auto

text \<open>One straight copy into the block, and the two copies of a wrapped one.\<close>

lemma mem_wr_ring: "t + length bs \<le> length m \<Longrightarrow> mem_wr m t bs = Some (ring_put m t bs)"
proof (induction bs arbitrary: m t)
  case Nil
  then show ?case by (simp add: mem_wr_def)
next
  case (Cons b bs)
  then have "mem_wr (m[t := b]) (t + 1) bs = Some (ring_put (m[t := b]) (t + 1) bs)" by simp
  moreover have "take t m @ b # drop (Suc t) m = m[t := b]"
    using Cons.prems by (simp add: upd_conv_take_nth_drop)
  moreover have "take (Suc t) (m[t := b]) = take t m @ [b]"
    using Cons.prems by (simp add: take_Suc_conv_app_nth)
  ultimately show ?case using Cons.prems by (simp add: mem_wr_def)
qed

lemma mem_wr_ring_wrapped: "length bs \<le> length m \<Longrightarrow> mem_wr m 0 bs = Some (ring_put m (length m) bs)"
  using mem_wr_ring [of 0 bs m] ring_put_mod [of m 0 bs] by simp

lemma mem_rd_ring: "h + n \<le> length m \<Longrightarrow> mem_rd m h n = Some (ring_get m h n)"
  by (simp add: mem_rd_def ring_get_straight)

lemma mem_rd_ring_wrapped: "n \<le> length m \<Longrightarrow> mem_rd m 0 n = Some (ring_get m (length m) n)"
  using mem_rd_ring [of 0 n m] ring_get_mod [of m 0 n] by simp

text \<open>Reading back what was stored, and what other positions hold.\<close>

lemma mod_add_inj:
  fixes t i j n :: nat
  assumes "i < n" "j < n" "(t + i) mod n = (t + j) mod n"
  shows "i = j"
proof (rule ccontr)
  assume "i \<noteq> j"
  then consider "i < j" | "j < i" by linarith
  then show False
  proof cases
    case 1
    then have "n dvd j - i" using assms(3) mod_eq_dvd_iff_nat [of "t + i" "t + j" n] by simp
    with 1 assms show False by (meson dvd_imp_le less_imp_diff_less not_less zero_less_diff)
  next
    case 2
    then have "n dvd i - j" using assms(3) mod_eq_dvd_iff_nat [of "t + j" "t + i" n] by simp
    with 2 assms show False by (meson dvd_imp_le less_imp_diff_less not_less zero_less_diff)
  qed
qed

lemma ring_put_other:
  "length bs \<le> length m \<Longrightarrow> (\<forall>i < length bs. p \<noteq> (t + i) mod length m) \<Longrightarrow>
   ring_put m t bs ! p = m ! p"
proof (induction bs arbitrary: m t)
  case (Cons b bs)
  have "p \<noteq> (t + 1 + i) mod length m" if "i < length bs" for i
    using Cons.prems(2) [rule_format, of "i + 1"] that by (simp add: add.commute add.left_commute)
  then have "ring_put (m[t mod length m := b]) (t + 1) bs ! p = (m[t mod length m := b]) ! p"
    using Cons.prems(1) by (intro Cons.IH) auto
  moreover have "p \<noteq> t mod length m" using Cons.prems(2) [rule_format, of 0] by simp
  ultimately show ?case by simp
qed simp

lemma ring_put_nth:
  "length bs \<le> length m \<Longrightarrow> i < length bs \<Longrightarrow> ring_put m t bs ! ((t + i) mod length m) = bs ! i"
proof (induction bs arbitrary: m t i)
  case (Cons b bs)
  let ?m = "m[t mod length m := b]"
  show ?case
  proof (cases i)
    case 0
    have "t mod length m \<noteq> (t + 1 + j) mod length m" if "j < length bs" for j
    proof
      assume "t mod length m = (t + 1 + j) mod length m"
      then have "0 = j + 1"
        using that Cons.prems(1) by (intro mod_add_inj [of 0 "length m" "j + 1" t]) auto
      then show False by simp
    qed
    then have "ring_put ?m (t + 1) bs ! (t mod length m) = ?m ! (t mod length m)"
      using Cons.prems(1) by (intro ring_put_other) auto
    moreover have "t mod length m < length m" using Cons.prems(1) by (intro mod_less_divisor) auto
    ultimately show ?thesis by (simp add: 0)
  next
    case (Suc j)
    have "ring_put ?m (t + 1) bs ! ((t + 1 + j) mod length ?m) = bs ! j"
      using Cons.prems Suc by (intro Cons.IH) auto
    then show ?thesis by (simp add: Suc)
  qed
qed simp

lemma ring_get_put_same:
  "length bs \<le> length m \<Longrightarrow> ring_get (ring_put m t bs) t (length bs) = bs"
  by (rule nth_equalityI) (auto simp: ring_put_nth)

text \<open>
  Bytes stored right after a used region of \<open>u\<close> bytes leave that region alone as long as the
  two together fit into the ring.
\<close>

lemma ring_get_put_after:
  assumes "u + length bs \<le> length m" "t mod length m = (h + u) mod length m"
  shows "ring_get (ring_put m t bs) h u = ring_get m h u"
proof (rule nth_equalityI)
  fix i assume i: "i < length (ring_get (ring_put m t bs) h u)"
  have "(h + i) mod length m \<noteq> (t + j) mod length m" if j: "j < length bs" for j
  proof
    assume "(h + i) mod length m = (t + j) mod length m"
    also have "\<dots> = (h + u + j) mod length m" using assms(2) by (metis mod_add_left_eq)
    finally have "i = u + j"
      using i j assms(1) by (intro mod_add_inj [of i "length m" "u + j" h]) (auto simp: add.assoc)
    with i show False by simp
  qed
  then have "ring_put m t bs ! ((h + i) mod length m) = m ! ((h + i) mod length m)"
    using assms(1) by (intro ring_put_other) auto
  with i show "ring_get (ring_put m t bs) h u ! i = ring_get m h u ! i" by simp
qed simp

lemma ring_get_put_append:
  assumes "u + length bs \<le> length m" "t mod length m = (h + u) mod length m"
  shows "ring_get (ring_put m t bs) h (u + length bs) = ring_get m h u @ bs"
proof -
  have "ring_get (ring_put m t bs) (h + u) (length bs) = ring_get (ring_put m t bs) t (length bs)"
  proof (rule nth_equalityI)
    fix i assume "i < length (ring_get (ring_put m t bs) (h + u) (length bs))"
    then show "ring_get (ring_put m t bs) (h + u) (length bs) ! i = ring_get (ring_put m t bs) t (length bs) ! i"
      using assms(2) by simp (metis mod_add_left_eq)
  qed simp
  then show ?thesis
    using assms by (simp add: ring_get_add ring_get_put_after ring_get_put_same)
qed

end
