(* ===== verification/Shm_MQ.thy ===== *)
theory Shm_MQ
  imports Ring
begin

text \<open>
  The shared-memory message queue of \<open>comm/tbase/tshmcommu.cpp\<close>, over which the proxy and the
  worker processes exchange packets: a byte ring between the cursors \<open>head_\<close> and \<open>tail_\<close>, each
  record framed by the magic word \<open>SPPX\<close>. Every copy into or out of the ring and the caller's
  buffers is bounds-checked, a copy out of bounds being \<^term>\<open>None\<close>.
\<close>

section \<open>State and operations\<close>

definition C_HEAD_SIZE :: nat where "C_HEAD_SIZE = 8"
definition C_SAFE_AREA_LEN :: nat where "C_SAFE_AREA_LEN = 4"
definition C_SAFE_AREA_VAL :: nat where "C_SAFE_AREA_VAL = 0x58505053"

definition COMMU_ERR_SHMNEW :: int where "COMMU_ERR_SHMNEW = - 102"
definition COMMU_ERR_SHMMAP :: int where "COMMU_ERR_SHMMAP = - 103"
definition COMMU_ERR_FILEOPEN :: int where "COMMU_ERR_FILEOPEN = - 111"
definition COMMU_ERR_MQFULL :: int where "COMMU_ERR_MQFULL = - 121"
definition COMMU_ERR_MQEMPTY :: int where "COMMU_ERR_MQEMPTY = - 122"
definition COMMU_ERR_OTFBUFF :: int where "COMMU_ERR_OTFBUFF = - 123"
definition COMMU_ERR_SHM_NULL :: int where "COMMU_ERR_SHM_NULL = - 124"
definition COMMU_ERR_CHKFAIL :: int where "COMMU_ERR_CHKFAIL = - 126"
definition COMMU_ERR_FLOCK :: int where "COMMU_ERR_FLOCK = - 201"

text \<open>
  \<open>CShmMQ\<close> with the shared segment it maps. \<open>q_attached\<close> says that \<open>shmmem_\<close> is not
  \<open>NULL\<close>; \<open>q_head\<close>, \<open>q_tail\<close>, \<open>q_pid\<close> and \<open>q_block\<close> are the segment's words and
  data bytes; \<open>q_msg_count\<close>, \<open>q_process_count\<close>, \<open>q_curflow\<close> are the \<open>Q_STATINFO\<close>
  counters in front of it.
\<close>

record shm_mq =
  q_shmkey :: int
  q_shmsize :: int
  q_attached :: bool
  q_block :: "byte list"
  q_blocksize :: nat
  q_head :: nat
  q_tail :: nat
  q_pid :: int
  q_msg_count :: int
  q_process_count :: int
  q_curflow :: nat

record mq_stat =
  usedlen :: nat
  freelen :: nat
  totallen :: nat

definition getstat :: "shm_mq \<Rightarrow> mq_stat" where
  "getstat q = (let head = q_head q; tail = q_tail q; bs = q_blocksize q in
     \<lparr>usedlen = (if tail \<ge> head then u32_sub tail head else u32_sub (u32_add tail bs) head),
      freelen = (if head > tail then u32_sub head tail else u32_sub (u32_add head bs) tail),
      totallen = bs\<rparr>)"

definition isEmpty :: "shm_mq \<Rightarrow> bool" where
  "isEmpty q \<longleftrightarrow> q_msg_count q = 0"

text \<open>
  \<open>getmemory\<close> and \<open>init\<close>. The results of \<open>shmget\<close> without and with \<open>IPC_CREAT\<close> and of
  \<open>shmat\<close> are arguments, and so is the content \<open>seg\<close> of the segment that is mapped.
\<close>

definition getmemory :: "bool \<Rightarrow> bool \<Rightarrow> bool \<Rightarrow> int" where
  "getmemory get_ok create_ok attach_ok =
     (if get_ok then (if attach_ok then 0 else COMMU_ERR_SHMMAP)
      else if create_ok then (if attach_ok then 1 else COMMU_ERR_SHMMAP)
      else COMMU_ERR_SHMNEW)"

definition mq_init :: "bool \<Rightarrow> bool \<Rightarrow> bool \<Rightarrow> shm_mq \<Rightarrow> int \<Rightarrow> int \<Rightarrow> int \<times> shm_mq" where
  "mq_init get_ok create_ok attach_ok seg shmkey shmsize =
     (let ret = getmemory get_ok create_ok attach_ok;
          q = seg\<lparr>q_shmkey := shmkey, q_shmsize := shmsize\<rparr>
      in if ret < 0 then (ret, q)
         else (let q1 = (if ret > 0 then q\<lparr>q_head := 0, q_tail := 0\<rparr> else q)
               in (0, q1\<lparr>q_attached := True, q_blocksize := nat ((shmsize - 12) mod 2 ^ 32), q_pid := 0\<rparr>)))"

definition mq_clear :: "shm_mq \<Rightarrow> int \<times> shm_mq" where
  "mq_clear q =
     (if \<not> q_attached q then (COMMU_ERR_SHM_NULL, q)
      else (0, q\<lparr>q_head := 0, q_tail := 0, q_pid := 0, q_msg_count := 0\<rparr>))"

text \<open>\<open>CMisc::check_process_exist\<close>: \<open>kill\<close> yields its result and \<open>errno\<close>; 3 is \<open>ESRCH\<close>.\<close>

definition check_process_exist :: "(int \<Rightarrow> int \<times> int) \<Rightarrow> int \<Rightarrow> int" where
  "check_process_exist kill pid =
     (let (ret, err) = kill pid in if ret = 0 \<or> err \<noteq> 3 then 1 else 0)"

definition do_check :: "(int \<Rightarrow> int \<times> int) \<Rightarrow> nat \<Rightarrow> nat \<Rightarrow> shm_mq \<Rightarrow> bool \<times> shm_mq" where
  "do_check kill head tail q =
     (if head \<le> q_blocksize q \<and> tail \<le> q_blocksize q then (True, q)
      else (let clr_flag = (if q_pid q = 0 then True else check_process_exist kill (q_pid q) = 0)
            in (False, if clr_flag then snd (mq_clear q) else q)))"

text \<open>The frame head and the three ways to lay a record into the ring.\<close>

definition s_head :: "nat \<Rightarrow> nat \<Rightarrow> byte list" where
  "s_head total_len flow = le32 C_SAFE_AREA_VAL @ le32 total_len @ le32 flow"

definition put_straight :: "byte list \<Rightarrow> nat \<Rightarrow> byte list \<Rightarrow> byte list \<Rightarrow> nat \<Rightarrow> byte list option" where
  "put_straight block tail sHead data data_len = do {
     m1 \<leftarrow> mem_wr block tail sHead;
     d \<leftarrow> mem_rd data 0 data_len;
     m2 \<leftarrow> mem_wr m1 (tail + C_SAFE_AREA_LEN + C_HEAD_SIZE) d;
     mem_wr m2 (tail + C_SAFE_AREA_LEN + C_HEAD_SIZE + data_len) (le32 C_SAFE_AREA_VAL)
   }"

definition put_split_data ::
    "byte list \<Rightarrow> nat \<Rightarrow> nat \<Rightarrow> byte list \<Rightarrow> byte list \<Rightarrow> nat \<Rightarrow> nat \<Rightarrow> byte list option" where
  "put_split_data block blocksize tail sHead data data_len tail_len = do {
     m1 \<leftarrow> mem_wr block tail sHead;
     let first_len = u32_sub (u32_sub tail_len C_SAFE_AREA_LEN) C_HEAD_SIZE;
     let second_len = u32_sub (u32_add data_len C_SAFE_AREA_LEN) first_len;
     if second_len \<ge> C_SAFE_AREA_LEN then do {
       d1 \<leftarrow> mem_rd data 0 first_len;
       m2 \<leftarrow> mem_wr m1 (tail + C_SAFE_AREA_LEN + C_HEAD_SIZE) d1;
       d2 \<leftarrow> mem_rd data first_len (u32_sub second_len C_SAFE_AREA_LEN);
       m3 \<leftarrow> mem_wr m2 0 d2;
       mem_wr m3 (second_len - C_SAFE_AREA_LEN) (le32 C_SAFE_AREA_VAL)
     } else do {
       d \<leftarrow> mem_rd data 0 (u32_add (u32_sub first_len C_SAFE_AREA_LEN) second_len);
       m2 \<leftarrow> mem_wr m1 (tail + C_SAFE_AREA_LEN + C_HEAD_SIZE) d;
       if second_len = 3 then do {
         m3 \<leftarrow> mem_wr m2 (blocksize - 1) [0x53];
         m4 \<leftarrow> mem_wr m3 0 [0x50];
         m5 \<leftarrow> mem_wr m4 1 [0x50];
         mem_wr m5 2 [0x58]
       } else if second_len = 2 then do {
         m3 \<leftarrow> mem_wr m2 (blocksize - 2) [0x53];
         m4 \<leftarrow> mem_wr m3 (blocksize - 1) [0x50];
         m5 \<leftarrow> mem_wr m4 0 [0x50];
         mem_wr m5 1 [0x58]
       } else if second_len = 1 then do {
         m3 \<leftarrow> mem_wr m2 (blocksize - 3) [0x53];
         m4 \<leftarrow> mem_wr m3 (blocksize - 2) [0x50];
         m5 \<leftarrow> mem_wr m4 (blocksize - 1) [0x50];
         mem_wr m5 0 [0x58]
       } else Some m2
     }
   }"

definition put_split_head ::
    "byte list \<Rightarrow> nat \<Rightarrow> byte list \<Rightarrow> byte list \<Rightarrow> nat \<Rightarrow> nat \<Rightarrow> (byte list \<times> nat) option" where
  "put_split_head block tail sHead data data_len tail_len = do {
     h1 \<leftarrow> mem_rd sHead 0 tail_len;
     m1 \<leftarrow> mem_wr block tail h1;
     let second_len = u32_sub (C_SAFE_AREA_LEN + C_HEAD_SIZE) tail_len;
     h2 \<leftarrow> mem_rd sHead tail_len second_len;
     m2 \<leftarrow> mem_wr m1 0 h2;
     d \<leftarrow> mem_rd data 0 data_len;
     m3 \<leftarrow> mem_wr m2 second_len d;
     m4 \<leftarrow> mem_wr m3 (second_len + data_len) (le32 C_SAFE_AREA_VAL);
     Some (m4, u32_add (u32_add second_len data_len) C_SAFE_AREA_LEN)
   }"

definition enqueue ::
    "(int \<Rightarrow> int \<times> int) \<Rightarrow> byte list \<Rightarrow> nat \<Rightarrow> nat \<Rightarrow> shm_mq \<Rightarrow> (int \<times> shm_mq) option" where
  "enqueue kill data data_len flow q =
     (let head = q_head q; tail = q_tail q; bs = q_blocksize q; (ok, q1) = do_check kill head tail q
      in if \<not> ok then Some (COMMU_ERR_CHKFAIL, q1)
         else (let free_len = (if head > tail then u32_sub head tail else u32_sub (u32_add head bs) tail);
                   tail_len = u32_sub bs tail;
                   total_len = u32_add data_len (C_HEAD_SIZE + 2 * C_SAFE_AREA_LEN);
                   sHead = s_head total_len flow
               in if free_len \<le> total_len then Some (COMMU_ERR_MQFULL, q1)
                  else do {
                    q2 \<leftarrow>
                      (if tail_len \<ge> total_len then do {
                         m \<leftarrow> put_straight (q_block q1) tail sHead data data_len;
                         Some (q1\<lparr>q_block := m, q_tail := u32_add tail (u32_add data_len 16)\<rparr>)
                       } else if tail_len \<ge> C_HEAD_SIZE + C_SAFE_AREA_LEN \<and>
                           tail_len < u32_add (C_HEAD_SIZE + 2 * C_SAFE_AREA_LEN) data_len then do {
                         m \<leftarrow> put_split_data (q_block q1) bs tail sHead data data_len tail_len;
                         Some (q1\<lparr>q_block := m, q_tail := u32_add tail (u32_sub total_len bs)\<rparr>)
                       } else do {
                         (m, t) \<leftarrow> put_split_head (q_block q1) tail sHead data data_len tail_len;
                         Some (q1\<lparr>q_block := m, q_tail := t\<rparr>)
                       });
                    let count = q_msg_count q2 + 1;
                    Some (count, q2\<lparr>q_msg_count := count\<rparr>)
                  }))"

text \<open>
  \<open>dequeue\<close> returns its result code, the reference parameters \<open>data_len\<close> and \<open>flow\<close> and the
  caller's buffer, whose bytes past the copied ones are unchanged.
\<close>

record deq_out =
  d_ret :: int
  d_len :: nat
  d_flow :: nat
  d_buf :: "byte list"

text \<open>The reset after a failed integrity check: clear, unless \<open>do_check\<close> refuses the cursors.\<close>

definition mq_reset :: "(int \<Rightarrow> int \<times> int) \<Rightarrow> shm_mq \<Rightarrow> shm_mq" where
  "mq_reset kill q =
     (let (ok, q1) = do_check kill (q_head q) (q_tail q) q in if ok then snd (mq_clear q1) else q1)"

text \<open>The frame head at the read cursor, in one or two copies, and the cursor after it.\<close>

definition get_head :: "byte list \<Rightarrow> nat \<Rightarrow> nat \<Rightarrow> (byte list \<times> nat) option" where
  "get_head block bs head =
     (if u32_add head (C_SAFE_AREA_LEN + C_HEAD_SIZE) > bs then do {
        let first_size = u32_sub bs head;
        let second_size = u32_sub (C_SAFE_AREA_LEN + C_HEAD_SIZE) first_size;
        h1 \<leftarrow> mem_rd block head first_size;
        h2 \<leftarrow> mem_rd block 0 second_size;
        Some (h1 @ h2, second_size)
      } else do {
        h \<leftarrow> mem_rd block head (C_SAFE_AREA_LEN + C_HEAD_SIZE);
        Some (h, u32_add head (C_HEAD_SIZE + C_SAFE_AREA_LEN))
      })"

text \<open>The data part with its trailing magic word, in one or two copies, and the new read cursor.\<close>

definition get_data :: "byte list \<Rightarrow> nat \<Rightarrow> nat \<Rightarrow> nat \<Rightarrow> byte list \<Rightarrow> (byte list \<times> nat) option" where
  "get_data block bs head data_len buf =
     (if u32_add head data_len > bs then do {
        let first_size = u32_sub bs head;
        let second_size = u32_sub data_len first_size;
        d1 \<leftarrow> mem_rd block head first_size;
        b1 \<leftarrow> mem_wr buf 0 d1;
        d2 \<leftarrow> mem_rd block 0 second_size;
        b2 \<leftarrow> mem_wr b1 first_size d2;
        Some (b2, second_size)
      } else do {
        d \<leftarrow> mem_rd block head data_len;
        b \<leftarrow> mem_wr buf 0 d;
        Some (b, u32_add head data_len)
      })"

definition dequeue ::
    "(int \<Rightarrow> int \<times> int) \<Rightarrow> byte list \<Rightarrow> nat \<Rightarrow> nat \<Rightarrow> shm_mq \<Rightarrow> (deq_out \<times> shm_mq) option" where
  "dequeue kill buf buf_size flow0 q =
     (let head = q_head q; tail = q_tail q; bs = q_blocksize q; (ok, q1) = do_check kill head tail q;
          out = \<lparr>d_ret = 0, d_len = 0, d_flow = flow0, d_buf = buf\<rparr>
      in if \<not> ok then Some (out\<lparr>d_ret := COMMU_ERR_CHKFAIL\<rparr>, q1)
         else if head = tail then Some (out\<lparr>d_ret := COMMU_ERR_MQEMPTY\<rparr>, q1)
         else do {
           let q2 = q1\<lparr>q_msg_count := q_msg_count q1 - 1\<rparr>;
           let used_len = (if tail > head then u32_sub tail head else u32_sub (u32_add tail bs) head);
           (sHead, head') \<leftarrow> get_head (q_block q2) bs head;
           let total_len = rd32 (drop 4 sHead);
           let flow = rd32 (drop 8 sHead);
           let out = out\<lparr>d_flow := flow\<rparr>;
           if rd32 sHead \<noteq> C_SAFE_AREA_VAL then Some (out\<lparr>d_ret := COMMU_ERR_CHKFAIL\<rparr>, mq_reset kill q2)
           else if total_len > used_len then Some (out\<lparr>d_ret := COMMU_ERR_MQEMPTY\<rparr>, mq_reset kill q2)
           else do {
             let data_len = u32_sub (u32_sub total_len C_HEAD_SIZE) C_SAFE_AREA_LEN;
             if data_len > buf_size then Some (out\<lparr>d_ret := COMMU_ERR_OTFBUFF\<rparr>, mq_reset kill q2)
             else do {
               (buf', head'') \<leftarrow> get_data (q_block q2) bs head' data_len buf;
               let q3 = q2\<lparr>q_head := head''\<rparr>;
               let data_len' = u32_sub data_len C_SAFE_AREA_LEN;
               safe \<leftarrow> mem_rd buf' data_len' 4;
               if rd32 safe \<noteq> C_SAFE_AREA_VAL
               then Some (out\<lparr>d_ret := COMMU_ERR_CHKFAIL, d_buf := buf'\<rparr>, mq_reset kill q3)
               else Some (out\<lparr>d_len := data_len', d_buf := buf'\<rparr>,
                          q3\<lparr>q_curflow := flow, q_process_count := q_process_count q3 + 1\<rparr>)
             }
           }
         })"


section \<open>The abstract queue\<close>

text \<open>
  A queue state represents the list of messages, each a flow number and its data, whose encoded
  records fill the ring from the read to the write cursor.
\<close>

type_synonym msg = "nat \<times> byte list"

definition encode_msg :: "msg \<Rightarrow> byte list" where
  "encode_msg = (\<lambda>(flow, data). s_head (length data + 16) flow @ data @ le32 C_SAFE_AREA_VAL)"

definition mq_used :: "shm_mq \<Rightarrow> nat" where
  "mq_used q = (if q_tail q \<ge> q_head q then q_tail q - q_head q
                else q_tail q + q_blocksize q - q_head q)"

definition mq_wf :: "shm_mq \<Rightarrow> bool" where
  "mq_wf q \<longleftrightarrow> q_attached q \<and> length (q_block q) = q_blocksize q \<and> q_blocksize q < 2 ^ 31 \<and>
     q_head q \<le> q_blocksize q \<and> q_tail q \<le> q_blocksize q \<and> mq_used q < q_blocksize q \<and>
     (q_tail q = 0 \<longrightarrow> q_head q = 0)"

definition mq_rel :: "shm_mq \<Rightarrow> msg list \<Rightarrow> bool" where
  "mq_rel q msgs \<longleftrightarrow> mq_wf q \<and> q_msg_count q = int (length msgs) \<and>
     (\<forall>(flow, data) \<in> set msgs. flow < u32_max) \<and>
     ring_get (q_block q) (q_head q) (mq_used q) = concat (map encode_msg msgs)"

lemmas frame_defs = C_HEAD_SIZE_def C_SAFE_AREA_LEN_def

lemma length_s_head [simp]: "length (s_head n f) = 12"
  by (simp add: s_head_def)

lemma length_encode_msg [simp]: "length (encode_msg (f, d)) = length d + 16"
  by (simp add: encode_msg_def)

lemma magic_bytes: "le32 C_SAFE_AREA_VAL = [0x53, 0x50, 0x50, 0x58]"
  by (simp add: le32_def C_SAFE_AREA_VAL_def)

lemma magic_less [simp]: "C_SAFE_AREA_VAL mod u32_max = C_SAFE_AREA_VAL"
  by (simp add: C_SAFE_AREA_VAL_def u32_max_def)

lemma mem_rd_all [simp]: "mem_rd m 0 (length m) = Some m"
  by (simp add: mem_rd_def)

lemma put_straight_ring:
  assumes "tail + length data + 16 \<le> length block"
  shows "put_straight block tail (s_head (length data + 16) flow) data (length data) =
    Some (ring_put block tail (encode_msg (flow, data)))"
  using assms
  by (simp add: put_straight_def frame_defs mem_wr_ring encode_msg_def ring_put_append add.assoc)

text \<open>In a block of \<open>bs\<close> bytes, straight copies are ring copies, also one full turn later.\<close>

lemma ring_copies:
  assumes "length m = bs"
  shows "k + length xs \<le> bs \<Longrightarrow> mem_wr m k xs = Some (ring_put m k xs)"
    "ring_put m (bs + k) xs = ring_put m k xs" "ring_put m bs xs = ring_put m 0 xs"
  using assms mem_wr_ring [of k xs m] ring_put_mod [of m k xs] ring_put_mod [of m 0 xs]
  by (simp_all add: add.commute)

lemma put_split_head_ring:
  assumes bs: "length block = bs" "tail + tn = bs" "tn + sl = 12" "0 < sl" and n: "bs < 2 ^ 31"
    and fit: "length data + 16 < bs"
  shows "put_split_head block tail (s_head (length data + 16) flow) data (length data) tn =
    Some (ring_put block tail (encode_msg (flow, data)), sl + length data + 4)"
proof -
  let ?h = "s_head (length data + 16) flow"
  have second: "u32_sub 12 tn = sl" using bs by (simp add: u32_simps u32_max_def)
  have sums: "u32_add (u32_add sl (length data)) 4 = sl + length data + 4"
    using fit n bs by (simp add: u32_simps u32_max_def)
  have rd: "mem_rd ?h 0 tn = Some (take tn ?h)" "mem_rd ?h tn sl = Some (drop tn ?h)"
    using bs by (simp_all add: mem_rd_def)
  have len: "length (take tn ?h) = tn" "length (drop tn ?h) = sl" using bs by simp_all
  note C = ring_copies [where bs = bs]
  have "ring_put block tail (encode_msg (flow, data)) =
      ring_put block tail (take tn ?h @ drop tn ?h @ data @ le32 C_SAFE_AREA_VAL)"
    by (simp add: encode_msg_def)
  also have "\<dots> = ring_put (ring_put (ring_put (ring_put block tail (take tn ?h)) bs (drop tn ?h))
      (bs + sl) data) (bs + (sl + length data)) (le32 C_SAFE_AREA_VAL)"
    by (simp only: ring_put_append len bs(2) add.assoc)
  also have "\<dots> = ring_put (ring_put (ring_put (ring_put block tail (take tn ?h)) 0 (drop tn ?h))
      sl data) (sl + length data) (le32 C_SAFE_AREA_VAL)"
    using bs(1) by (simp only: C(2,3) length_ring_put)
  finally show ?thesis
    using bs fit by (simp add: put_split_head_def frame_defs second sums rd C(1) len)
qed

lemma magic_over_end:
  assumes "length m = bs" "16 < bs"
  shows "ring_put m (bs - 3) [a, b, c, d] = m[bs - 3 := a, bs - 2 := b, bs - 1 := c, 0 := d]"
    "ring_put m (bs - 2) [a, b, c, d] = m[bs - 2 := a, bs - 1 := b, 0 := c, 1 := d]"
    "ring_put m (bs - 1) [a, b, c, d] = m[bs - 1 := a, 0 := b, 1 := c, 2 := d]"
proof -
  have *: "bs - 3 + 1 = bs - 2" "bs - 2 + 1 = bs - 1" "bs - 1 + 1 = bs" using assms by auto
  have **: "(bs - 3) mod bs = bs - 3" "(bs - 2) mod bs = bs - 2" "(bs - 1) mod bs = bs - 1"
    "bs mod bs = 0" "(bs + 1) mod bs = 1" "(bs + 1 + 1) mod bs = 2"
    using assms mod_add_self1 [of bs 1] mod_add_self1 [of bs 2] by (simp_all del: mod_add_self1)
  show "ring_put m (bs - 3) [a, b, c, d] = m[bs - 3 := a, bs - 2 := b, bs - 1 := c, 0 := d]"
    "ring_put m (bs - 2) [a, b, c, d] = m[bs - 2 := a, bs - 1 := b, 0 := c, 1 := d]"
    "ring_put m (bs - 1) [a, b, c, d] = m[bs - 1 := a, 0 := b, 1 := c, 2 := d]"
    by (simp_all only: ring_put.simps length_list_update assms(1) * **)
qed

lemma put_split_data_ring:
  assumes bs: "length block = bs" "tail + 12 + fl = bs" "fl + sl = length data + 4" "0 < sl"
    and n: "bs < 2 ^ 31" and fit: "length data + 16 < bs"
  shows "put_split_data block bs tail (s_head (length data + 16) flow) data (length data) (12 + fl) =
    Some (ring_put block tail (encode_msg (flow, data)))"
proof -
  let ?h = "s_head (length data + 16) flow"
  have fl: "u32_sub (u32_sub (12 + fl) 4) 8 = fl"
    using bs n by (simp add: u32_simps u32_max_def)
  have sl: "u32_sub (u32_add (length data) 4) fl = sl"
    using bs n fit by (simp add: u32_simps u32_max_def)
  note C = ring_copies [where bs = bs]
  have w0: "mem_wr block tail ?h = Some (ring_put block tail ?h)"
    using bs by (intro C) auto
  show ?thesis
  proof (cases "sl \<ge> 4")
    case True
    then have le: "fl \<le> length data" and s4: "u32_sub sl 4 = sl - 4" "fl + (sl - 4) = length data"
      using bs n fit by (simp_all add: u32_simps u32_max_def)
    have d: "mem_rd data 0 fl = Some (take fl data)" "mem_rd data fl (sl - 4) = Some (drop fl data)"
      using le s4(2) by (simp_all add: mem_rd_def)
    have len: "length (take fl data) = fl" "length (drop fl data) = sl - 4" using le s4 by auto
    have "ring_put block tail (encode_msg (flow, data)) =
      ring_put block tail (?h @ take fl data @ drop fl data @ le32 C_SAFE_AREA_VAL)"
      by (simp add: encode_msg_def)
    also have "\<dots> = ring_put (ring_put (ring_put (ring_put block tail ?h) (tail + 12) (take fl data))
        bs (drop fl data)) (bs + (sl - 4)) (le32 C_SAFE_AREA_VAL)"
      by (simp only: ring_put_append length_s_head len bs(2) add.assoc [symmetric])
    also have "\<dots> = ring_put (ring_put (ring_put (ring_put block tail ?h) (tail + 12) (take fl data))
        0 (drop fl data)) (sl - 4) (le32 C_SAFE_AREA_VAL)"
      using bs(1) by (simp only: C(2,3) length_ring_put)
    finally show ?thesis
      using True bs fit by (simp add: put_split_data_def frame_defs fl sl w0 s4(1) d C(1) len add.commute [of 12 tail])
  next
    case False
    have all: "u32_add (u32_sub fl 4) sl = length data"
      using bs n fit u32_sub_add [of 4 fl sl] by (simp add: u32_max_def)
    have e: "ring_put block tail (encode_msg (flow, data)) =
      ring_put (ring_put (ring_put block tail ?h) (tail + 12) data) (tail + 12 + length data) [0x53, 0x50, 0x50, 0x58]"
      by (simp add: encode_msg_def ring_put_append magic_bytes add.assoc)
    have w1: "mem_wr (ring_put block tail ?h) (tail + 12) data =
        Some (ring_put (ring_put block tail ?h) (tail + 12) data)"
      using False bs by (intro C) auto
    let ?m = "ring_put (ring_put block tail ?h) (tail + 12) data"
    have m: "length ?m = bs" using bs by simp
    have one: "mem_wr x k [b] = Some (x[k mod bs := b])" if "k < bs" "length x = bs" for x k b
      using that C(1) [of x k "[b]"] by simp
    have pd: "put_split_data block bs tail ?h data (length data) (12 + fl) =
      (if sl = 3 then do { m3 \<leftarrow> mem_wr ?m (bs - 1) [0x53]; m4 \<leftarrow> mem_wr m3 0 [0x50];
          m5 \<leftarrow> mem_wr m4 1 [0x50]; mem_wr m5 2 [0x58] }
       else if sl = 2 then do { m3 \<leftarrow> mem_wr ?m (bs - 2) [0x53]; m4 \<leftarrow> mem_wr m3 (bs - 1) [0x50];
          m5 \<leftarrow> mem_wr m4 0 [0x50]; mem_wr m5 1 [0x58] }
       else if sl = 1 then do { m3 \<leftarrow> mem_wr ?m (bs - 3) [0x53]; m4 \<leftarrow> mem_wr m3 (bs - 2) [0x50];
          m5 \<leftarrow> mem_wr m4 (bs - 1) [0x50]; mem_wr m5 0 [0x58] }
       else Some ?m)"
      using False by (simp add: put_split_data_def frame_defs fl sl w0 all w1 add.commute [of 12 tail])
    have "16 < bs" using fit by simp
    note over = magic_over_end [OF m this, of "0x53" "0x50" "0x50" "0x58"]
    consider "sl = 1" "tail + 12 + length data = bs - 3"
      | "sl = 2" "tail + 12 + length data = bs - 2" | "sl = 3" "tail + 12 + length data = bs - 1"
      using False bs by linarith
    then show ?thesis
    proof cases
      case 1
      show ?thesis unfolding pd e 1(2) over using 1(1) \<open>16 < bs\<close> m by (simp add: one)
    next
      case 2
      show ?thesis unfolding pd e 2(2) over using 2(1) \<open>16 < bs\<close> m by (simp add: one)
    next
      case 3
      show ?thesis unfolding pd e 3(2) over using 3(1) \<open>16 < bs\<close> m by (simp add: one)
    qed
  qed
qed


section \<open>Enqueue\<close>

text \<open>How a cursor advances: a cursor at the end of the block stays there until the next step.\<close>

definition ring_next :: "nat \<Rightarrow> nat \<Rightarrow> nat \<Rightarrow> nat" where
  "ring_next bs pos n = (if pos + n \<le> bs then pos + n else pos + n - bs)"

lemma ring_next_mod: "pos \<le> bs \<Longrightarrow> n \<le> bs \<Longrightarrow> ring_next bs pos n mod bs = (pos + n) mod bs"
  by (simp add: ring_next_def) (metis le_add_diff_inverse2 mod_add_self2 nat_le_linear)

lemma free_len_eq:
  assumes "head \<le> bs" "tail \<le> bs" "bs < 2 ^ 31"
  shows "(if head > tail then u32_sub head tail else u32_sub (u32_add head bs) tail) =
    bs - (if tail \<ge> head then tail - head else tail + bs - head)"
  using assms by (auto simp: u32_simps u32_max_def)

lemma used_len_eq:
  assumes "head \<le> bs" "tail \<le> bs" "bs < 2 ^ 31" "head \<noteq> tail"
  shows "(if tail > head then u32_sub tail head else u32_sub (u32_add tail bs) head) =
    (if tail \<ge> head then tail - head else tail + bs - head)"
  using assms by (auto simp: u32_simps u32_max_def)

lemma do_check_ok [simp]:
  "head \<le> q_blocksize q \<Longrightarrow> tail \<le> q_blocksize q \<Longrightarrow> do_check kill head tail q = (True, q)"
  by (simp add: do_check_def)

text \<open>
  With valid cursors and a length that does not wrap, \<open>enqueue\<close> never leaves the block, and all
  three layouts store the same ring image.
\<close>

lemma enqueue_cursors:
  assumes len: "length (q_block q) = q_blocksize q" and n: "q_blocksize q < 2 ^ 31"
    and h: "q_head q \<le> q_blocksize q" and t: "q_tail q \<le> q_blocksize q"
    and d: "length data + 16 < u32_max"
  shows "enqueue kill data (length data) flow q =
    (if mq_used q + length data + 16 < q_blocksize q
     then Some (q_msg_count q + 1,
       q\<lparr>q_block := ring_put (q_block q) (q_tail q) (encode_msg (flow, data)),
         q_tail := ring_next (q_blocksize q) (q_tail q) (length data + 16),
         q_msg_count := q_msg_count q + 1\<rparr>)
     else Some (COMMU_ERR_MQFULL, q))"
proof -
  let ?bs = "q_blocksize q" and ?t = "q_tail q" and ?h = "q_head q" and ?n = "length data + 16"
  have total: "u32_add (length data) 16 = ?n" "u32_add 16 (length data) = ?n"
    using d by (simp_all add: u32_simps)
  have tl: "u32_sub ?bs ?t = ?bs - ?t" using t n by (simp add: u32_simps u32_max_def)
  note free = free_len_eq [OF h t n]
  show ?thesis
  proof (cases "mq_used q + ?n < ?bs")
    case False
    then have full: "?bs - (if ?t \<ge> ?h then ?t - ?h else ?t + ?bs - ?h) \<le> ?n"
      by (auto simp: mq_used_def)
    show ?thesis
      unfolding enqueue_def Let_def do_check_ok [OF h t] prod.case frame_defs
      using False full by (simp add: free total)
  next
    case True
    then have room: "\<not> ?bs - (if ?t \<ge> ?h then ?t - ?h else ?t + ?bs - ?h) \<le> ?n" and fit: "?n < ?bs"
      by (auto simp: mq_used_def)
    consider (straight) "?t + ?n \<le> ?bs" | (data) "?t + 12 \<le> ?bs" "?bs < ?t + ?n" | (head) "?bs < ?t + 12"
      by linarith
    then show ?thesis
    proof cases
      case straight
      then have "put_straight (q_block q) ?t (s_head ?n flow) data (length data) =
          Some (ring_put (q_block q) ?t (encode_msg (flow, data)))"
        by (intro put_straight_ring) (simp add: len)
      moreover have "u32_add ?t ?n = ring_next ?bs ?t ?n"
        using straight n by (simp add: ring_next_def u32_simps u32_max_def)
      moreover have "?n \<le> ?bs - ?t" using straight by simp
      ultimately show ?thesis
        unfolding enqueue_def Let_def do_check_ok [OF h t] prod.case frame_defs
        using True room by (simp add: free total tl)
    next
      case data
      obtain fl where fl: "?t + 12 + fl = ?bs" using data(1) le_Suc_ex by metis
      obtain sl where sl: "fl + sl = length data + 4" "0 < sl"
        using data(2) fl by (intro that [of "length data + 4 - fl"]) auto
      have "put_split_data (q_block q) ?bs ?t (s_head ?n flow) data (length data) (12 + fl) =
          Some (ring_put (q_block q) ?t (encode_msg (flow, data)))"
        by (rule put_split_data_ring [OF len fl sl n fit])
      moreover have "?bs - ?t = 12 + fl" "\<not> ?n \<le> 12 + fl" "12 + fl < ?n" using fl data by auto
      moreover have "u32_add ?t (u32_sub ?n ?bs) = ring_next ?bs ?t ?n"
        using data n d u32_sub_add [of ?bs ?n ?t] fit
        by (simp add: ring_next_def u32_add_def add.commute u32_max_def)
      ultimately show ?thesis
        unfolding enqueue_def Let_def do_check_ok [OF h t] prod.case frame_defs
        using True room by (simp add: free total tl)
    next
      case head
      obtain tn where tn: "?t + tn = ?bs" using t le_Suc_ex by metis
      obtain sl where sl: "tn + sl = 12" "0 < sl" using head tn by (intro that [of "12 - tn"]) auto
      have "put_split_head (q_block q) ?t (s_head ?n flow) data (length data) tn =
          Some (ring_put (q_block q) ?t (encode_msg (flow, data)), sl + length data + 4)"
        by (rule put_split_head_ring [OF len tn sl n fit])
      moreover have "?bs - ?t = tn" "\<not> ?n \<le> tn" "\<not> 12 \<le> tn" using tn sl by auto
      moreover have "sl + length data + 4 = ring_next ?bs ?t ?n"
        using tn sl by (simp add: ring_next_def)
      ultimately show ?thesis
        unfolding enqueue_def Let_def do_check_ok [OF h t] prod.case frame_defs
        using True room by (simp add: free total tl)
    qed
  qed
qed

lemma mq_wf_cursors:
  assumes "mq_wf q"
  shows "length (q_block q) = q_blocksize q" "q_blocksize q < 2 ^ 31" "q_head q \<le> q_blocksize q"
    "q_tail q \<le> q_blocksize q" "mq_used q < q_blocksize q" "q_attached q" "0 < q_blocksize q"
    "q_tail q = 0 \<Longrightarrow> q_head q = 0"
  using assms by (auto simp: mq_wf_def)

lemma mq_used_tail:
  assumes "mq_wf q"
  shows "q_tail q mod q_blocksize q = (q_head q + mq_used q) mod q_blocksize q"
    "mq_used q = 0 \<longleftrightarrow> q_head q = q_tail q"
proof -
  note c = mq_wf_cursors [OF assms]
  have "q_head q + mq_used q = q_tail q \<or> q_head q + mq_used q = q_tail q + q_blocksize q"
    using c by (auto simp: mq_used_def)
  then show "q_tail q mod q_blocksize q = (q_head q + mq_used q) mod q_blocksize q" by auto
  show "mq_used q = 0 \<longleftrightarrow> q_head q = q_tail q"
    using c by (auto simp: mq_used_def split: if_splits)
qed

lemma enqueue_used:
  assumes wf: "mq_wf q" and room: "mq_used q + n < q_blocksize q" and n: "0 < n"
    and len: "length m = q_blocksize q"
    and q'_def: "q' = q\<lparr>q_block := m, q_tail := ring_next (q_blocksize q) (q_tail q) n, q_msg_count := k\<rparr>"
  shows "mq_used q' = mq_used q + n" "mq_wf q'"
proof -
  note c = mq_wf_cursors [OF wf]
  show u: "mq_used q' = mq_used q + n"
    using c room by (auto simp: q'_def mq_used_def ring_next_def split: if_splits)
  show "mq_wf q'"
    using c room n u len by (auto simp: mq_wf_def q'_def ring_next_def)
qed

lemma mq_rel_snoc:
  assumes rel: "mq_rel q msgs" and room: "mq_used q + length data + 16 < q_blocksize q"
    and flow: "flow < u32_max"
  defines "q' \<equiv> q\<lparr>q_block := ring_put (q_block q) (q_tail q) (encode_msg (flow, data)),
      q_tail := ring_next (q_blocksize q) (q_tail q) (length data + 16),
      q_msg_count := q_msg_count q + 1\<rparr>"
  shows "mq_rel q' (msgs @ [(flow, data)])"
proof -
  have wf: "mq_wf q" using rel by (simp add: mq_rel_def)
  note c = mq_wf_cursors [OF wf]
  let ?n = "length data + 16"
  have u: "mq_used q' = mq_used q + ?n" "mq_wf q'"
    using enqueue_used [OF wf, of ?n _ q', OF _ _ _ q'_def [THEN meta_eq_to_obj_eq]] room c(1) by (simp_all add: add.assoc)
  have "ring_get (q_block q') (q_head q') (mq_used q') =
      ring_get (q_block q) (q_head q) (mq_used q) @ encode_msg (flow, data)"
    using ring_get_put_append [of "mq_used q" "encode_msg (flow, data)" "q_block q" "q_tail q" "q_head q"]
      room c(1) mq_used_tail(1) [OF wf] by (simp add: u(1)) (simp add: q'_def add.assoc)
  then show ?thesis
    using rel flow u(2) by (auto simp: mq_rel_def) (simp add: q'_def)
qed

end
