(* ===== verification/Shm_MQ_Fifo.thy ===== *)
theory Shm_MQ_Fifo
  imports Shm_MQ
begin

text \<open>
  What \<open>CShmMQ::dequeue\<close> does to the ring, the refinement of the queue to a list of messages,
  its behaviour on damaged segments, and runs of both operations.
\<close>

section \<open>Dequeue\<close>

lemma ring_next_le: "pos \<le> bs \<Longrightarrow> n \<le> bs \<Longrightarrow> ring_next bs pos n \<le> bs"
  by (auto simp: ring_next_def)

lemma ring_next_add:
  "pos \<le> bs \<Longrightarrow> a + b \<le> bs \<Longrightarrow> ring_next bs (ring_next bs pos a) b = ring_next bs pos (a + b)"
  by (auto simp: ring_next_def)

lemma ring_get_next:
  assumes "pos \<le> length m" "n \<le> length m"
  shows "ring_get m (ring_next (length m) pos n) k = ring_get m (pos + n) k"
  using assms ring_get_mod [of m "pos + n - length m" k] by (auto simp: ring_next_def)

lemma get_head_ring:
  assumes "length block = bs" "head \<le> bs" "12 \<le> bs" "bs < 2 ^ 31"
  shows "get_head block bs head = Some (ring_get block head 12, ring_next bs head 12)"
proof (cases "head + 12 \<le> bs")
  case True
  then show ?thesis
    using assms by (simp add: get_head_def frame_defs ring_next_def mem_rd_ring u32_simps u32_max_def)
next
  case False
  obtain fs where fs: "head + fs = bs" using assms le_Suc_ex by metis
  obtain ss where ss: "fs + ss = 12" using False fs by (intro that [of "12 - fs"]) simp
  have "ring_get block head 12 = ring_get block head fs @ ring_get block bs ss"
    using ring_get_add [of block head fs ss] by (simp add: ss fs)
  moreover have "u32_sub bs head = fs" "u32_sub 12 fs = ss" "u32_add head 12 = head + 12"
    using assms fs ss by (simp_all add: u32_simps u32_max_def)
  moreover have "mem_rd block head fs = Some (ring_get block head fs)"
    "mem_rd block 0 ss = Some (ring_get block bs ss)"
    using assms fs ss mem_rd_ring [of head fs block] mem_rd_ring_wrapped [of ss block] by simp_all
  moreover have "ring_next bs head 12 = ss" using False fs ss by (simp add: ring_next_def)
  ultimately show ?thesis
    using False by (simp add: get_head_def frame_defs)
qed

lemma get_data_ring:
  assumes "length block = bs" "head \<le> bs" "n \<le> bs" "bs < 2 ^ 31" "n \<le> length buf"
  shows "get_data block bs head n buf = Some (ring_get block head n @ drop n buf, ring_next bs head n)"
proof (cases "head + n \<le> bs")
  case True
  then show ?thesis
    using assms by (simp add: get_data_def ring_next_def mem_rd_ring u32_simps u32_max_def mem_wr_def)
next
  case False
  obtain fs where fs: "head + fs = bs" using assms le_Suc_ex by metis
  obtain ss where ss: "fs + ss = n" using False fs by (intro that [of "n - fs"]) simp
  have "ring_get block head n = ring_get block head fs @ ring_get block bs ss"
    using ring_get_add [of block head fs ss] by (simp add: ss fs)
  moreover have "u32_sub bs head = fs" "u32_sub n fs = ss" "u32_add head n = head + n"
    using assms fs ss by (simp_all add: u32_simps u32_max_def)
  moreover have "mem_rd block head fs = Some (ring_get block head fs)"
    "mem_rd block 0 ss = Some (ring_get block bs ss)"
    using assms fs ss mem_rd_ring [of head fs block] mem_rd_ring_wrapped [of ss block] by simp_all
  moreover have "ring_next bs head n = ss" using False fs ss by (simp add: ring_next_def)
  ultimately show ?thesis
    using False ss assms by (simp add: get_data_def mem_wr_def)
qed

text \<open>The record fields at the read cursor.\<close>

definition front_magic :: "shm_mq \<Rightarrow> nat" where
  "front_magic q = rd32 (ring_get (q_block q) (q_head q) 12)"
definition front_total :: "shm_mq \<Rightarrow> nat" where
  "front_total q = rd32 (drop 4 (ring_get (q_block q) (q_head q) 12))"
definition front_flow :: "shm_mq \<Rightarrow> nat" where
  "front_flow q = rd32 (drop 8 (ring_get (q_block q) (q_head q) 12))"

definition front_body :: "shm_mq \<Rightarrow> byte list" where
  "front_body q = ring_get (q_block q) (q_head q + 12) (front_total q - 12)"

lemma rd32_less: "rd32 bs < u32_max"
proof -
  have b: "unat (b :: byte) \<le> 255" for b using unsigned_less [of b, where ?'a = nat] by simp
  show ?thesis
    using b [of "bs ! 0"] b [of "bs ! 1"] b [of "bs ! 2"] b [of "bs ! 3"]
    unfolding rd32_def u32_max_def by simp
qed

definition mq_emptied :: "shm_mq \<Rightarrow> shm_mq" where
  "mq_emptied q = q\<lparr>q_head := 0, q_tail := 0, q_pid := 0, q_msg_count := 0\<rparr>"

lemma mq_reset_emptied:
  "q_attached q \<Longrightarrow> q_head q \<le> q_blocksize q \<Longrightarrow> q_tail q \<le> q_blocksize q \<Longrightarrow> mq_reset kill q = mq_emptied q"
  by (simp add: mq_reset_def mq_clear_def mq_emptied_def)

lemma mq_emptied_upd [simp]:
  "mq_emptied (q\<lparr>q_msg_count := k\<rparr>) = mq_emptied q"
  "mq_emptied (q\<lparr>q_head := h, q_msg_count := k\<rparr>) = mq_emptied q"
  "mq_emptied (q\<lparr>q_msg_count := k, q_head := h\<rparr>) = mq_emptied q"
  by (simp_all add: mq_emptied_def)

text \<open>A mapped segment whose cursors are inside the block; nothing is said of the block's content.\<close>

definition mq_mapped :: "shm_mq \<Rightarrow> bool" where
  "mq_mapped q \<longleftrightarrow> q_attached q \<and> length (q_block q) = q_blocksize q \<and> q_blocksize q < 2 ^ 31 \<and>
     12 \<le> q_blocksize q"

lemma dequeue_eq:
  assumes m: "mq_mapped q" and h: "q_head q \<le> q_blocksize q" and t: "q_tail q \<le> q_blocksize q"
    and ne: "q_head q \<noteq> q_tail q" and b: "length buf < 2 ^ 31"
  defines "out \<equiv> \<lparr>d_ret = 0, d_len = 0, d_flow = front_flow q, d_buf = buf\<rparr>"
  defines "n \<equiv> front_total q - 12"
  defines "buf' \<equiv> front_body q @ drop n buf"
  shows "dequeue kill buf (length buf) flow0 q =
    (if front_magic q \<noteq> C_SAFE_AREA_VAL then Some (out\<lparr>d_ret := COMMU_ERR_CHKFAIL\<rparr>, mq_emptied q)
     else if mq_used q < front_total q then Some (out\<lparr>d_ret := COMMU_ERR_MQEMPTY\<rparr>, mq_emptied q)
     else if front_total q < 12 \<or> length buf < n then Some (out\<lparr>d_ret := COMMU_ERR_OTFBUFF\<rparr>, mq_emptied q)
     else if front_total q < 16 then None
     else if rd32 (drop (n - 4) (front_body q)) \<noteq> C_SAFE_AREA_VAL
       then Some (out\<lparr>d_ret := COMMU_ERR_CHKFAIL, d_buf := buf'\<rparr>, mq_emptied q)
     else Some (out\<lparr>d_len := n - 4, d_buf := buf'\<rparr>,
       q\<lparr>q_head := ring_next (q_blocksize q) (q_head q) (front_total q), q_msg_count := q_msg_count q - 1,
         q_curflow := front_flow q, q_process_count := q_process_count q + 1\<rparr>))"
proof -
  let ?bs = "q_blocksize q" and ?h = "q_head q"
  have c: "q_attached q" "length (q_block q) = ?bs" "?bs < 2 ^ 31" "12 \<le> ?bs"
    using m by (auto simp: mq_mapped_def)
  note gh = get_head_ring [OF c(2) h c(4) c(3)]
  have used: "(if q_tail q > ?h then u32_sub (q_tail q) ?h else u32_sub (u32_add (q_tail q) ?bs) ?h) = mq_used q"
    using used_len_eq [OF h t c(3) ne] by (simp add: mq_used_def)
  have ub: "mq_used q \<le> ?bs" using h t by (auto simp: mq_used_def)
  have reset: "mq_reset kill (q\<lparr>q_msg_count := k\<rparr>) = mq_emptied q"
    "p \<le> ?bs \<Longrightarrow> mq_reset kill (q\<lparr>q_msg_count := k, q_head := p\<rparr>) = mq_emptied q" for k p
    using c h t by (simp_all add: mq_reset_emptied)
  note R = dequeue_def Let_def do_check_ok [OF h t] prod.case frame_defs
  note F = front_magic_def [symmetric] front_total_def [symmetric] front_flow_def [symmetric]
  show ?thesis
  proof (cases "front_magic q \<noteq> C_SAFE_AREA_VAL \<or> mq_used q < front_total q")
    case True
    then show ?thesis
      unfolding R using ne by (auto simp: gh F used reset(1) out_def)
  next
    case False
    then have tot: "front_magic q = C_SAFE_AREA_VAL" "front_total q \<le> mq_used q" by auto
    show ?thesis
    proof (cases "front_total q < 12")
      case True
      then have "u32_sub (u32_sub (front_total q) 8) 4 = 4294967284 + front_total q"
        using mod_add_self2 [of "4294967284 + front_total q" 4294967296]
        by (simp add: u32_sub_def u32_max_def mod_add_left_eq)
      then have "\<not> u32_sub (u32_sub (front_total q) 8) 4 \<le> length buf" using b by simp
      then show ?thesis
        unfolding R using ne True tot by (simp add: gh F used reset(1) out_def)
    next
      case ge: False
      then have n: "u32_sub (u32_sub (front_total q) 8) 4 = n" "n \<le> ?bs" "12 + n = front_total q"
        using tot ub c(3) by (auto simp: n_def u32_simps u32_max_def)
      have p: "ring_next ?bs ?h 12 \<le> ?bs" using h c(4) by (rule ring_next_le)
      show ?thesis
      proof (cases "n \<le> length buf")
        case False
        then show ?thesis
          unfolding R using ne ge tot by (simp add: gh F used n(1) reset(1) out_def)
      next
        case fits: True
        have gd: "get_data (q_block q) ?bs (ring_next ?bs ?h 12) n buf =
            Some (buf', ring_next ?bs ?h (front_total q))"
          using get_data_ring [OF c(2) p n(2) c(3) fits] ring_get_next [of ?h "q_block q" 12 n] h c
            ring_next_add [OF h, of 12 n] n tot ub
          by (simp add: buf'_def front_body_def n_def)
        have len: "length (front_body q) = n" by (simp add: front_body_def n_def)
        show ?thesis
        proof (cases "n < 4")
          case True
          then have "u32_sub n 4 = 4294967292 + n" by (simp add: u32_sub_def u32_max_def)
          then have "mem_rd buf' (u32_sub n 4) 4 = None"
            using b fits len by (simp add: mem_rd_def buf'_def)
          then show ?thesis
            unfolding R using ne ge tot True fits n(3) by (simp add: gh F used n(1) gd)
        next
          case False
          have s4: "u32_sub n 4 = n - 4" using False n(2) c(3) by (simp add: u32_simps u32_max_def)
          have tr: "mem_rd buf' (n - 4) 4 = Some (drop (n - 4) (front_body q))"
            using False fits len by (simp add: mem_rd_def buf'_def)
          have pos: "ring_next ?bs ?h (front_total q) \<le> ?bs"
            using h tot ub by (intro ring_next_le) auto
          show ?thesis
            unfolding R using ne ge tot False fits n(3)
            by (simp add: gh F used n(1) gd s4 tr reset(2) [OF pos] out_def)
        qed
      qed
    qed
  qed
qed


section \<open>Refinement to a list of messages\<close>

definition mq_bytes :: "msg list \<Rightarrow> nat" where
  "mq_bytes msgs = sum_list (map (\<lambda>(flow, data). length data + 16) msgs)"

lemma mq_bytes_simps [simp]:
  "mq_bytes [] = 0" "mq_bytes ((f, d) # ms) = length d + 16 + mq_bytes ms"
  "mq_bytes (ms @ ms') = mq_bytes ms + mq_bytes ms'"
  by (simp_all add: mq_bytes_def)

lemma length_encoded: "length (concat (map encode_msg msgs)) = mq_bytes msgs"
  by (induction msgs) auto

lemma mq_rel_used: "mq_rel q msgs \<Longrightarrow> mq_used q = mq_bytes msgs"
  by (metis length_encoded length_ring_get mq_rel_def)

lemma mq_rel_mapped:
  assumes "mq_rel q ((f, d) # ms)"
  shows "mq_mapped q" "q_head q \<le> q_blocksize q" "q_tail q \<le> q_blocksize q" "q_head q \<noteq> q_tail q"
proof -
  have wf: "mq_wf q" using assms by (simp add: mq_rel_def)
  note c = mq_wf_cursors [OF wf]
  have "16 \<le> mq_used q" using mq_rel_used [OF assms] by simp
  then show "mq_mapped q" "q_head q \<le> q_blocksize q" "q_tail q \<le> q_blocksize q" "q_head q \<noteq> q_tail q"
    using c mq_used_tail(2) [OF wf] by (auto simp: mq_mapped_def)
qed

text \<open>The record at the read cursor is the encoding of the first message.\<close>

lemma mq_rel_front:
  assumes rel: "mq_rel q ((f, d) # ms)"
  shows "front_magic q = C_SAFE_AREA_VAL" "front_total q = length d + 16" "front_flow q = f"
    "front_body q = d @ le32 C_SAFE_AREA_VAL"
    "ring_get (q_block q) (q_head q + (length d + 16)) (mq_used q - (length d + 16)) = concat (map encode_msg ms)"
proof -
  let ?n = "length d + 16"
  have wf: "mq_wf q" and f: "f < u32_max" using rel by (auto simp: mq_rel_def)
  have used: "mq_used q = ?n + mq_bytes ms" using mq_rel_used [OF rel] by simp
  then have n: "?n < u32_max" using mq_wf_cursors(2,5) [OF wf] by (simp add: u32_max_def)
  have all: "ring_get (q_block q) (q_head q) (mq_used q) = encode_msg (f, d) @ concat (map encode_msg ms)"
    using rel by (simp add: mq_rel_def)
  have rec: "ring_get (q_block q) (q_head q) ?n = encode_msg (f, d)"
    using arg_cong [OF all, of "take ?n"] used by (simp add: ring_get_take)
  show "ring_get (q_block q) (q_head q + ?n) (mq_used q - ?n) = concat (map encode_msg ms)"
    using arg_cong [OF all, of "drop ?n"] used by (simp add: ring_get_drop)
  have hd: "ring_get (q_block q) (q_head q) 12 = s_head ?n f"
    using ring_get_take [of 12 ?n "q_block q" "q_head q"] by (simp add: rec encode_msg_def)
  show "front_magic q = C_SAFE_AREA_VAL" "front_flow q = f" and tot: "front_total q = ?n"
    using f n by (simp_all add: front_magic_def front_flow_def front_total_def hd s_head_def)
  show "front_body q = d @ le32 C_SAFE_AREA_VAL"
    using ring_get_drop [of 12 ?n "q_block q" "q_head q"]
    by (simp add: rec encode_msg_def front_body_def tot)
qed

lemma mq_rel_tl:
  assumes rel: "mq_rel q ((f, d) # ms)"
  shows "mq_rel (q\<lparr>q_head := ring_next (q_blocksize q) (q_head q) (length d + 16),
    q_msg_count := q_msg_count q - 1, q_curflow := f, q_process_count := k\<rparr>) ms" (is "mq_rel ?q ms")
proof -
  let ?n = "length d + 16" and ?bs = "q_blocksize q"
  have wf: "mq_wf q" using rel by (simp add: mq_rel_def)
  note c = mq_wf_cursors [OF wf]
  have used: "mq_used q = ?n + mq_bytes ms" using mq_rel_used [OF rel] by simp
  then have u: "mq_used ?q = mq_used q - ?n"
    using c by (auto simp: mq_used_def ring_next_def split: if_splits)
  have "q_tail q \<noteq> 0" using c(8) used mq_used_tail(2) [OF wf] by auto
  then have "mq_wf ?q"
    using c u used ring_next_le [OF c(3), of ?n] by (auto simp: mq_wf_def)
  moreover have "ring_get (q_block q) (ring_next ?bs (q_head q) ?n) (mq_used q - ?n) = concat (map encode_msg ms)"
    using ring_get_next [of "q_head q" "q_block q" ?n] c used mq_rel_front(5) [OF rel] by simp
  ultimately show ?thesis
    using rel u by (auto simp: mq_rel_def)
qed

lemma mq_rel_emptied: "mq_rel q msgs \<Longrightarrow> mq_rel (mq_emptied q) []"
  by (auto simp: mq_rel_def mq_wf_def mq_emptied_def mq_used_def)

lemma dequeue_empty:
  assumes "mq_rel q []"
  shows "dequeue kill buf (length buf) flow0 q =
    Some (\<lparr>d_ret = COMMU_ERR_MQEMPTY, d_len = 0, d_flow = flow0, d_buf = buf\<rparr>, q)"
proof -
  have wf: "mq_wf q" using assms by (simp add: mq_rel_def)
  then show ?thesis
    using mq_wf_cursors [OF wf] mq_rel_used [OF assms] mq_used_tail(2) [OF wf]
    by (simp add: dequeue_def)
qed

lemma dequeue_head:
  assumes rel: "mq_rel q ((f, d) # ms)" and b: "length buf < 2 ^ 31"
  shows "length d + 4 \<le> length buf \<Longrightarrow>
    \<exists>q'. dequeue kill buf (length buf) flow0 q =
      Some (\<lparr>d_ret = 0, d_len = length d, d_flow = f,
             d_buf = d @ le32 C_SAFE_AREA_VAL @ drop (length d + 4) buf\<rparr>, q') \<and>
      mq_rel q' ms \<and> q_blocksize q' = q_blocksize q"
    and "length buf < length d + 4 \<Longrightarrow>
    dequeue kill buf (length buf) flow0 q =
      Some (\<lparr>d_ret = COMMU_ERR_OTFBUFF, d_len = 0, d_flow = f, d_buf = buf\<rparr>, mq_emptied q)"
proof -
  note eq = dequeue_eq [OF mq_rel_mapped [OF rel] b, of kill flow0]
  have le: "length d + 16 \<le> mq_used q" using mq_rel_used [OF rel] by simp
  note fr = mq_rel_front(1-4) [OF rel]
  show "\<exists>q'. dequeue kill buf (length buf) flow0 q =
      Some (\<lparr>d_ret = 0, d_len = length d, d_flow = f,
             d_buf = d @ le32 C_SAFE_AREA_VAL @ drop (length d + 4) buf\<rparr>, q') \<and>
      mq_rel q' ms \<and> q_blocksize q' = q_blocksize q" if "length d + 4 \<le> length buf"
    using le that mq_rel_tl [OF rel, of "q_process_count q + 1"] by (simp add: eq fr add.commute)
  show "dequeue kill buf (length buf) flow0 q =
      Some (\<lparr>d_ret = COMMU_ERR_OTFBUFF, d_len = 0, d_flow = f, d_buf = buf\<rparr>, mq_emptied q)"
    if "length buf < length d + 4"
    using le that by (simp add: eq fr)
qed

lemma enqueue_rel:
  assumes rel: "mq_rel q msgs" and d: "length data + 16 < u32_max" "flow < u32_max"
  shows "mq_bytes msgs + length data + 16 < q_blocksize q \<Longrightarrow>
    \<exists>q'. enqueue kill data (length data) flow q = Some (int (length msgs) + 1, q') \<and>
      mq_rel q' (msgs @ [(flow, data)]) \<and> q_blocksize q' = q_blocksize q"
    and "q_blocksize q \<le> mq_bytes msgs + length data + 16 \<Longrightarrow>
    enqueue kill data (length data) flow q = Some (COMMU_ERR_MQFULL, q)"
proof -
  have wf: "mq_wf q" and cnt: "q_msg_count q = int (length msgs)" using rel by (auto simp: mq_rel_def)
  note c = mq_wf_cursors [OF wf] and used = mq_rel_used [OF rel]
  note eq = enqueue_cursors [OF c(1-4) d(1), of kill flow]
  show "\<exists>q'. enqueue kill data (length data) flow q = Some (int (length msgs) + 1, q') \<and>
      mq_rel q' (msgs @ [(flow, data)]) \<and> q_blocksize q' = q_blocksize q"
    if "mq_bytes msgs + length data + 16 < q_blocksize q"
    using that used mq_rel_snoc [OF rel _ d(2), of data] by (simp add: eq cnt)
  show "enqueue kill data (length data) flow q = Some (COMMU_ERR_MQFULL, q)"
    if "q_blocksize q \<le> mq_bytes msgs + length data + 16"
    using that used by (simp add: eq)
qed


section \<open>Runs of the queue\<close>

text \<open>A run of producer and consumer calls on one queue, and the same run on a list of messages.\<close>

datatype mq_op = Enq nat "byte list" | Deq "byte list"
datatype mq_res = EnqRes int | DeqRes deq_out

fun mq_run :: "(int \<Rightarrow> int \<times> int) \<Rightarrow> mq_op list \<Rightarrow> shm_mq \<Rightarrow> (mq_res list \<times> shm_mq) option" where
  "mq_run kill [] q = Some ([], q)"
| "mq_run kill (Enq flow data # ops) q = do {
     (r, q1) \<leftarrow> enqueue kill data (length data) flow q;
     (rs, q2) \<leftarrow> mq_run kill ops q1;
     Some (EnqRes r # rs, q2)
   }"
| "mq_run kill (Deq buf # ops) q = do {
     (r, q1) \<leftarrow> dequeue kill buf (length buf) 0 q;
     (rs, q2) \<leftarrow> mq_run kill ops q1;
     Some (DeqRes r # rs, q2)
   }"

fun fifo_step :: "nat \<Rightarrow> mq_op \<Rightarrow> msg list \<Rightarrow> mq_res \<times> msg list" where
  "fifo_step cap (Enq flow data) msgs =
     (if mq_bytes msgs + length data + 16 < cap
      then (EnqRes (int (length msgs) + 1), msgs @ [(flow, data)])
      else (EnqRes COMMU_ERR_MQFULL, msgs))"
| "fifo_step cap (Deq buf) [] =
     (DeqRes \<lparr>d_ret = COMMU_ERR_MQEMPTY, d_len = 0, d_flow = 0, d_buf = buf\<rparr>, [])"
| "fifo_step cap (Deq buf) ((f, d) # msgs) =
     (if length d + 4 \<le> length buf
      then (DeqRes \<lparr>d_ret = 0, d_len = length d, d_flow = f,
                    d_buf = d @ le32 C_SAFE_AREA_VAL @ drop (length d + 4) buf\<rparr>, msgs)
      else (DeqRes \<lparr>d_ret = COMMU_ERR_OTFBUFF, d_len = 0, d_flow = f, d_buf = buf\<rparr>, []))"

fun fifo_run :: "nat \<Rightarrow> mq_op list \<Rightarrow> msg list \<Rightarrow> mq_res list \<times> msg list" where
  "fifo_run cap [] msgs = ([], msgs)"
| "fifo_run cap (op # ops) msgs =
     (let (r, msgs1) = fifo_step cap op msgs; (rs, msgs2) = fifo_run cap ops msgs1 in (r # rs, msgs2))"

text \<open>Arguments a C caller can pass without wrapping the 32-bit lengths.\<close>

fun op_ok :: "mq_op \<Rightarrow> bool" where
  "op_ok (Enq flow data) \<longleftrightarrow> flow < u32_max \<and> length data + 16 < u32_max"
| "op_ok (Deq buf) \<longleftrightarrow> length buf < 2 ^ 31"

lemma mq_run_refine:
  assumes "mq_rel q msgs" "list_all op_ok ops" "q_blocksize q = cap"
  shows "\<exists>q'. mq_run kill ops q = Some (fst (fifo_run cap ops msgs), q') \<and>
    mq_rel q' (snd (fifo_run cap ops msgs)) \<and> q_blocksize q' = cap"
  using assms
proof (induction ops arbitrary: q msgs)
  case (Cons op ops)
  show ?case
  proof (cases op)
    case (Enq flow data)
    then have ok: "length data + 16 < u32_max" "flow < u32_max" using Cons.prems by auto
    note E = enqueue_rel [OF Cons.prems(1) ok, of kill]
    show ?thesis
    proof (cases "mq_bytes msgs + length data + 16 < cap")
      case True
      then obtain q1 where q1: "enqueue kill data (length data) flow q = Some (int (length msgs) + 1, q1)"
        "mq_rel q1 (msgs @ [(flow, data)])" "q_blocksize q1 = cap"
        using E(1) Cons.prems(3) by auto
      show ?thesis
        using Cons.IH [OF q1(2) _ q1(3)] Cons.prems(2) True by (auto simp: Enq q1(1) split: prod.split)
    next
      case False
      then have "enqueue kill data (length data) flow q = Some (COMMU_ERR_MQFULL, q)"
        using E(2) Cons.prems(3) by simp
      then show ?thesis
        using Cons.IH [OF Cons.prems(1) _ Cons.prems(3)] Cons.prems(2) False
        by (auto simp: Enq split: prod.split)
    qed
  next
    case (Deq buf)
    then have ok: "length buf < 2 ^ 31" using Cons.prems by simp
    show ?thesis
    proof (cases msgs)
      case Nil
      then show ?thesis
        using dequeue_empty [of q kill buf 0] Cons.IH [OF Cons.prems(1) _ Cons.prems(3)] Cons.prems
        by (auto simp: Deq split: prod.split)
    next
      case (Cons m ms)
      obtain f d where m: "msgs = (f, d) # ms" using Cons by (cases m) simp
      note rel = Cons.prems(1) [unfolded m]
      show ?thesis
      proof (cases "length d + 4 \<le> length buf")
        case True
        then obtain q1 where q1: "dequeue kill buf (length buf) 0 q =
            Some (\<lparr>d_ret = 0, d_len = length d, d_flow = f,
              d_buf = d @ le32 C_SAFE_AREA_VAL @ drop (length d + 4) buf\<rparr>, q1)"
          "mq_rel q1 ms" "q_blocksize q1 = cap"
          using dequeue_head(1) [OF rel ok] Cons.prems(3) by metis
        show ?thesis
          using Cons.IH [OF q1(2) _ q1(3)] Cons.prems(2) True by (auto simp: Deq m q1(1) split: prod.split)
      next
        case False
        have "q_blocksize (mq_emptied q) = cap" using Cons.prems(3) by (simp add: mq_emptied_def)
        then show ?thesis
          using Cons.IH [OF mq_rel_emptied [OF rel]] Cons.prems(2) False dequeue_head(2) [OF rel ok, of kill 0]
          by (auto simp: Deq m split: prod.split)
      qed
    qed
  qed
qed simp


section \<open>Properties\<close>

text \<open>An empty queue of \<open>n\<close> bytes whose cursors stand at \<open>p\<close>, and one with two messages.\<close>

definition empty_mq :: "nat \<Rightarrow> nat \<Rightarrow> shm_mq" where
  "empty_mq n p = \<lparr>q_shmkey = 1, q_shmsize = int n + 12, q_attached = True, q_block = replicate n 0,
     q_blocksize = n, q_head = p, q_tail = p, q_pid = 0, q_msg_count = 0, q_process_count = 0, q_curflow = 0\<rparr>"

lemma empty_mq_rel: "0 < n \<Longrightarrow> n < 2 ^ 31 \<Longrightarrow> p \<le> n \<Longrightarrow> mq_rel (empty_mq n p) []"
  by (simp add: mq_rel_def mq_wf_def empty_mq_def mq_used_def)

definition loaded_mq :: shm_mq where
  "loaded_mq = (empty_mq 48 40)\<lparr>q_block := ring_put (replicate 48 0) 40
       (encode_msg (7, [1, 2, 3]) @ encode_msg (8, [])), q_tail := 27, q_msg_count := 2\<rparr>"

lemma loaded_mq_rel: "mq_rel loaded_mq [(7, [1, 2, 3]), (8, [])]"
  using ring_get_put_same [of "encode_msg (7, [1, 2, 3]) @ encode_msg (8, [])" "replicate 48 0" 40]
  by (simp add: mq_rel_def mq_wf_def loaded_mq_def empty_mq_def mq_used_def u32_max_def)

lemma loaded_mq_size [simp]: "q_blocksize loaded_mq = 48"
  by (simp add: loaded_mq_def empty_mq_def)

text \<open>C1: on a queue that holds the messages \<open>msgs\<close>, every sequence of \<open>enqueue\<close> and \<open>dequeue\<close>
  calls whose lengths do not wrap 32 bits stays inside the block and the caller's buffers and
  returns exactly what a first-in-first-out list of messages returns: a message is accepted iff its
  16 bytes of framing and its data leave at least one byte of the block free, messages come out
  in the order they went in with their flow number, and the final state holds the remaining
  messages.\<close>

theorem mq_run_fifo:
  assumes "mq_rel q msgs" and "list_all op_ok ops"
  shows "\<exists>q'. mq_run kill ops q = Some (fst (fifo_run (q_blocksize q) ops msgs), q') \<and>
    mq_rel q' (snd (fifo_run (q_blocksize q) ops msgs))"
  using mq_run_refine [OF assms refl] by blast

theorem mq_run_fifo_witness:
  "mq_rel (empty_mq 40 30) [] \<and>
   (\<exists>q'. mq_run (\<lambda>_. (0, 0)) [Enq 7 [1, 2, 3], Enq 8 [4, 5, 6, 7, 8], Deq (replicate 8 9), Deq [9]] (empty_mq 40 30) =
     Some ([EnqRes 1, EnqRes COMMU_ERR_MQFULL,
            DeqRes \<lparr>d_ret = 0, d_len = 3, d_flow = 7, d_buf = [1, 2, 3, 0x53, 0x50, 0x50, 0x58, 9]\<rparr>,
            DeqRes \<lparr>d_ret = COMMU_ERR_MQEMPTY, d_len = 0, d_flow = 0, d_buf = [9]\<rparr>], q') \<and> mq_rel q' [])"
  using empty_mq_rel [of 40 30]
    mq_run_fifo [of "empty_mq 40 30" "[]" "[Enq 7 [1, 2, 3], Enq 8 [4, 5, 6, 7, 8], Deq (replicate 8 9), Deq [9]]" "\<lambda>_. (0, 0)"]
  by (simp add: u32_max_def magic_bytes empty_mq_def) (simp add: eval_nat_numeral)

text \<open>\<open>dequeue\<close> needs room for the data and the four bytes of the trailing magic word that it
  also copies to the caller. With enough room it returns 0, the flow and the data of the first
  message and removes that message only.\<close>

theorem dequeue_first:
  assumes "mq_rel q ((f, d) # ms)" and "length d + 4 \<le> length buf" and "length buf < 2 ^ 31"
  shows "\<exists>out q'. dequeue kill buf (length buf) flow0 q = Some (out, q') \<and> d_ret out = 0 \<and>
    d_flow out = f \<and> d_len out = length d \<and> take (length d) (d_buf out) = d \<and>
    length (d_buf out) = length buf \<and> mq_rel q' ms"
  using dequeue_head(1) [OF assms(1,3,2), of kill flow0] assms(2) by (auto simp: add.assoc)

theorem dequeue_first_witness:
  "\<exists>out q'. dequeue (\<lambda>_. (0, 0)) (replicate 7 0) (length (replicate 7 (0 :: byte))) 0 loaded_mq = Some (out, q') \<and>
    d_ret out = 0 \<and> d_flow out = 7 \<and> d_len out = 3 \<and> take 3 (d_buf out) = [1, 2, 3] \<and>
    length (d_buf out) = 7 \<and> mq_rel q' [(8, [])]"
  using dequeue_first [OF loaded_mq_rel, of "replicate 7 0" "\<lambda>_. (0, 0)" 0]
  by (simp add: numeral_3_eq_3)

text \<open>A message too long for the caller's buffer costs the whole queue: \<open>dequeue\<close> reports
  \<open>COMMU_ERR_OTFBUFF\<close> and every message waiting behind it is dropped as well.\<close>

theorem dequeue_small_buffer:
  assumes "mq_rel q ((f, d) # ms)" and "length buf < length d + 4" and "length buf < 2 ^ 31"
  shows "\<exists>out q'. dequeue kill buf (length buf) flow0 q = Some (out, q') \<and>
    d_ret out = COMMU_ERR_OTFBUFF \<and> d_len out = 0 \<and> d_buf out = buf \<and> mq_rel q' []"
  using dequeue_head(2) [OF assms(1,3,2), of kill flow0] mq_rel_emptied [OF assms(1)] by simp

theorem dequeue_small_buffer_witness:
  "\<exists>out q'. dequeue (\<lambda>_. (0, 0)) (replicate 6 0) (length (replicate 6 (0 :: byte))) 0 loaded_mq = Some (out, q') \<and>
    d_ret out = COMMU_ERR_OTFBUFF \<and> d_len out = 0 \<and> d_buf out = replicate 6 0 \<and> mq_rel q' []"
  using dequeue_small_buffer [OF loaded_mq_rel, of "replicate 6 0" "\<lambda>_. (0, 0)" 0] by simp

text \<open>C21: on a mapped segment with arbitrary contents, \<open>dequeue\<close> accesses memory outside the block
  or the caller's buffer exactly when the cursors are valid and differ, the record at the read
  cursor starts with the magic word, and its length field is 12 to 15, within the used length: then
  the length of the data underflows after the check against the buffer.\<close>

theorem dequeue_fault_iff:
  assumes "mq_mapped q" and "length buf < 2 ^ 31"
  shows "dequeue kill buf (length buf) flow0 q = None \<longleftrightarrow>
    q_head q \<le> q_blocksize q \<and> q_tail q \<le> q_blocksize q \<and> q_head q \<noteq> q_tail q \<and>
    front_magic q = C_SAFE_AREA_VAL \<and> 12 \<le> front_total q \<and> front_total q < 16 \<and>
    front_total q \<le> mq_used q \<and> front_total q - 12 \<le> length buf"
proof (cases "q_head q \<le> q_blocksize q \<and> q_tail q \<le> q_blocksize q \<and> q_head q \<noteq> q_tail q")
  case True
  then show ?thesis
    using dequeue_eq [OF assms(1) _ _ _ assms(2), of kill flow0] by (simp add: not_less not_le)
next
  case False
  then show ?thesis by (auto simp: dequeue_def do_check_def Let_def)
qed

theorem dequeue_fault_iff_witness:
  "mq_mapped ((empty_mq 40 0)\<lparr>q_tail := 20, q_block := ring_put (replicate 40 0) 0 (s_head 13 5)\<rparr>) \<and>
   dequeue (\<lambda>_. (0, 0)) (replicate 8 0) (length (replicate 8 (0 :: byte))) 0
     ((empty_mq 40 0)\<lparr>q_tail := 20, q_block := ring_put (replicate 40 0) 0 (s_head 13 5)\<rparr>) = None"
proof -
  let ?q = "(empty_mq 40 0)\<lparr>q_tail := 20, q_block := ring_put (replicate 40 0) 0 (s_head 13 5)\<rparr>"
  have m: "mq_mapped ?q" by (simp add: mq_mapped_def empty_mq_def)
  have h: "ring_get (q_block ?q) (q_head ?q) 12 = s_head 13 5"
    using ring_get_put_same [of "s_head 13 5" "replicate 40 0" 0] by (simp add: empty_mq_def)
  have "front_magic ?q = C_SAFE_AREA_VAL" "front_total ?q = 13"
    unfolding front_magic_def front_total_def h by (simp_all add: s_head_def C_SAFE_AREA_VAL_def u32_max_def)
  then show ?thesis
    using m dequeue_fault_iff [OF m, of "replicate 8 0" "\<lambda>_. (0, 0)" 0] by (simp add: empty_mq_def mq_used_def)
qed


text \<open>C20: whatever the cursors and the contents of the block are, \<open>enqueue\<close> of a message whose length
  does not wrap copies inside the block only, and when it refuses the message it leaves the block
  as it was.\<close>

theorem enqueue_in_bounds:
  assumes "length (q_block q) = q_blocksize q" and "q_blocksize q < 2 ^ 31" and "length data + 16 < u32_max"
  shows "\<exists>r q'. enqueue kill data (length data) flow q = Some (r, q') \<and>
    length (q_block q') = q_blocksize q' \<and> (r < 0 \<and> 0 \<le> q_msg_count q \<longrightarrow> q_block q' = q_block q)"
proof (cases "q_head q \<le> q_blocksize q \<and> q_tail q \<le> q_blocksize q")
  case True
  then show ?thesis
    using enqueue_cursors [OF assms(1,2) _ _ assms(3), of kill flow] assms(1)
    by (auto simp: COMMU_ERR_MQFULL_def)
next
  case False
  then show ?thesis
    using assms(1) by (auto simp: enqueue_def do_check_def mq_clear_def Let_def)
qed

theorem enqueue_in_bounds_witness:
  "\<exists>r q'. enqueue (\<lambda>_. (0, 0)) [1, 2] (length [1 :: byte, 2]) 7 (empty_mq 40 0\<lparr>q_tail := 99\<rparr>) = Some (r, q') \<and>
    length (q_block q') = q_blocksize q'"
  using enqueue_in_bounds [of "empty_mq 40 0\<lparr>q_tail := 99\<rparr>" "[1, 2]" "\<lambda>_. (0, 0)" 7]
  by (simp add: u32_max_def) (auto simp: empty_mq_def)

text \<open>A length of \<open>2^32 - 16\<close> or more wraps the 32-bit record length to less than 16, so the
  check for free space passes and the copy leaves the block.\<close>

theorem enqueue_length_wrap:
  assumes "length (q_block q) = q_blocksize q" and "q_blocksize q < 2 ^ 31"
    and "q_head q \<le> q_blocksize q" and "q_tail q + 16 \<le> q_blocksize q" and "mq_used q + 16 < q_blocksize q"
    and "u32_max \<le> n + 16" and "n < u32_max"
  shows "enqueue kill data n flow q = None"
proof -
  have t: "q_tail q \<le> q_blocksize q" using assms(4) by simp
  have total: "u32_add n 16 = n + 16 - u32_max" "n + 16 - u32_max < 16"
    using assms(6,7) by (simp_all add: u32_add_def u32_max_def le_mod_geq)
  have tl: "u32_sub (q_blocksize q) (q_tail q) = q_blocksize q - q_tail q"
    using t assms(2) by (simp add: u32_simps u32_max_def)
  have room: "\<not> q_blocksize q - (if q_tail q \<ge> q_head q then q_tail q - q_head q
      else q_tail q + q_blocksize q - q_head q) \<le> n + 16 - u32_max"
    using assms(5) total(2) by (auto simp: mq_used_def)
  have "\<not> tail + 12 + n \<le> q_blocksize q" for tail
    using assms(2,6) by (simp add: u32_max_def)
  then have out: "put_straight (q_block q) (q_tail q) h data n = None" for h
    using assms(1) by (auto simp: put_straight_def frame_defs mem_wr_def mem_rd_def add.assoc split: bind_splits)
  have fit: "n + 16 - u32_max \<le> q_blocksize q - q_tail q" using assms(4) total(2) by linarith
  show ?thesis
    unfolding enqueue_def Let_def do_check_ok [OF assms(3) t] prod.case frame_defs
    using room fit by (simp add: free_len_eq [OF assms(3) t assms(2)] total(1) tl out)
qed

theorem enqueue_length_wrap_witness: "enqueue (\<lambda>_. (0, 0)) [] 4294967295 0 (empty_mq 40 0) = None"
  by (rule enqueue_length_wrap) (simp_all add: empty_mq_def mq_used_def u32_max_def)

end
