(* ===== verification/Shm_Commu.thy ===== *)
theory Shm_Commu
  imports Shm_MQ_Fifo
begin

text \<open>
  The producers, the consumers and the communication component \<open>CTShmCommu\<close> built on the
  shared-memory queue (\<open>comm/tbase/tshmcommu.cpp\<close>). The polling loop needs of its queue only that
  messages come out one by one until it is empty; that contract is the locale \<open>msg_source\<close>,
  interpreted for the consumer without and with a file lock.
\<close>

section \<open>The interface of a polling loop\<close>

locale msg_source =
  fixes rel :: "'s \<Rightarrow> 'm list \<Rightarrow> bool"
    and take_msg :: "'s \<Rightarrow> ('m option \<times> 's) option"
  assumes take_empty: "rel s [] \<Longrightarrow> \<exists>s'. take_msg s = Some (None, s') \<and> rel s' []"
    and take_first: "rel s (m # ms) \<Longrightarrow> \<exists>s'. take_msg s = Some (Some m, s') \<and> rel s' ms"
begin

text \<open>Any loop that takes a message and hands it on until there is none delivers all, in order.\<close>

lemma pump_all:
  assumes run: "\<And>n s c. run n s c = Option.bind (take_msg s) (\<lambda>(m, s'). case m of
      None \<Rightarrow> Some (n, s', c) | Some x \<Rightarrow> run (Suc n) s' (deliver x c))"
  shows "rel s msgs \<Longrightarrow> \<exists>s'. run n s c = Some (n + length msgs, s', fold deliver msgs c) \<and> rel s' []"
proof (induction msgs arbitrary: n s c)
  case Nil
  then show ?case using take_empty [OF Nil] by (auto simp: run [of n s c])
next
  case (Cons m ms)
  obtain s1 where s1: "take_msg s = Some (Some m, s1)" "rel s1 ms" using take_first [OF Cons.prems] by blast
  show ?case using Cons.IH [OF s1(2), of "Suc n" "deliver m c"] by (simp add: run [of n s c] s1(1))
qed

text \<open>One turn of such a loop delivers the first message only.\<close>

lemma pump_one:
  assumes "\<And>s. once s c = Option.bind (take_msg s) (\<lambda>(m, s'). case m of
      None \<Rightarrow> Some (0, s', c) | Some x \<Rightarrow> Some (Suc 0, s', deliver x c))"
    and "rel s msgs"
  shows "\<exists>s'. once s c = Some (length (take 1 msgs), s', fold deliver (take 1 msgs) c) \<and> rel s' (drop 1 msgs)"
  using assms(2) take_empty take_first by (cases msgs) (fastforce simp: assms(1) [of s])+

end

section \<open>Producers and consumers\<close>

text \<open>
  \<open>CShmProducer::produce\<close> returns, besides its result and the queue, whether it wrote to the notify
  descriptor. \<open>CShmProducerL\<close> takes a file lock first; \<open>lock\<close> says whether \<open>flock\<close> succeeds.
\<close>

definition produce ::
    "(int \<Rightarrow> int \<times> int) \<Rightarrow> int \<Rightarrow> byte list \<Rightarrow> nat \<Rightarrow> nat \<Rightarrow> shm_mq \<Rightarrow> (int \<times> bool \<times> shm_mq) option" where
  "produce kill notify_fd data data_len flow q = do {
     (ret, q') \<leftarrow> enqueue kill data data_len flow q;
     Some (ret, ret = 1 \<and> notify_fd > 0, q')
   }"

definition produceL ::
    "(int \<Rightarrow> int \<times> int) \<Rightarrow> bool \<Rightarrow> int \<Rightarrow> byte list \<Rightarrow> nat \<Rightarrow> nat \<Rightarrow> shm_mq \<Rightarrow> (int \<times> bool \<times> shm_mq) option" where
  "produceL kill lock notify_fd data data_len flow q =
     (if lock then produce kill notify_fd data data_len flow q else Some (COMMU_ERR_FLOCK, False, q))"

text \<open>The receiving side: the buffer \<open>buff_blob_\<close> with its length, the loop's \<open>flow\<close> and the queue.\<close>

record shm_rx =
  rx_buf :: "byte list"
  rx_len :: nat
  rx_flow :: nat
  rx_q :: shm_mq

definition comsume :: "(int \<Rightarrow> int \<times> int) \<Rightarrow> shm_rx \<Rightarrow> (int \<times> shm_rx) option" where
  "comsume kill rx = do {
     (out, q') \<leftarrow> dequeue kill (rx_buf rx) (length (rx_buf rx)) (rx_flow rx) (rx_q rx);
     Some (d_ret out, rx\<lparr>rx_buf := d_buf out, rx_len := d_len out, rx_flow := d_flow out, rx_q := q'\<rparr>)
   }"

definition comsumeL :: "(int \<Rightarrow> int \<times> int) \<Rightarrow> bool \<Rightarrow> shm_rx \<Rightarrow> (int \<times> shm_rx) option" where
  "comsumeL kill lock rx =
     (if isEmpty (rx_q rx) then Some (COMMU_ERR_MQEMPTY, rx)
      else if lock then comsume kill rx else Some (COMMU_ERR_FLOCK, rx))"

text \<open>\<open>clear\<close> of a producer or consumer, without and with the lock.\<close>

definition clearL :: "bool \<Rightarrow> shm_mq \<Rightarrow> int \<times> shm_mq" where
  "clearL lock q = (if lock then mq_clear q else (COMMU_ERR_FLOCK, q))"

section \<open>The communication component\<close>

record shm_commu =
  cm_tx :: shm_mq
  cm_rx :: shm_rx
  cm_locktype :: nat
  cm_notify :: int

definition LOCK_TYPE_PRODUCER :: nat where "LOCK_TYPE_PRODUCER = 1"
definition LOCK_TYPE_COMSUMER :: nat where "LOCK_TYPE_COMSUMER = 2"

text \<open>The bit tests \<open>locktype_ & LOCK_TYPE_PRODUCER\<close> and \<open>locktype_ & LOCK_TYPE_COMSUMER\<close>.\<close>

definition lock_producer :: "nat \<Rightarrow> bool" where
  "lock_producer t \<longleftrightarrow> odd (t div LOCK_TYPE_PRODUCER)"
definition lock_comsumer :: "nat \<Rightarrow> bool" where
  "lock_comsumer t \<longleftrightarrow> odd (t div LOCK_TYPE_COMSUMER)"

text \<open>
  \<open>poll\<close>: consume and call the registered \<open>CB_RECVDATA\<close> callback, once or, when \<open>block\<close> is set,
  until the consumer reports an empty queue or an error. The callback acts on a state of its own.
\<close>

partial_function (option) poll_loop ::
    "(shm_rx \<Rightarrow> (int \<times> shm_rx) option) \<Rightarrow> (nat \<Rightarrow> byte list \<Rightarrow> 'c \<Rightarrow> 'c) \<Rightarrow> bool \<Rightarrow> nat \<Rightarrow> shm_rx \<Rightarrow> 'c \<Rightarrow>
     (nat \<times> shm_rx \<times> 'c) option" where
  "poll_loop consume cb block processed rx c = do {
     (ret, rx1) \<leftarrow> consume rx;
     if ret \<noteq> 0 then Some (processed, rx1, c)
     else do {
       let c1 = cb (rx_flow rx1) (take (rx_len rx1) (rx_buf rx1)) c;
       if block then poll_loop consume cb block (Suc processed) rx1 c1
       else Some (Suc processed, rx1, c1)
     }
   }"

definition poll ::
    "(int \<Rightarrow> int \<times> int) \<Rightarrow> bool \<Rightarrow> (nat \<Rightarrow> byte list \<Rightarrow> 'c \<Rightarrow> 'c) \<Rightarrow> bool \<Rightarrow> shm_commu \<Rightarrow> 'c \<Rightarrow>
     (nat \<times> shm_commu \<times> 'c) option" where
  "poll kill lock cb block cm c = do {
     (n, rx', c') \<leftarrow> poll_loop (if lock_comsumer (cm_locktype cm) then comsumeL kill lock else comsume kill)
        cb block 0 ((cm_rx cm)\<lparr>rx_flow := 0\<rparr>) c;
     Some (n, cm\<lparr>cm_rx := rx'\<rparr>, c')
   }"

text \<open>\<open>sendto\<close>: the callbacks \<open>CB_SENDDATA\<close> and \<open>CB_SENDERROR\<close> may be unset. The boolean of the
  result says whether the peer was notified.\<close>

definition sendto ::
    "(int \<Rightarrow> int \<times> int) \<Rightarrow> bool \<Rightarrow> (nat \<Rightarrow> byte list \<Rightarrow> 'c \<Rightarrow> 'c) option \<Rightarrow> (nat \<Rightarrow> byte list \<Rightarrow> 'c \<Rightarrow> 'c) option \<Rightarrow>
     nat \<Rightarrow> byte list \<Rightarrow> shm_commu \<Rightarrow> 'c \<Rightarrow> (int \<times> bool \<times> shm_commu \<times> 'c) option" where
  "sendto kill lock cb_data cb_error flow data cm c = do {
     (ret, note, q') \<leftarrow> (if lock_producer (cm_locktype cm)
        then produceL kill lock (cm_notify cm) data (length data) flow (cm_tx cm)
        else produce kill (cm_notify cm) data (length data) flow (cm_tx cm));
     let cm' = cm\<lparr>cm_tx := q'\<rparr>;
     if ret \<ge> 0
     then Some (0, note, cm', case cb_data of None \<Rightarrow> c | Some f \<Rightarrow> f flow data c)
     else Some (ret, note, cm', case cb_error of None \<Rightarrow> c | Some f \<Rightarrow> f flow data c)
   }"

definition commu_clear :: "bool \<Rightarrow> shm_commu \<Rightarrow> int \<times> shm_commu" where
  "commu_clear lock cm =
     (let (ret, tx) = (if lock_producer (cm_locktype cm) then clearL lock (cm_tx cm) else mq_clear (cm_tx cm));
          cm1 = cm\<lparr>cm_tx := tx\<rparr>
      in if ret \<noteq> 0 then (ret, cm1)
         else (let (ret2, q) = (if lock_comsumer (cm_locktype cm) then clearL lock (rx_q (cm_rx cm1))
                                else mq_clear (rx_q (cm_rx cm1)))
               in (ret2, cm1\<lparr>cm_rx := (cm_rx cm1)\<lparr>rx_q := q\<rparr>\<rparr>)))"

text \<open>
  \<open>CTShmCommu::init\<close>. Each side is given by its configuration and by what the system answers: the
  three results of \<open>getmemory\<close>, the segment found, and whether the lock file opens. A failure
  ends the process (\<open>exit\<close>), which is the result \<^term>\<open>None\<close>.
\<close>

record side_conf =
  sc_key :: int
  sc_size :: int
  sc_get :: bool
  sc_create :: bool
  sc_attach :: bool
  sc_open :: bool
  sc_seg :: shm_mq

definition side_init :: "bool \<Rightarrow> side_conf \<Rightarrow> int \<times> shm_mq" where
  "side_init locked sc =
     (let (ret, q) = mq_init (sc_get sc) (sc_create sc) (sc_attach sc) (sc_seg sc) (sc_key sc) (sc_size sc)
      in if locked \<and> ret = 0 \<and> \<not> sc_open sc then (COMMU_ERR_FILEOPEN, q) else (ret, q))"

definition commu_init :: "nat \<Rightarrow> int \<Rightarrow> side_conf \<Rightarrow> side_conf \<Rightarrow> shm_commu option" where
  "commu_init locktype notify_fd producer comsumer = do {
     let (ret1, tx) = side_init (lock_producer locktype) producer;
     let (ret2, rq) = side_init (lock_comsumer locktype) comsumer;
     if ret1 \<noteq> 0 \<or> ret2 \<noteq> 0 then None
     else Some \<lparr>cm_tx = tx,
       cm_rx = \<lparr>rx_buf = replicate (nat (sc_size comsumer)) 0, rx_len = nat (sc_size comsumer), rx_flow = 0, rx_q = rq\<rparr>,
       cm_locktype = locktype, cm_notify = notify_fd\<rparr>
   }"


section \<open>The consumers are message sources\<close>

text \<open>The receive buffer is as large as the queue's segment, so no message is too long for it.\<close>

definition rx_rel :: "shm_rx \<Rightarrow> msg list \<Rightarrow> bool" where
  "rx_rel rx msgs \<longleftrightarrow> mq_rel (rx_q rx) msgs \<and> q_blocksize (rx_q rx) \<le> length (rx_buf rx) \<and>
     length (rx_buf rx) < 2 ^ 31"

definition rx_take :: "(shm_rx \<Rightarrow> (int \<times> shm_rx) option) \<Rightarrow> shm_rx \<Rightarrow> (msg option \<times> shm_rx) option" where
  "rx_take consume rx = do {
     (ret, rx') \<leftarrow> consume rx;
     Some (if ret = 0 then Some (rx_flow rx', take (rx_len rx') (rx_buf rx')) else None, rx')
   }"

lemma comsume_empty:
  "rx_rel rx [] \<Longrightarrow> comsume kill rx = Some (COMMU_ERR_MQEMPTY, rx\<lparr>rx_len := 0\<rparr>)"
  by (simp add: rx_rel_def comsume_def dequeue_empty)

lemma comsume_first:
  assumes rel: "rx_rel rx ((f, d) # ms)"
  shows "\<exists>rx'. comsume kill rx = Some (0, rx') \<and> rx_flow rx' = f \<and> take (rx_len rx') (rx_buf rx') = d \<and>
    rx_rel rx' ms"
proof -
  let ?q = "rx_q rx" and ?b = "rx_buf rx"
  have q: "mq_rel ?q ((f, d) # ms)" "q_blocksize ?q \<le> length ?b" "length ?b < 2 ^ 31"
    using rel by (auto simp: rx_rel_def)
  have fit: "length d + 4 \<le> length ?b"
    using mq_rel_used [OF q(1)] q(1,2) mq_wf_cursors(5) [of ?q] by (simp add: mq_rel_def)
  from dequeue_head(1) [OF q(1,3) fit, of kill "rx_flow rx"] obtain q' where
    "dequeue kill ?b (length ?b) (rx_flow rx) ?q = Some (\<lparr>d_ret = 0, d_len = length d, d_flow = f,
        d_buf = d @ le32 C_SAFE_AREA_VAL @ drop (length d + 4) ?b\<rparr>, q')"
    "mq_rel q' ms" "q_blocksize q' = q_blocksize ?q" by blast
  then show ?thesis using q fit by (simp add: comsume_def rx_rel_def)
qed

interpretation rx_plain: msg_source rx_rel "rx_take (comsume kill)" for kill
proof
  fix rx :: shm_rx and m :: msg and ms :: "msg list"
  show "\<exists>rx'. rx_take (comsume kill) rx = Some (None, rx') \<and> rx_rel rx' []" if "rx_rel rx []"
    using that by (simp add: rx_take_def comsume_empty COMMU_ERR_MQEMPTY_def) (simp add: rx_rel_def)
  show "\<exists>rx'. rx_take (comsume kill) rx = Some (Some m, rx') \<and> rx_rel rx' ms" if "rx_rel rx (m # ms)"
    using comsume_first [of rx "fst m" "snd m" ms kill] that by (auto simp: rx_take_def)
qed

lemma rx_rel_isEmpty: "rx_rel rx msgs \<Longrightarrow> isEmpty (rx_q rx) \<longleftrightarrow> msgs = []"
  by (simp add: rx_rel_def mq_rel_def isEmpty_def)

interpretation rx_locked: msg_source rx_rel "rx_take (comsumeL kill True)" for kill
proof
  fix rx :: shm_rx and m :: msg and ms :: "msg list"
  show "\<exists>rx'. rx_take (comsumeL kill True) rx = Some (None, rx') \<and> rx_rel rx' []" if "rx_rel rx []"
    using that rx_rel_isEmpty [OF that] by (simp add: rx_take_def comsumeL_def COMMU_ERR_MQEMPTY_def)
  show "\<exists>rx'. rx_take (comsumeL kill True) rx = Some (Some m, rx') \<and> rx_rel rx' ms" if "rx_rel rx (m # ms)"
    using comsume_first [of rx "fst m" "snd m" ms kill] that rx_rel_isEmpty [OF that]
    by (auto simp: rx_take_def comsumeL_def)
qed

lemma poll_loop_pump:
  "poll_loop consume cb True n rx c = Option.bind (rx_take consume rx) (\<lambda>(m, rx'). case m of
     None \<Rightarrow> Some (n, rx', c) | Some x \<Rightarrow> poll_loop consume cb True (Suc n) rx' (case_prod cb x c))"
  by (subst poll_loop.simps) (auto simp: rx_take_def Let_def split: bind_splits)

lemma poll_once_pump:
  "poll_loop consume cb False 0 rx c = Option.bind (rx_take consume rx) (\<lambda>(m, rx'). case m of
     None \<Rightarrow> Some (0, rx', c) | Some x \<Rightarrow> Some (Suc 0, rx', case_prod cb x c))"
  by (subst poll_loop.simps) (auto simp: rx_take_def Let_def split: bind_splits)

lemma poll_loop_all:
  assumes "rx_rel rx msgs"
  shows "\<exists>rx'. poll_loop (if b then comsumeL kill True else comsume kill) cb True 0 rx c =
    Some (length msgs, rx', fold (case_prod cb) msgs c) \<and> rx_rel rx' []"
  using rx_plain.pump_all [where run = "poll_loop (comsume kill) cb True" and deliver = "case_prod cb",
      OF poll_loop_pump assms, of 0 c]
    rx_locked.pump_all [where run = "poll_loop (comsumeL kill True) cb True" and deliver = "case_prod cb",
      OF poll_loop_pump assms, of 0 c] by (cases b) simp_all

lemma poll_loop_one:
  assumes "rx_rel rx msgs"
  shows "\<exists>rx'. poll_loop (if b then comsumeL kill True else comsume kill) cb False 0 rx c =
    Some (length (take 1 msgs), rx', fold (case_prod cb) (take 1 msgs) c) \<and> rx_rel rx' (drop 1 msgs)"
  using rx_plain.pump_one [where once = "poll_loop (comsume kill) cb False 0" and deliver = "case_prod cb",
      OF poll_once_pump assms, of c]
    rx_locked.pump_one [where once = "poll_loop (comsumeL kill True) cb False 0" and deliver = "case_prod cb",
      OF poll_once_pump assms, of c] by (cases b) simp_all


section \<open>Properties\<close>

lemma rx_rel_flow [simp]: "rx_rel (rx\<lparr>rx_flow := f\<rparr>) msgs = rx_rel rx msgs"
  by (simp add: rx_rel_def)

lemma poll_rel:
  assumes "rx_rel (cm_rx cm) msgs"
    and now_def: "now = (if block then msgs else take 1 msgs)"
  shows "\<exists>cm'. poll kill True cb block cm c = Some (length now, cm', fold (case_prod cb) now c) \<and>
    rx_rel (cm_rx cm') (drop (length now) msgs) \<and> cm_tx cm' = cm_tx cm"
proof -
  let ?b = "lock_comsumer (cm_locktype cm)"
  have rel: "rx_rel ((cm_rx cm)\<lparr>rx_flow := 0\<rparr>) msgs" using assms(1) by simp
  have *: "drop (min (length msgs) (Suc 0)) msgs = drop 1 msgs" by (cases msgs) auto
  show ?thesis
    using poll_loop_all [OF rel, of ?b kill cb c] poll_loop_one [OF rel, of ?b kill cb c]
    by (cases block) (auto simp: poll_def now_def *)
qed

lemma sendto_rel:
  assumes rel: "mq_rel (cm_tx cm) msgs" and d: "length data + 16 < u32_max" "flow < u32_max"
  shows "mq_bytes msgs + length data + 16 < q_blocksize (cm_tx cm) \<Longrightarrow>
    \<exists>cm'. sendto kill True cb_data cb_error flow data cm c =
        Some (0, msgs = [] \<and> cm_notify cm > 0, cm', case cb_data of None \<Rightarrow> c | Some f \<Rightarrow> f flow data c) \<and>
      mq_rel (cm_tx cm') (msgs @ [(flow, data)]) \<and> q_blocksize (cm_tx cm') = q_blocksize (cm_tx cm) \<and>
      cm_rx cm' = cm_rx cm \<and> cm_locktype cm' = cm_locktype cm"
    and "q_blocksize (cm_tx cm) \<le> mq_bytes msgs + length data + 16 \<Longrightarrow>
    sendto kill True cb_data cb_error flow data cm c =
        Some (COMMU_ERR_MQFULL, False, cm, case cb_error of None \<Rightarrow> c | Some f \<Rightarrow> f flow data c)"
  using enqueue_rel [OF rel d, of kill]
  by (auto simp: sendto_def produceL_def produce_def COMMU_ERR_MQFULL_def Let_def)

text \<open>C17: \<open>poll\<close> terminates and hands the queued messages to the receive callback, oldest first, with
  the flow and the bytes that were sent: all of them when \<open>block\<close> is set, at most one otherwise.
  It returns how many it delivered and leaves the others queued, with either kind of consumer.\<close>

theorem poll_delivers:
  assumes "rx_rel (cm_rx cm) msgs"
  shows "\<exists>cm'. poll kill True cb block cm c =
      (if block then Some (length msgs, cm', fold (case_prod cb) msgs c)
       else Some (min 1 (length msgs), cm', fold (case_prod cb) (take 1 msgs) c)) \<and>
    rx_rel (cm_rx cm') (if block then [] else drop 1 msgs)"
  using poll_rel [OF assms refl, of kill cb block c] by (cases msgs; cases block) auto

definition loaded_commu :: shm_commu where
  "loaded_commu = \<lparr>cm_tx = empty_mq 64 0,
     cm_rx = \<lparr>rx_buf = replicate 60 0, rx_len = 60, rx_flow = 0, rx_q = loaded_mq\<rparr>,
     cm_locktype = 2, cm_notify = 5\<rparr>"

lemma loaded_commu_rel: "rx_rel (cm_rx loaded_commu) [(7, [1, 2, 3]), (8, [])]"
  using loaded_mq_rel by (simp add: loaded_commu_def rx_rel_def)

theorem poll_delivers_witness:
  "\<exists>cm'. poll (\<lambda>_. (0, 0)) True (\<lambda>flow data c. c @ [(flow, data)]) True loaded_commu [] =
     Some (2, cm', [(7, [1, 2, 3]), (8, [])]) \<and> rx_rel (cm_rx cm') []"
  using poll_delivers [OF loaded_commu_rel, of "\<lambda>_. (0, 0)" "\<lambda>flow data c. c @ [(flow, data)]" True "[]"]
  by (simp add: numeral_2_eq_2)

text \<open>\<open>sendto\<close> accepts a message iff it fits beside the queued ones; it then returns 0, runs the
  \<open>CB_SENDDATA\<close> callback and wakes the peer iff the queue was empty and a notify descriptor is
  set. A message that does not fit is reported as \<open>COMMU_ERR_MQFULL\<close> with the \<open>CB_SENDERROR\<close>
  callback and changes nothing.\<close>

theorem sendto_accepts:
  assumes "mq_rel (cm_tx cm) msgs" and "length data + 16 < u32_max" and "flow < u32_max"
  shows "\<exists>cm'. sendto kill True cb_data cb_error flow data cm c =
      (if mq_bytes msgs + length data + 16 < q_blocksize (cm_tx cm)
       then Some (0, msgs = [] \<and> cm_notify cm > 0, cm', case cb_data of None \<Rightarrow> c | Some f \<Rightarrow> f flow data c)
       else Some (COMMU_ERR_MQFULL, False, cm, case cb_error of None \<Rightarrow> c | Some f \<Rightarrow> f flow data c)) \<and>
    (mq_bytes msgs + length data + 16 < q_blocksize (cm_tx cm) \<longrightarrow> mq_rel (cm_tx cm') (msgs @ [(flow, data)]))"
  using sendto_rel [OF assms, of kill cb_data cb_error c]
  by (cases "mq_bytes msgs + length data + 16 < q_blocksize (cm_tx cm)") auto

theorem sendto_accepts_witness:
  "\<exists>cm'. sendto (\<lambda>_. (0, 0)) True (Some (\<lambda>_ _ n. n + 1)) None 9 [1, 2] loaded_commu (0 :: nat) =
     Some (0, True, cm', 1) \<and> mq_rel (cm_tx cm') [(9, [1, 2])]"
proof -
  have "mq_rel (cm_tx loaded_commu) []" "q_blocksize (cm_tx loaded_commu) = 64" "cm_notify loaded_commu = 5"
    using empty_mq_rel [of 64 0] by (simp_all add: loaded_commu_def) (simp add: empty_mq_def)
  then show ?thesis
    using sendto_accepts [of loaded_commu "[]" "[1, 2]" 9 "\<lambda>_. (0, 0)" "Some (\<lambda>_ _ n. n + 1)" None "0 :: nat"]
    by (auto simp: u32_max_def)
qed


text \<open>A batch of sends, and the receiving process polling the same queue.\<close>

fun send_all :: "(int \<Rightarrow> int \<times> int) \<Rightarrow> msg list \<Rightarrow> shm_commu \<Rightarrow> (int list \<times> shm_commu) option" where
  "send_all kill [] cm = Some ([], cm)"
| "send_all kill ((flow, data) # ms) cm = do {
     (ret, _, cm1, _) \<leftarrow> sendto kill True None None flow data cm ();
     (rets, cm2) \<leftarrow> send_all kill ms cm1;
     Some (ret # rets, cm2)
   }"

definition msg_ok :: "msg \<Rightarrow> bool" where
  "msg_ok m \<longleftrightarrow> fst m < u32_max \<and> length (snd m) + 16 < u32_max"

lemma send_all_rel:
  assumes "mq_rel (cm_tx cm) sent" "list_all msg_ok ms" "mq_bytes (sent @ ms) < q_blocksize (cm_tx cm)"
  shows "\<exists>cm'. send_all kill ms cm = Some (replicate (length ms) 0, cm') \<and> mq_rel (cm_tx cm') (sent @ ms) \<and>
    q_blocksize (cm_tx cm') = q_blocksize (cm_tx cm)"
  using assms
proof (induction ms arbitrary: cm sent)
  case (Cons m ms)
  obtain flow data where m: "m = (flow, data)" by fastforce
  have ok: "length data + 16 < u32_max" "flow < u32_max" using Cons.prems(2) by (auto simp: m msg_ok_def)
  have "mq_bytes sent + length data + 16 < q_blocksize (cm_tx cm)" using Cons.prems(3) by (simp add: m)
  from sendto_rel(1) [OF Cons.prems(1) ok this, of kill None None "()"] obtain cm1 n where
    cm1: "sendto kill True None None flow data cm () = Some (0, n, cm1, ())"
      "mq_rel (cm_tx cm1) (sent @ [m])" "q_blocksize (cm_tx cm1) = q_blocksize (cm_tx cm)"
    by (auto simp: m)
  show ?case
    using Cons.IH [OF cm1(2)] Cons.prems(2,3) cm1(3) by (auto simp: m cm1(1))
qed simp

text \<open>C23: what one process sends, the other receives. If the batch fits the queue beside the messages
  already in it, every \<open>sendto\<close> returns 0, and a blocking \<open>poll\<close> of the process that consumes
  the same queue delivers the earlier messages and then the batch, unchanged and in order.\<close>

theorem send_then_poll:
  assumes "mq_rel (cm_tx a) sent" and "list_all msg_ok ms"
    and "mq_bytes (sent @ ms) < q_blocksize (cm_tx a)"
    and "q_blocksize (cm_tx a) \<le> length (rx_buf (cm_rx b))" and "length (rx_buf (cm_rx b)) < 2 ^ 31"
  shows "\<exists>a' b'. send_all kill ms a = Some (replicate (length ms) 0, a') \<and>
    poll kill True (\<lambda>flow data got. got @ [(flow, data)]) True (b\<lparr>cm_rx := (cm_rx b)\<lparr>rx_q := cm_tx a'\<rparr>\<rparr>) [] =
      Some (length (sent @ ms), b', sent @ ms)"
proof -
  let ?cb = "\<lambda>flow data (got :: msg list). got @ [(flow, data)]"
  obtain a' where a': "send_all kill ms a = Some (replicate (length ms) 0, a')" "mq_rel (cm_tx a') (sent @ ms)"
    "q_blocksize (cm_tx a') = q_blocksize (cm_tx a)"
    using send_all_rel [OF assms(1-3)] by blast
  let ?b = "b\<lparr>cm_rx := (cm_rx b)\<lparr>rx_q := cm_tx a'\<rparr>\<rparr>"
  have "rx_rel (cm_rx ?b) (sent @ ms)" using a' assms(4,5) by (simp add: rx_rel_def)
  moreover have "fold (case_prod ?cb) xs acc = acc @ xs" for xs acc by (induction xs arbitrary: acc) auto
  ultimately show ?thesis
    using poll_rel [of ?b "sent @ ms" _ True kill ?cb "[]"] a'(1) by fastforce
qed

theorem send_then_poll_witness:
  "\<exists>a' b'. send_all (\<lambda>_. (0, 0)) [(8, [5]), (9, [6, 7])] loaded_commu = Some ([0, 0], a') \<and>
    poll (\<lambda>_. (0, 0)) True (\<lambda>flow data got. got @ [(flow, data)]) True
      (loaded_commu\<lparr>cm_rx := \<lparr>rx_buf = replicate 64 0, rx_len = 64, rx_flow = 0, rx_q = cm_tx a'\<rparr>\<rparr>) [] =
      Some (length [8, 9 :: nat], b', [(8, [5]), (9, [6, 7])])"
proof -
  let ?b = "loaded_commu\<lparr>cm_rx := \<lparr>rx_buf = replicate 64 0, rx_len = 64, rx_flow = 0, rx_q = loaded_mq\<rparr>\<rparr>"
  have tx: "mq_rel (cm_tx loaded_commu) []" "q_blocksize (cm_tx loaded_commu) = 64"
    using empty_mq_rel [of 64 0] by (simp_all add: loaded_commu_def) (simp add: empty_mq_def)
  show ?thesis
    using send_then_poll [OF tx(1), of "[(8, [5]), (9, [6, 7])]" ?b "\<lambda>_. (0, 0)"] tx(2)
    by (simp del: send_all.simps add: msg_ok_def u32_max_def)
qed

text \<open>\<open>CTShmCommu::init\<close> on newly created segments, whose counters the system zeroes, yields a
  component whose two queues are empty and usable and whose receive buffer is large enough for
  every message the consumer queue can hold.\<close>

theorem commu_init_ready:
  assumes "commu_init locktype notify_fd p c = Some cm"
    and "\<not> sc_get p" and "q_msg_count (sc_seg p) = 0" and "12 < sc_size p" and "sc_size p < 2 ^ 31"
    and "length (q_block (sc_seg p)) = nat (sc_size p - 12)"
    and "\<not> sc_get c" and "q_msg_count (sc_seg c) = 0" and "12 < sc_size c" and "sc_size c < 2 ^ 31"
    and "length (q_block (sc_seg c)) = nat (sc_size c - 12)"
  shows "mq_rel (cm_tx cm) [] \<and> rx_rel (cm_rx cm) []"
proof -
  have init: "mq_rel q []" "q_blocksize q = nat (sc_size sc - 12)"
    if "side_init locked sc = (0, q)" "\<not> sc_get sc" "q_msg_count (sc_seg sc) = 0" "12 < sc_size sc"
      "sc_size sc < 2 ^ 31" "length (q_block (sc_seg sc)) = nat (sc_size sc - 12)" for locked sc q
    using that by (auto simp: side_init_def mq_init_def getmemory_def mq_rel_def mq_wf_def mq_used_def Let_def
        COMMU_ERR_SHMMAP_def COMMU_ERR_SHMNEW_def COMMU_ERR_FILEOPEN_def split: if_splits)
  obtain tx rq where s: "side_init (lock_producer locktype) p = (0, tx)" "side_init (lock_comsumer locktype) c = (0, rq)"
    and cm: "cm_tx cm = tx" "rx_q (cm_rx cm) = rq" "rx_buf (cm_rx cm) = replicate (nat (sc_size c)) 0"
    using assms(1) by (auto simp: commu_init_def Let_def split: prod.splits if_splits)
  show ?thesis
    using init [OF s(1) assms(2-6)] init [OF s(2) assms(7-11)] assms(9,10) by (simp add: rx_rel_def cm) linarith
qed

definition example_side :: "int \<Rightarrow> side_conf" where
  "example_side key = \<lparr>sc_key = key, sc_size = 76, sc_get = False, sc_create = True, sc_attach = True,
     sc_open = True, sc_seg = empty_mq 64 0\<rparr>"

theorem commu_init_ready_witness:
  "\<exists>cm. commu_init 3 5 (example_side 1) (example_side 2) = Some cm \<and> mq_rel (cm_tx cm) [] \<and> rx_rel (cm_rx cm) []"
proof -
  obtain cm where "commu_init 3 5 (example_side 1) (example_side 2) = Some cm"
    by (simp add: commu_init_def side_init_def mq_init_def getmemory_def example_side_def)
  with commu_init_ready [OF this] show ?thesis by (simp add: example_side_def empty_mq_def)
qed

end
