(* ===== verification/Shm_MQ_Spsc.thy ===== *)
theory Shm_MQ_Spsc
  imports Shm_MQ_Fifo
begin

text \<open>
  One producer process and one consumer process on the same \<open>CShmMQ\<close> without a lock
  (\<open>LOCK_TYPE_NONE\<close>), as interleaved steps. Each call reads both cursors first, so it works on a
  view in which the other side's cursor may be stale; the producer's bytes reach the block in any
  order before \<open>*tail_\<close> is stored, and the counters of \<open>Q_STATINFO\<close> change in steps of their
  own. Loads and stores are taken in program order.
\<close>

section \<open>The step relation\<close>

datatype pphase = PIdle | PBusy nat "byte list" nat | PWrote nat "byte list" nat | PPublished | PFailed
datatype cphase = CIdle | CBusy nat | CGot nat "byte list" nat | CFailed

text \<open>\<open>sp_sent\<close> and \<open>sp_got\<close> record the messages published and consumed so far.\<close>

record spsc =
  sp_q :: shm_mq
  sp_prod :: pphase
  sp_cons :: cphase
  sp_sent :: "msg list"
  sp_got :: "msg list"

definition prod_view :: "nat \<Rightarrow> shm_mq \<Rightarrow> shm_mq" where
  "prod_view h q = q\<lparr>q_head := h, q_msg_count := 0\<rparr>"

inductive spsc_step :: "(int \<Rightarrow> int \<times> int) \<Rightarrow> byte list \<Rightarrow> spsc \<Rightarrow> spsc \<Rightarrow> bool"
  for kill :: "int \<Rightarrow> int \<times> int" and buf :: "byte list" where
  p_start: "sp_prod s = PIdle \<Longrightarrow> f < u32_max \<Longrightarrow> length d + 16 < u32_max \<Longrightarrow>
    spsc_step kill buf s (s\<lparr>sp_prod := PBusy f d (q_head (sp_q s))\<rparr>)"
| p_full: "sp_prod s = PBusy f d h \<Longrightarrow>
    enqueue kill d (length d) f (prod_view h (sp_q s)) = Some (COMMU_ERR_MQFULL, q') \<Longrightarrow>
    spsc_step kill buf s (s\<lparr>sp_prod := PIdle\<rparr>)"
| p_fail: "sp_prod s = PBusy f d h \<Longrightarrow>
    (case enqueue kill d (length d) f (prod_view h (sp_q s)) of None \<Rightarrow> True
     | Some (r, _) \<Rightarrow> r < 0 \<and> r \<noteq> COMMU_ERR_MQFULL) \<Longrightarrow>
    spsc_step kill buf s (s\<lparr>sp_prod := PFailed\<rparr>)"
| p_torn: "sp_prod s = PBusy f d h \<Longrightarrow>
    enqueue kill d (length d) f (prod_view h (sp_q s)) = Some (r, q') \<Longrightarrow> 0 \<le> r \<Longrightarrow>
    length junk \<le> length d + 16 \<Longrightarrow>
    spsc_step kill buf s (s\<lparr>sp_q := (sp_q s)\<lparr>q_block := ring_put (q_block (sp_q s)) (q_tail (sp_q s)) junk\<rparr>\<rparr>)"
| p_write: "sp_prod s = PBusy f d h \<Longrightarrow>
    enqueue kill d (length d) f (prod_view h (sp_q s)) = Some (r, q') \<Longrightarrow> 0 \<le> r \<Longrightarrow>
    spsc_step kill buf s (s\<lparr>sp_q := (sp_q s)\<lparr>q_block := q_block q'\<rparr>, sp_prod := PWrote f d (q_tail q')\<rparr>)"
| p_publish: "sp_prod s = PWrote f d t \<Longrightarrow>
    spsc_step kill buf s (s\<lparr>sp_q := (sp_q s)\<lparr>q_tail := t\<rparr>, sp_prod := PPublished, sp_sent := sp_sent s @ [(f, d)]\<rparr>)"
| p_count: "sp_prod s = PPublished \<Longrightarrow>
    spsc_step kill buf s (s\<lparr>sp_q := (sp_q s)\<lparr>q_msg_count := q_msg_count (sp_q s) + 1\<rparr>, sp_prod := PIdle\<rparr>)"
| c_start: "sp_cons s = CIdle \<Longrightarrow> q_head (sp_q s) \<noteq> q_tail (sp_q s) \<Longrightarrow>
    spsc_step kill buf s (s\<lparr>sp_q := (sp_q s)\<lparr>q_msg_count := q_msg_count (sp_q s) - 1\<rparr>,
      sp_cons := CBusy (q_tail (sp_q s))\<rparr>)"
| c_read: "sp_cons s = CBusy t \<Longrightarrow>
    dequeue kill buf (length buf) 0 ((sp_q s)\<lparr>q_tail := t\<rparr>) = Some (out, q') \<Longrightarrow> d_ret out = 0 \<Longrightarrow>
    spsc_step kill buf s (s\<lparr>sp_cons := CGot (d_flow out) (take (d_len out) (d_buf out)) (q_head q')\<rparr>)"
| c_fail: "sp_cons s = CBusy t \<Longrightarrow>
    (case dequeue kill buf (length buf) 0 ((sp_q s)\<lparr>q_tail := t\<rparr>) of None \<Rightarrow> True
     | Some (out, _) \<Rightarrow> d_ret out \<noteq> 0) \<Longrightarrow>
    spsc_step kill buf s (s\<lparr>sp_cons := CFailed\<rparr>)"
| c_publish: "sp_cons s = CGot f d h \<Longrightarrow>
    spsc_step kill buf s (s\<lparr>sp_q := (sp_q s)\<lparr>q_head := h\<rparr>, sp_cons := CIdle, sp_got := sp_got s @ [(f, d)]\<rparr>)"

section \<open>The ring between the cursors\<close>

text \<open>The representation relation without the counter, which other steps keep.\<close>

definition holds :: "shm_mq \<Rightarrow> msg list \<Rightarrow> bool" where
  "holds q msgs \<longleftrightarrow> mq_rel (q\<lparr>q_msg_count := int (length msgs)\<rparr>) msgs"

lemma mq_used_count [simp]:
  "mq_used (q\<lparr>q_msg_count := k\<rparr>) = mq_used q" "mq_used (q\<lparr>q_block := m\<rparr>) = mq_used q"
  "mq_wf (q\<lparr>q_msg_count := k\<rparr>) = mq_wf q"
  by (simp_all add: mq_used_def mq_wf_def)

lemma holds_iff:
  "holds q msgs \<longleftrightarrow> mq_wf q \<and> (\<forall>(flow, data) \<in> set msgs. flow < u32_max) \<and>
     ring_get (q_block q) (q_head q) (mq_used q) = concat (map encode_msg msgs)"
  by (simp add: holds_def mq_rel_def)

lemma holds_used: "holds q msgs \<Longrightarrow> mq_used q = mq_bytes msgs"
  using mq_rel_used [of "q\<lparr>q_msg_count := int (length msgs)\<rparr>" msgs] by (simp add: holds_def)

lemma mq_rel_holds: "mq_rel q msgs \<Longrightarrow> holds q msgs"
  by (auto simp: holds_def mq_rel_def)

lemma holds_cong:
  assumes "holds q msgs" "q_attached q' = q_attached q" "q_block q' = q_block q" "q_blocksize q' = q_blocksize q"
    "q_head q' = q_head q" "q_tail q' = q_tail q"
  shows "holds q' msgs"
proof -
  have "mq_used q' = mq_used q" by (simp add: mq_used_def assms(2-))
  then show ?thesis using assms(1) by (simp add: holds_iff mq_wf_def assms(2-))
qed

text \<open>Writing behind the write cursor, as far as a possibly stale read cursor allows, keeps what any
  view of the queue holds.\<close>

lemma holds_ring_put:
  assumes q: "holds q msgs" and v: "holds (q\<lparr>q_tail := t\<rparr>) ps" and le: "mq_bytes ps \<le> mq_bytes msgs"
    and room: "mq_bytes msgs + length bs \<le> q_blocksize q"
  shows "holds (q\<lparr>q_tail := t, q_block := ring_put (q_block q) (q_tail q) bs\<rparr>) ps"
proof -
  have wf: "mq_wf q" using q by (simp add: holds_iff)
  note c = mq_wf_cursors [OF wf]
  note uq = holds_used [OF q] and uv = holds_used [OF v]
  let ?m = "ring_put (q_block q) (q_tail q) bs"
  have "ring_get ?m (q_head q) (mq_bytes msgs) = ring_get (q_block q) (q_head q) (mq_bytes msgs)"
    using room c(1) mq_used_tail(1) [OF wf] uq by (intro ring_get_put_after) auto
  then have "ring_get ?m (q_head q) (mq_bytes ps) = ring_get (q_block q) (q_head q) (mq_bytes ps)"
    using le by (metis ring_get_take)
  then show ?thesis using v uv c(1) by (auto simp: holds_iff mq_wf_def mq_used_def)
qed


lemma holds_ring_put_self:
  assumes "holds q msgs" "mq_bytes msgs + length bs \<le> q_blocksize q"
  shows "holds (q\<lparr>q_block := ring_put (q_block q) (q_tail q) bs\<rparr>) msgs"
  using holds_ring_put [of q msgs "q_tail q" msgs bs] assms by simp

lemma holds_snoc:
  assumes q: "holds q msgs" and room: "mq_bytes msgs + length d + 16 < q_blocksize q" and f: "f < u32_max"
  shows "holds (q\<lparr>q_block := ring_put (q_block q) (q_tail q) (encode_msg (f, d)),
      q_tail := ring_next (q_blocksize q) (q_tail q) (length d + 16)\<rparr>) (msgs @ [(f, d)])"
  using mq_rel_snoc [of "q\<lparr>q_msg_count := int (length msgs)\<rparr>" msgs d f] assms holds_used [OF q]
  by (simp add: holds_def add.commute)

lemma holds_tl:
  assumes "holds q ((f, d) # ms)"
  shows "holds (q\<lparr>q_head := ring_next (q_blocksize q) (q_head q) (length d + 16)\<rparr>) ms"
  by (rule holds_cong [OF mq_rel_holds [OF mq_rel_tl [OF assms [unfolded holds_def], of 0]]]) simp_all

lemma enqueue_view:
  assumes v: "holds (q\<lparr>q_head := h\<rparr>) ms" and d: "length d + 16 < u32_max"
  shows "enqueue kill d (length d) f (prod_view h q) =
    (if mq_bytes ms + length d + 16 < q_blocksize q
     then Some (1, (prod_view h q)\<lparr>q_block := ring_put (q_block q) (q_tail q) (encode_msg (f, d)),
       q_tail := ring_next (q_blocksize q) (q_tail q) (length d + 16), q_msg_count := 1\<rparr>)
     else Some (COMMU_ERR_MQFULL, prod_view h q))"
proof -
  have wf: "mq_wf (q\<lparr>q_head := h\<rparr>)" using v by (simp add: holds_iff)
  have "mq_used (prod_view h q) = mq_used (q\<lparr>q_head := h\<rparr>)" by (simp add: prod_view_def mq_used_def)
  then have "mq_used (prod_view h q) = mq_bytes ms" using holds_used [OF v] by simp
  then show ?thesis
    using enqueue_cursors [of "prod_view h q" d kill f] mq_wf_cursors [OF wf] d by (simp add: prod_view_def)
qed

lemma dequeue_view:
  assumes v: "holds (q\<lparr>q_tail := t\<rparr>) ((f, d) # ps)" and b: "q_blocksize q \<le> length buf" "length buf < 2 ^ 31"
  shows "\<exists>out q'. dequeue kill buf (length buf) 0 (q\<lparr>q_tail := t\<rparr>) = Some (out, q') \<and> d_ret out = 0 \<and>
    d_flow out = f \<and> take (d_len out) (d_buf out) = d \<and>
    q_head q' = ring_next (q_blocksize q) (q_head q) (length d + 16)"
proof -
  let ?v = "q\<lparr>q_tail := t\<rparr>" and ?n = "int (length ((f, d) # ps))"
  have rel: "mq_rel (?v\<lparr>q_msg_count := ?n\<rparr>) ((f, d) # ps)" using v by (simp add: holds_def)
  have m: "mq_mapped ?v" "q_head ?v \<le> q_blocksize ?v" "q_tail ?v \<le> q_blocksize ?v" "q_head ?v \<noteq> q_tail ?v"
    using mq_rel_mapped [OF rel] by (simp_all add: mq_mapped_def)
  have fr: "front_magic ?v = C_SAFE_AREA_VAL" "front_total ?v = length d + 16" "front_flow ?v = f"
    "front_body ?v = d @ le32 C_SAFE_AREA_VAL"
    using mq_rel_front(1-4) [OF rel] by (simp_all add: front_magic_def front_total_def front_flow_def front_body_def)
  have u: "length d + 16 \<le> mq_used ?v" "mq_used ?v < q_blocksize q"
    using holds_used [OF v] v mq_wf_cursors(5) [of ?v] by (simp_all add: holds_iff)
  show ?thesis
    using dequeue_eq [OF m b(2), of kill 0] u b(1) by (simp add: fr)
qed

section \<open>The invariant\<close>

definition prod_inv :: "shm_mq \<Rightarrow> msg list \<Rightarrow> pphase \<Rightarrow> bool" where
  "prod_inv q pending p = (case p of
     PIdle \<Rightarrow> True
   | PBusy f d h \<Rightarrow> f < u32_max \<and> length d + 16 < u32_max \<and> (\<exists>ms. holds (q\<lparr>q_head := h\<rparr>) (ms @ pending))
   | PWrote f d t \<Rightarrow> holds (q\<lparr>q_tail := t\<rparr>) (pending @ [(f, d)])
   | PPublished \<Rightarrow> True
   | PFailed \<Rightarrow> False)"

definition cons_inv :: "shm_mq \<Rightarrow> msg list \<Rightarrow> cphase \<Rightarrow> bool" where
  "cons_inv q pending c = (case c of
     CIdle \<Rightarrow> True
   | CBusy t \<Rightarrow> (\<exists>f d ps ms. pending = (f, d) # ps @ ms \<and> holds (q\<lparr>q_tail := t\<rparr>) ((f, d) # ps))
   | CGot f d h \<Rightarrow> h = ring_next (q_blocksize q) (q_head q) (length d + 16) \<and> (\<exists>ms. pending = (f, d) # ms)
   | CFailed \<Rightarrow> False)"

text \<open>The counter lags behind by the calls that are under way.\<close>

definition count_inv :: "spsc \<Rightarrow> msg list \<Rightarrow> bool" where
  "count_inv s pending \<longleftrightarrow> q_msg_count (sp_q s) = int (length pending)
     - (if sp_prod s = PPublished then 1 else 0) - (if sp_cons s = CIdle then 0 else 1)"

definition spsc_inv :: "byte list \<Rightarrow> spsc \<Rightarrow> bool" where
  "spsc_inv buf s \<longleftrightarrow> q_blocksize (sp_q s) \<le> length buf \<and> (\<exists>pending. sp_sent s = sp_got s @ pending \<and>
     holds (sp_q s) pending \<and> prod_inv (sp_q s) pending (sp_prod s) \<and>
     cons_inv (sp_q s) pending (sp_cons s) \<and> count_inv s pending)"

text \<open>A write of the producer into the space it found free.\<close>

lemma producer_write:
  assumes q: "holds q pending" and v: "holds (q\<lparr>q_head := h\<rparr>) (ms @ pending)"
    and c: "cons_inv q pending c" and room: "mq_bytes (ms @ pending) + length bs \<le> q_blocksize q"
  defines "q' \<equiv> q\<lparr>q_block := ring_put (q_block q) (q_tail q) bs\<rparr>"
  shows "holds q' pending" "cons_inv q' pending c" "holds (q'\<lparr>q_head := h\<rparr>) (ms @ pending)"
proof -
  show "holds q' pending" unfolding q'_def using q room by (intro holds_ring_put_self) auto
  show "holds (q'\<lparr>q_head := h\<rparr>) (ms @ pending)"
    using holds_ring_put_self [OF v, of bs] room by (auto simp: q'_def elim: holds_cong)
  show "cons_inv q' pending c"
  proof (cases c)
    case (CBusy t)
    with c obtain f d ps ms' where p: "pending = (f, d) # ps @ ms'" "holds (q\<lparr>q_tail := t\<rparr>) ((f, d) # ps)"
      by (auto simp: cons_inv_def)
    have "holds (q\<lparr>q_tail := t, q_block := ring_put (q_block q) (q_tail q) bs\<rparr>) ((f, d) # ps)"
      using room by (intro holds_ring_put [OF q p(2)]) (auto simp: p(1))
    then have "holds (q'\<lparr>q_tail := t\<rparr>) ((f, d) # ps)" by (rule holds_cong) (simp_all add: q'_def)
    then show ?thesis using p(1) by (auto simp: cons_inv_def CBusy)
  qed (use c in \<open>auto simp: cons_inv_def q'_def\<close>)
qed


lemma holds_count [simp]:
  "holds (q\<lparr>q_msg_count := k\<rparr>) msgs = holds q msgs"
  "holds (q\<lparr>q_msg_count := k, q_head := h\<rparr>) msgs = holds (q\<lparr>q_head := h\<rparr>) msgs"
  "holds (q\<lparr>q_msg_count := k, q_tail := h\<rparr>) msgs = holds (q\<lparr>q_tail := h\<rparr>) msgs"
  by (auto elim!: holds_cong)

lemma inv_count [simp]:
  "prod_inv (q\<lparr>q_msg_count := k\<rparr>) pending p = prod_inv q pending p"
  "cons_inv (q\<lparr>q_msg_count := k\<rparr>) pending c = cons_inv q pending c"
  by (simp_all add: prod_inv_def cons_inv_def split: pphase.split cphase.split)

lemma holds_same_tail: "holds q msgs \<Longrightarrow> holds (q\<lparr>q_tail := q_tail q\<rparr>) msgs"
  by (auto elim: holds_cong)

lemma holds_empty_iff: "holds q msgs \<Longrightarrow> q_head q = q_tail q \<longleftrightarrow> msgs = []"
proof -
  assume h: "holds q msgs"
  then have "mq_bytes msgs = 0 \<longleftrightarrow> q_head q = q_tail q"
    using holds_used [OF h] mq_used_tail(2) [of q] by (simp add: holds_iff)
  moreover have "mq_bytes msgs = 0 \<longleftrightarrow> msgs = []" by (cases msgs) auto
  ultimately show ?thesis by simp
qed

lemma spsc_step_inv:
  assumes "spsc_step kill buf s s'" and b: "length buf < 2 ^ 31" and "spsc_inv buf s"
  shows "spsc_inv buf s'"
proof -
  obtain pending where bl: "q_blocksize (sp_q s) \<le> length buf" and sent: "sp_sent s = sp_got s @ pending"
    and q: "holds (sp_q s) pending" and pi: "prod_inv (sp_q s) pending (sp_prod s)"
    and ci: "cons_inv (sp_q s) pending (sp_cons s)" and n: "count_inv s pending"
    using assms(3) by (auto simp: spsc_inv_def)
  note C = spsc_inv_def count_inv_def
  have view: "\<exists>ms. holds ((sp_q s)\<lparr>q_head := h\<rparr>) (ms @ pending) \<and> f < u32_max \<and> length d + 16 < u32_max"
    if "sp_prod s = PBusy f d h" for f d h
    using pi that by (auto simp: prod_inv_def)
  have read: "\<exists>f d ps ms. pending = (f, d) # ps @ ms \<and> holds ((sp_q s)\<lparr>q_tail := t\<rparr>) ((f, d) # ps)"
    if "sp_cons s = CBusy t" for t
    using ci that by (simp add: cons_inv_def)
  show ?thesis
    using assms(1)
  proof cases
    case (p_start f d)
    have "holds ((sp_q s)\<lparr>q_head := q_head (sp_q s)\<rparr>) ([] @ pending)" using q by (auto elim: holds_cong)
    then have "\<exists>ms. holds ((sp_q s)\<lparr>q_head := q_head (sp_q s)\<rparr>) (ms @ pending)" by blast
    then show ?thesis using p_start bl sent q ci n by (auto simp: C prod_inv_def)
  next
    case (p_full f d h q')
    then show ?thesis using bl sent q ci n by (auto simp: C prod_inv_def)
  next
    case (p_fail f d h)
    then show ?thesis using view [OF p_fail(2)] by (auto simp: enqueue_view split: if_splits)
  next
    case (p_torn f d h r q' junk)
    obtain ms where ms: "holds ((sp_q s)\<lparr>q_head := h\<rparr>) (ms @ pending)" "f < u32_max" "length d + 16 < u32_max"
      using view [OF p_torn(2)] by blast
    have "mq_bytes (ms @ pending) + length junk \<le> q_blocksize (sp_q s)"
      using p_torn(3-5) enqueue_view [OF ms(1,3), of kill f] by (auto simp: COMMU_ERR_MQFULL_def split: if_splits)
    from producer_write [OF q ms(1) ci this] show ?thesis
      using p_torn(1,2) ms bl sent n by (auto simp: C prod_inv_def)
  next
    case (p_write f d h r q')
    obtain ms where ms: "holds ((sp_q s)\<lparr>q_head := h\<rparr>) (ms @ pending)" "f < u32_max" "length d + 16 < u32_max"
      using view [OF p_write(2)] by blast
    have room: "mq_bytes (ms @ pending) + length d + 16 < q_blocksize (sp_q s)"
      and q': "q_block q' = ring_put (q_block (sp_q s)) (q_tail (sp_q s)) (encode_msg (f, d))"
        "q_tail q' = ring_next (q_blocksize (sp_q s)) (q_tail (sp_q s)) (length d + 16)"
      using p_write(3,4) enqueue_view [OF ms(1,3), of kill f] by (auto simp: COMMU_ERR_MQFULL_def split: if_splits)
    have "mq_bytes (ms @ pending) + length (encode_msg (f, d)) \<le> q_blocksize (sp_q s)" using room by simp
    from producer_write [OF q ms(1) ci this] show ?thesis
      using p_write(1,2) bl sent n holds_snoc [OF q _ ms(2), of d] room by (auto simp: C prod_inv_def q')
  next
    case (p_publish f d t)
    then have "holds ((sp_q s)\<lparr>q_tail := t\<rparr>) (pending @ [(f, d)])" using pi by (simp add: prod_inv_def)
    moreover have "cons_inv ((sp_q s)\<lparr>q_tail := t\<rparr>) (pending @ [(f, d)]) (sp_cons s)"
      using ci by (fastforce simp: cons_inv_def split: cphase.splits)
    ultimately show ?thesis
      using p_publish bl sent n by (auto simp: C prod_inv_def)
  next
    case p_count
    then show ?thesis using bl sent q ci n by (auto simp: C prod_inv_def)
  next
    case c_start
    then obtain f d ps where p: "pending = (f, d) # ps" using holds_empty_iff [OF q] by (cases pending) auto
    have "cons_inv (sp_q s) pending (CBusy (q_tail (sp_q s)))"
      using holds_same_tail [OF q] p by (force simp: cons_inv_def)
    then show ?thesis using c_start bl sent q pi n by (auto simp: C)
  next
    case (c_read t out q')
    obtain f d ps ms where p: "pending = (f, d) # ps @ ms" "holds ((sp_q s)\<lparr>q_tail := t\<rparr>) ((f, d) # ps)"
      using read [OF c_read(2)] by blast
    have "cons_inv (sp_q s) pending (CGot (d_flow out) (take (d_len out) (d_buf out)) (q_head q'))"
      using dequeue_view [OF p(2) bl b, of kill] c_read(3,4) by (auto simp: cons_inv_def p(1))
    then show ?thesis using c_read(1,2) bl sent q pi n by (auto simp: C)
  next
    case (c_fail t)
    obtain f d ps ms where p: "holds ((sp_q s)\<lparr>q_tail := t\<rparr>) ((f, d) # ps)"
      using read [OF c_fail(2)] by blast
    then show ?thesis using dequeue_view [OF p bl b, of kill] c_fail(3) by auto
  next
    case (c_publish f d h)
    then obtain ms where p: "pending = (f, d) # ms"
      and h: "h = ring_next (q_blocksize (sp_q s)) (q_head (sp_q s)) (length d + 16)"
      using ci by (auto simp: cons_inv_def)
    have "holds ((sp_q s)\<lparr>q_head := h\<rparr>) ms" using q holds_tl by (simp add: p h)
    moreover have "prod_inv ((sp_q s)\<lparr>q_head := h\<rparr>) ms (sp_prod s)"
    proof (cases "sp_prod s")
      case (PBusy f' d' h')
      obtain ms0 where "holds ((sp_q s)\<lparr>q_head := h'\<rparr>) (ms0 @ pending)" "f' < u32_max" "length d' + 16 < u32_max"
        using view [OF PBusy] by blast
      then show ?thesis by (auto simp: prod_inv_def PBusy p intro: exI [of _ "ms0 @ [(f, d)]"])
    next
      case (PWrote f' d' t)
      then have "holds ((sp_q s)\<lparr>q_tail := t\<rparr>) ((f, d) # ms @ [(f', d')])" using pi by (simp add: prod_inv_def p)
      from holds_tl [OF this] have "holds ((sp_q s)\<lparr>q_head := h, q_tail := t\<rparr>) (ms @ [(f', d')])"
        by (auto simp: h elim: holds_cong)
      then show ?thesis by (simp add: prod_inv_def PWrote)
    qed (use pi in \<open>auto simp: prod_inv_def\<close>)
    ultimately show ?thesis
      using c_publish bl sent n by (auto simp: C p cons_inv_def)
  qed
qed


section \<open>Properties\<close>

definition spsc_start :: "shm_mq \<Rightarrow> msg list \<Rightarrow> spsc" where
  "spsc_start q msgs = \<lparr>sp_q = q, sp_prod = PIdle, sp_cons = CIdle, sp_sent = msgs, sp_got = []\<rparr>"

lemma spsc_reach_inv:
  assumes "rtranclp (spsc_step kill buf) (spsc_start q msgs) s" "mq_rel q msgs"
    "q_blocksize q \<le> length buf" "length buf < 2 ^ 31"
  shows "spsc_inv buf s"
  using assms(1)
proof induction
  case base
  then show ?case
    using assms(2,3) mq_rel_holds [OF assms(2)]
    by (simp add: spsc_inv_def spsc_start_def prod_inv_def cons_inv_def count_inv_def mq_rel_def)
qed (use spsc_step_inv assms(4) in blast)

lemma holds_mq_rel: "holds q msgs \<Longrightarrow> q_msg_count q = int (length msgs) \<Longrightarrow> mq_rel q msgs"
  by (simp add: holds_iff mq_rel_def)

text \<open>C6: without any lock, one producer and one consumer that interleave in any order never see a
  damaged record, never fail and never leave the block: the messages consumed are always an initial
  part of the messages published, unchanged and in order, and whenever both sides are between calls
  the queue holds exactly the others and its counter is their number.\<close>

theorem spsc_fifo:
  assumes "rtranclp (spsc_step kill buf) (spsc_start q msgs) s" and "mq_rel q msgs"
    and "q_blocksize q \<le> length buf" and "length buf < 2 ^ 31"
  shows "sp_prod s \<noteq> PFailed \<and> sp_cons s \<noteq> CFailed \<and>
    (\<exists>pending. sp_sent s = sp_got s @ pending \<and>
       (sp_prod s = PIdle \<and> sp_cons s = CIdle \<longrightarrow> mq_rel (sp_q s) pending))"
  using spsc_reach_inv [OF assms]
  by (auto simp: spsc_inv_def prod_inv_def cons_inv_def count_inv_def holds_mq_rel)

theorem spsc_fifo_witness:
  "\<exists>s. rtranclp (spsc_step (\<lambda>_. (0, 0)) (replicate 60 0)) (spsc_start loaded_mq [(7, [1, 2, 3]), (8, [])]) s \<and>
    sp_prod s = PBusy 9 [4] 40 \<and> sp_cons s \<noteq> CFailed"
proof -
  let ?s = "spsc_start loaded_mq [(7, [1, 2, 3]), (8, [])]"
  have "spsc_step (\<lambda>_. (0, 0)) (replicate 60 0) ?s (?s\<lparr>sp_prod := PBusy 9 [4] (q_head (sp_q ?s))\<rparr>)"
    by (rule p_start) (simp_all add: spsc_start_def u32_max_def)
  then have r: "rtranclp (spsc_step (\<lambda>_. (0, 0)) (replicate 60 0)) ?s (?s\<lparr>sp_prod := PBusy 9 [4] (q_head (sp_q ?s))\<rparr>)" ..
  moreover have "q_head (sp_q ?s) = 40" by (simp add: spsc_start_def loaded_mq_def empty_mq_def)
  ultimately show ?thesis
    using spsc_fifo [OF r loaded_mq_rel] by auto
qed

text \<open>The consumer alone, with the producer stopped in any phase: it ends the call it is in, takes one more
  message, takes all of them.\<close>

lemma consumer_ends:
  assumes inv: "spsc_inv buf s" and b: "length buf < 2 ^ 31"
  obtains s' where "rtranclp (spsc_step kill buf) s s'" "sp_cons s' = CIdle" "sp_prod s' = sp_prod s" "sp_sent s' = sp_sent s"
proof -
  note that_thesis = that
  obtain pending where bl: "q_blocksize (sp_q s) \<le> length buf" and ci: "cons_inv (sp_q s) pending (sp_cons s)"
    using inv by (auto simp: spsc_inv_def)
  have publish: thesis if "rtranclp (spsc_step kill buf) s u" "sp_cons u = CGot f d h" "sp_prod u = sp_prod s" "sp_sent u = sp_sent s"
    for u f d h
    by (rule that_thesis [OF rtranclp.rtrancl_into_rtrancl [OF that(1) c_publish [OF that(2)]]]) (simp_all add: that)
  show thesis
  proof (cases "sp_cons s")
    case CIdle
    then show thesis by (intro that_thesis [of s]) simp_all
  next
    case (CBusy t)
    then obtain f d ps where "holds ((sp_q s)\<lparr>q_tail := t\<rparr>) ((f, d) # ps)" using ci by (auto simp: cons_inv_def)
    from dequeue_view [OF this bl b, of kill] obtain out q' where
      "dequeue kill buf (length buf) 0 ((sp_q s)\<lparr>q_tail := t\<rparr>) = Some (out, q')" "d_ret out = 0" by blast
    from c_read [OF CBusy this] show thesis by (rule publish [OF r_into_rtranclp [where r = "spsc_step kill buf"]]) simp_all
  next
    case (CGot f d h)
    then show thesis by (intro publish [of s]) simp_all
  next
    case CFailed
    then show thesis using ci by (simp add: cons_inv_def)
  qed
qed

lemma consumer_takes_one:
  assumes inv: "spsc_inv buf s" and b: "length buf < 2 ^ 31" and idle: "sp_cons s = CIdle"
    and sent: "sp_sent s = sp_got s @ m # ms"
  shows "\<exists>s'. rtranclp (spsc_step kill buf) s s' \<and> sp_got s' = sp_got s @ [m] \<and>
    sp_sent s' = sp_sent s \<and> sp_prod s' = sp_prod s \<and> sp_cons s' = CIdle"
proof -
  obtain f d where m: "m = (f, d)" by fastforce
  have q: "holds (sp_q s) ((f, d) # ms)" and bl: "q_blocksize (sp_q s) \<le> length buf"
    using inv sent by (auto simp: spsc_inv_def m)
  let ?q1 = "(sp_q s)\<lparr>q_msg_count := q_msg_count (sp_q s) - 1\<rparr>"
  let ?s1 = "s\<lparr>sp_q := ?q1, sp_cons := CBusy (q_tail (sp_q s))\<rparr>"
  have 1: "spsc_step kill buf s ?s1"
    using c_start [OF idle, of kill buf] holds_empty_iff [OF q] by simp
  have v: "holds (?q1\<lparr>q_tail := q_tail (sp_q s)\<rparr>) ((f, d) # ms)" using holds_same_tail [OF q] by simp
  obtain out q' where out: "dequeue kill buf (length buf) 0 (?q1\<lparr>q_tail := q_tail (sp_q s)\<rparr>) = Some (out, q')"
    "d_ret out = 0" "d_flow out = f" "take (d_len out) (d_buf out) = d"
    using dequeue_view [OF v _ b, of kill] bl by auto
  let ?s2 = "?s1\<lparr>sp_cons := CGot f d (q_head q')\<rparr>"
  have 2: "spsc_step kill buf ?s1 ?s2"
    using c_read [of ?s1 "q_tail (sp_q s)" kill buf out q'] out by simp
  let ?s3 = "?s2\<lparr>sp_q := (sp_q ?s2)\<lparr>q_head := q_head q'\<rparr>, sp_cons := CIdle, sp_got := sp_got s @ [(f, d)]\<rparr>"
  have 3: "spsc_step kill buf ?s2 ?s3" using c_publish [of ?s2 f d "q_head q'" kill buf] by simp
  have "rtranclp (spsc_step kill buf) s ?s3" using 1 2 3 by (meson rtranclp.intros)
  then show ?thesis by (intro exI [of _ ?s3]) (simp add: m)
qed

lemma spsc_run_inv: "rtranclp (spsc_step kill buf) s s' \<Longrightarrow> length buf < 2 ^ 31 \<Longrightarrow> spsc_inv buf s \<Longrightarrow> spsc_inv buf s'"
  by (induction rule: rtranclp_induct) (use spsc_step_inv in blast)+

lemma consumer_drains:
  assumes b: "length buf < 2 ^ 31"
  shows "spsc_inv buf s \<Longrightarrow> sp_cons s = CIdle \<Longrightarrow> sp_sent s = sp_got s @ ms \<Longrightarrow>
    \<exists>s'. rtranclp (spsc_step kill buf) s s' \<and> sp_got s' = sp_sent s \<and> sp_sent s' = sp_sent s \<and> sp_prod s' = sp_prod s \<and> sp_cons s' = CIdle"
proof (induction ms arbitrary: s)
  case Nil
  then show ?case by auto
next
  case (Cons m ms)
  obtain u where u: "rtranclp (spsc_step kill buf) s u" "sp_got u = sp_got s @ [m]" "sp_sent u = sp_sent s" "sp_prod u = sp_prod s"
    "sp_cons u = CIdle" using consumer_takes_one [OF Cons.prems(1) b Cons.prems(2,3)] by blast
  have "sp_sent u = sp_got u @ ms" using u(2,3) Cons.prems(3) by simp
  from Cons.IH [OF spsc_run_inv [OF u(1) b Cons.prems(1)] u(5) this] u show ?case
    by (metis rtranclp_trans)
qed

text \<open>The producer alone ends the call it is in.\<close>

lemma producer_ends:
  assumes inv: "spsc_inv buf s"
  shows "\<exists>s'. rtranclp (spsc_step kill buf) s s' \<and> sp_prod s' = PIdle \<and> sp_cons s' = sp_cons s \<and> sp_got s' = sp_got s \<and>
    (case sp_prod s of PBusy f d h \<Rightarrow> sp_sent s' = sp_sent s \<or> sp_sent s' = sp_sent s @ [(f, d)]
     | PWrote f d t \<Rightarrow> sp_sent s' = sp_sent s @ [(f, d)] | _ \<Rightarrow> sp_sent s' = sp_sent s)"
proof -
  obtain pending where pi: "prod_inv (sp_q s) pending (sp_prod s)" using inv by (auto simp: spsc_inv_def)
  have tail: "\<exists>s'. rtranclp (spsc_step kill buf) u s' \<and> sp_prod s' = PIdle \<and> sp_cons s' = sp_cons u \<and> sp_got s' = sp_got u \<and>
      sp_sent s' = sp_sent u @ [(f, d)]" if "sp_prod u = PWrote f d t" for u f d t
  proof -
    let ?v = "u\<lparr>sp_q := (sp_q u)\<lparr>q_tail := t\<rparr>, sp_prod := PPublished, sp_sent := sp_sent u @ [(f, d)]\<rparr>"
    have "spsc_step kill buf u ?v" by (rule p_publish [OF that])
    moreover have "spsc_step kill buf ?v (?v\<lparr>sp_q := (sp_q ?v)\<lparr>q_msg_count := q_msg_count (sp_q ?v) + 1\<rparr>, sp_prod := PIdle\<rparr>)"
      by (rule p_count) simp
    ultimately have "rtranclp (spsc_step kill buf) u (?v\<lparr>sp_q := (sp_q ?v)\<lparr>q_msg_count := q_msg_count (sp_q ?v) + 1\<rparr>, sp_prod := PIdle\<rparr>)"
      by (meson rtranclp.intros)
    then show ?thesis by (intro exI conjI) (assumption | simp)+
  qed
  show ?thesis
  proof (cases "sp_prod s")
    case PIdle
    then show ?thesis by auto
  next
    case (PBusy f d h)
    then obtain ms where v: "length d + 16 < u32_max" "holds ((sp_q s)\<lparr>q_head := h\<rparr>) (ms @ pending)"
      using pi by (auto simp: prod_inv_def)
    note e = enqueue_view [OF v(2,1), of kill f]
    show ?thesis
    proof (cases "mq_bytes (ms @ pending) + length d + 16 < q_blocksize (sp_q s)")
      case True
      then obtain q' where "enqueue kill d (length d) f (prod_view h (sp_q s)) = Some (1, q')" using e by simp
      note w = p_write [OF PBusy this, of buf]
      let ?u = "s\<lparr>sp_q := (sp_q s)\<lparr>q_block := q_block q'\<rparr>, sp_prod := PWrote f d (q_tail q')\<rparr>"
      from tail [of ?u f d "q_tail q'"] w obtain s' where "rtranclp (spsc_step kill buf) s s'" "sp_prod s' = PIdle" "sp_cons s' = sp_cons s"
        "sp_got s' = sp_got s" "sp_sent s' = sp_sent s @ [(f, d)]" by (auto intro: converse_rtranclp_into_rtranclp)
      then show ?thesis using PBusy by auto
    next
      case False
      then have "enqueue kill d (length d) f (prod_view h (sp_q s)) = Some (COMMU_ERR_MQFULL, prod_view h (sp_q s))" using e by simp
      note w = p_full [OF PBusy this, of buf]
      show ?thesis by (intro exI conjI, rule r_into_rtranclp [where r = "spsc_step kill buf", OF w]) (simp_all add: PBusy)
    qed
  next
    case (PWrote f d t)
    then show ?thesis using tail [of s f d t] by simp
  next
    case PPublished
    show ?thesis by (intro exI conjI, rule r_into_rtranclp [where r = "spsc_step kill buf", OF p_count [OF PPublished]]) (simp_all add: PPublished)
  next
    case PFailed
    then show ?thesis using pi by (simp add: prod_inv_def)
  qed
qed

text \<open>C24: neither side ever waits for the other. From every reachable state, in whatever phases the two
  are, the consumer can end the call it is in and take every message published so far while the producer
  stays where it is; and the producer can end the call it is in while the consumer stays where it is, its
  message then published or, if it found the queue full, refused.\<close>

theorem spsc_progress:
  assumes "rtranclp (spsc_step kill buf) (spsc_start q msgs) s" and "mq_rel q msgs"
    and "q_blocksize q \<le> length buf" and "length buf < 2 ^ 31"
  shows "(\<exists>s'. rtranclp (spsc_step kill buf) s s' \<and> sp_cons s' = CIdle \<and> sp_prod s' = sp_prod s \<and>
      sp_sent s' = sp_sent s \<and> sp_got s' = sp_sent s) \<and>
    (\<exists>s'. rtranclp (spsc_step kill buf) s s' \<and> sp_prod s' = PIdle \<and> sp_cons s' = sp_cons s \<and> sp_got s' = sp_got s \<and>
      (case sp_prod s of PBusy f d h \<Rightarrow> sp_sent s' = sp_sent s \<or> sp_sent s' = sp_sent s @ [(f, d)]
       | PWrote f d t \<Rightarrow> sp_sent s' = sp_sent s @ [(f, d)] | _ \<Rightarrow> sp_sent s' = sp_sent s))"
proof (rule conjI)
  have inv: "spsc_inv buf s" by (rule spsc_reach_inv [OF assms])
  obtain u where u: "rtranclp (spsc_step kill buf) s u" "sp_cons u = CIdle" "sp_prod u = sp_prod s" "sp_sent u = sp_sent s"
    by (rule consumer_ends [OF inv assms(4)])
  have iu: "spsc_inv buf u" by (rule spsc_run_inv [OF u(1) assms(4) inv])
  then obtain ms where "sp_sent u = sp_got u @ ms" by (auto simp: spsc_inv_def)
  from consumer_drains [OF assms(4) iu u(2) this, of kill] u
  show "\<exists>s'. rtranclp (spsc_step kill buf) s s' \<and> sp_cons s' = CIdle \<and> sp_prod s' = sp_prod s \<and>
      sp_sent s' = sp_sent s \<and> sp_got s' = sp_sent s" by (metis rtranclp_trans)
qed (rule producer_ends [OF spsc_reach_inv [OF assms]])

theorem spsc_progress_witness:
  "\<exists>s'. rtranclp (spsc_step (\<lambda>_. (0, 0)) (replicate 60 0)) (spsc_start loaded_mq [(7, [1, 2, 3]), (8, [])]) s' \<and>
    sp_got s' = [(7, [1, 2, 3]), (8, [])]"
  using spsc_progress [OF rtranclp.rtrancl_refl loaded_mq_rel, of "replicate 60 0" "\<lambda>_. (0, 0)"]
  by (auto simp: spsc_start_def)

end
