(* ===== verification/Hash_List.thy ===== *)
theory Hash_List
  imports Prelude "HOL-Library.Monad_Syntax"
begin

text \<open>
  The chained hash table \<open>HashList\<close> of the micro-thread library
  (\<open>sync_frame/micro_thread/hash_list.h\<close>; \<open>nest/comm/hash_list.h\<close> is the same code). The elements
  are intrusive: an element carries its own chain pointer and cached hash value, so they are
  fields of the store here. \<open>HashValue\<close> and \<open>HashCmp\<close> are virtual methods of the element and
  arguments of the operations.
\<close>

section \<open>State and operations\<close>

record hash_list =
  hl_next :: "ptr \<Rightarrow> ptr"
  hl_hash :: "ptr \<Rightarrow> nat"
  hl_data :: "ptr \<Rightarrow> ptr"
  hl_buckets :: "ptr list"
  hl_count :: int
  hl_max :: nat

text \<open>\<open>GetMaxPrimeNum\<close>. \<open>isqrt\<close> is the truncated square root, and \<open>trial_loop\<close> the inner loop.\<close>

function isqrt_loop :: "nat \<Rightarrow> nat \<Rightarrow> nat" where
  "isqrt_loop n r = (if (r + 1) * (r + 1) \<le> n then isqrt_loop n (r + 1) else r)"
  by pat_completeness auto
termination
proof (relation "measure (\<lambda>(n, r). n - r)")
  fix n r :: nat
  assume a: "(r + 1) * (r + 1) \<le> n"
  have "r + 1 \<le> (r + 1) * (r + 1)" by (rule le_square)
  with a have "r < n" by linarith
  then show "((n, r + 1), n, r) \<in> measure (\<lambda>(n, r). n - r)" by simp
qed simp
declare isqrt_loop.simps [simp del]

definition isqrt :: "nat \<Rightarrow> nat" where
  "isqrt n = isqrt_loop n 0"

function trial_loop :: "nat \<Rightarrow> nat \<Rightarrow> nat \<Rightarrow> bool" where
  "trial_loop sqrt_value i k =
     (if k \<le> sqrt_value then if i mod k = 0 then False else trial_loop sqrt_value i (k + 1) else True)"
  by pat_completeness auto
termination by (relation "measure (\<lambda>(s, i, k). Suc s - k)") auto
declare trial_loop.simps [simp del]

fun prime_loop :: "nat \<Rightarrow> nat \<Rightarrow> nat" where
  "prime_loop sqrt_value 0 = 0"
| "prime_loop sqrt_value (Suc i) =
     (if trial_loop sqrt_value (Suc i) 2 then Suc i else prime_loop sqrt_value i)"

definition GetMaxPrimeNum :: "nat \<Rightarrow> nat" where
  "GetMaxPrimeNum num = prime_loop (isqrt num) num"

text \<open>The constructor; \<open>alloc\<close> says whether \<open>calloc\<close> succeeds, and a bucket array that is
  \<open>NULL\<close> is the empty list.\<close>

definition HashList_init :: "bool \<Rightarrow> int \<Rightarrow> hash_list \<Rightarrow> hash_list" where
  "HashList_init alloc mx s =
     (let n = GetMaxPrimeNum (nat (if mx > 2 then mx else 100000))
      in s\<lparr>hl_max := n, hl_buckets := (if alloc then replicate n NULL else []), hl_count := 0\<rparr>)"

definition HashSize :: "hash_list \<Rightarrow> int" where
  "HashSize s = hl_count s"

definition HashInsert :: "(ptr \<Rightarrow> nat) \<Rightarrow> ptr \<Rightarrow> hash_list \<Rightarrow> int \<times> hash_list" where
  "HashInsert HashValue key s =
     (if key = NULL \<or> hl_buckets s = [] then (- 1, s)
      else if hl_hash s key \<noteq> 0 \<or> hl_next s key \<noteq> NULL then (- 2, s)
      else (let h = HashValue key; idx = h mod hl_max s; next_item = hl_buckets s ! idx
            in (0, s\<lparr>hl_hash := (hl_hash s)(key := h), hl_buckets := (hl_buckets s)[idx := key],
                     hl_next := (hl_next s)(key := next_item), hl_count := hl_count s + 1\<rparr>)))"

text \<open>The chain walks; on a chain that closes on itself they do not return.\<close>

partial_function (option) find_loop ::
    "(ptr \<Rightarrow> ptr \<Rightarrow> int) \<Rightarrow> ptr \<Rightarrow> nat \<Rightarrow> hash_list \<Rightarrow> ptr \<Rightarrow> ptr option" where
  "find_loop HashCmp key hash s item =
     (if item = NULL then Some NULL
      else if hl_hash s item \<noteq> hash then find_loop HashCmp key hash s (hl_next s item)
      else if HashCmp item key = 0 then Some item
      else find_loop HashCmp key hash s (hl_next s item))"

definition HashFind :: "(ptr \<Rightarrow> nat) \<Rightarrow> (ptr \<Rightarrow> ptr \<Rightarrow> int) \<Rightarrow> ptr \<Rightarrow> hash_list \<Rightarrow> ptr option" where
  "HashFind HashValue HashCmp key s =
     (if key = NULL \<or> hl_buckets s = [] then Some NULL
      else (let hash = HashValue key in find_loop HashCmp key hash s (hl_buckets s ! (hash mod hl_max s))))"

definition HashFindData :: "(ptr \<Rightarrow> nat) \<Rightarrow> (ptr \<Rightarrow> ptr \<Rightarrow> int) \<Rightarrow> ptr \<Rightarrow> hash_list \<Rightarrow> ptr option" where
  "HashFindData HashValue HashCmp key s = do {
     item \<leftarrow> HashFind HashValue HashCmp key s;
     Some (if item = NULL then NULL else hl_data s item)
   }"

partial_function (option) remove_loop ::
    "(ptr \<Rightarrow> ptr \<Rightarrow> int) \<Rightarrow> ptr \<Rightarrow> nat \<Rightarrow> nat \<Rightarrow> hash_list \<Rightarrow> ptr \<Rightarrow> ptr \<Rightarrow> hash_list option" where
  "remove_loop HashCmp key hash idx s prev item =
     (if item = NULL then Some s
      else if hl_hash s item = hash \<and> HashCmp item key = 0
      then (let s1 = (if prev = NULL then s\<lparr>hl_buckets := (hl_buckets s)[idx := hl_next s item]\<rparr>
                      else s\<lparr>hl_next := (hl_next s)(prev := hl_next s item)\<rparr>)
            in Some (s1\<lparr>hl_hash := (hl_hash s1)(item := 0), hl_next := (hl_next s1)(item := NULL),
                        hl_count := hl_count s1 - 1\<rparr>))
      else remove_loop HashCmp key hash idx s item (hl_next s item))"

definition HashRemove :: "(ptr \<Rightarrow> nat) \<Rightarrow> (ptr \<Rightarrow> ptr \<Rightarrow> int) \<Rightarrow> ptr \<Rightarrow> hash_list \<Rightarrow> hash_list option" where
  "HashRemove HashValue HashCmp key s =
     (if key = NULL \<or> hl_buckets s = [] then Some s
      else (let hash = HashValue key; idx = hash mod hl_max s
            in remove_loop HashCmp key hash idx s NULL (hl_buckets s ! idx)))"

text \<open>\<open>HashForeach\<close> visits the elements of each bucket in turn; \<open>visit\<close> is \<open>HashIterate\<close>.\<close>

partial_function (option) each_loop :: "(ptr \<Rightarrow> 'c \<Rightarrow> 'c) \<Rightarrow> hash_list \<Rightarrow> ptr \<Rightarrow> 'c \<Rightarrow> 'c option" where
  "each_loop visit s item c =
     (if item = NULL then Some c else each_loop visit s (hl_next s item) (visit item c))"

fun buckets_loop :: "(ptr \<Rightarrow> 'c \<Rightarrow> 'c) \<Rightarrow> hash_list \<Rightarrow> ptr list \<Rightarrow> 'c \<Rightarrow> 'c option" where
  "buckets_loop visit s [] c = Some c"
| "buckets_loop visit s (b # bs) c = Option.bind (each_loop visit s b c) (buckets_loop visit s bs)"

definition HashForeach :: "(ptr \<Rightarrow> 'c \<Rightarrow> 'c) \<Rightarrow> hash_list \<Rightarrow> 'c \<Rightarrow> 'c option" where
  "HashForeach visit s c = buckets_loop visit s (take (hl_max s) (hl_buckets s)) c"

definition HashGetFirst :: "hash_list \<Rightarrow> ptr" where
  "HashGetFirst s = (case List.find (\<lambda>b. b \<noteq> NULL) (take (hl_max s) (hl_buckets s)) of
     None \<Rightarrow> NULL | Some b \<Rightarrow> b)"


section \<open>Chains\<close>

fun chain :: "(ptr \<Rightarrow> ptr) \<Rightarrow> ptr \<Rightarrow> ptr list \<Rightarrow> bool" where
  "chain nx p [] \<longleftrightarrow> p = NULL"
| "chain nx p (x # xs) \<longleftrightarrow> p = x \<and> x \<noteq> NULL \<and> chain nx (nx x) xs"

lemma chain_upd [simp]: "x \<notin> set xs \<Longrightarrow> chain (nx(x := v)) p xs = chain nx p xs"
  by (induction xs arbitrary: p) auto

lemma chain_unlink:
  "chain nx p (ys @ x # zs) \<Longrightarrow> distinct (ys @ x # zs) \<Longrightarrow> ys \<noteq> [] \<Longrightarrow>
   chain (nx(last ys := nx x, x := NULL)) p (ys @ zs)"
proof (induction ys arbitrary: p)
  case (Cons y ys)
  show ?case
  proof (cases "ys = []")
    case True
    have "chain (nx(y := nx x, x := NULL)) (nx x) zs" using Cons.prems True by simp
    then show ?thesis using Cons.prems by (simp add: True fun_upd_def)
  next
    case False
    then have "y \<noteq> last ys" using Cons.prems by auto
    then show ?thesis using Cons False by auto
  qed
qed simp

text \<open>The first element of a chain that matches a key.\<close>

definition matches :: "(ptr \<Rightarrow> ptr \<Rightarrow> int) \<Rightarrow> ptr \<Rightarrow> nat \<Rightarrow> hash_list \<Rightarrow> ptr \<Rightarrow> bool" where
  "matches cmp key hash s x \<longleftrightarrow> hl_hash s x = hash \<and> cmp x key = 0"

lemma find_loop_chain:
  "chain (hl_next s) p xs \<Longrightarrow> find_loop cmp key hash s p =
     Some (case List.find (matches cmp key hash s) xs of None \<Rightarrow> NULL | Some x \<Rightarrow> x)"
proof (induction xs arbitrary: p)
  case Nil
  then show ?case by (simp add: find_loop.simps)
next
  case (Cons x xs)
  then show ?case by (subst find_loop.simps) (auto simp: matches_def [of cmp key hash s x])
qed

definition hash_unlink :: "nat \<Rightarrow> ptr \<Rightarrow> ptr \<Rightarrow> hash_list \<Rightarrow> hash_list" where
  "hash_unlink idx prev item s =
     (let s1 = (if prev = NULL then s\<lparr>hl_buckets := (hl_buckets s)[idx := hl_next s item]\<rparr>
                else s\<lparr>hl_next := (hl_next s)(prev := hl_next s item)\<rparr>)
      in s1\<lparr>hl_hash := (hl_hash s1)(item := 0), hl_next := (hl_next s1)(item := NULL), hl_count := hl_count s1 - 1\<rparr>)"

lemma remove_loop_none:
  "chain (hl_next s) p xs \<Longrightarrow> \<forall>x \<in> set xs. \<not> matches cmp key hash s x \<Longrightarrow>
   remove_loop cmp key hash idx s prev p = Some s"
proof (induction xs arbitrary: p prev)
  case Nil
  then show ?case by (simp add: remove_loop.simps)
next
  case (Cons x xs)
  then show ?case by (subst remove_loop.simps) (auto simp: matches_def)
qed

lemma remove_loop_first:
  "chain (hl_next s) p (ys @ x # zs) \<Longrightarrow> \<forall>y \<in> set ys. \<not> matches cmp key hash s y \<Longrightarrow> matches cmp key hash s x \<Longrightarrow>
   remove_loop cmp key hash idx s prev p = Some (hash_unlink idx (last (prev # ys)) x s)"
proof (induction ys arbitrary: p prev)
  case Nil
  then show ?case by (subst remove_loop.simps) (auto simp: matches_def hash_unlink_def Let_def)
next
  case (Cons y ys)
  then show ?case by (subst remove_loop.simps) (auto simp: matches_def)
qed

lemma each_loop_chain: "chain (hl_next s) p xs \<Longrightarrow> each_loop visit s p c = Some (fold visit xs c)"
  by (induction xs arbitrary: p c) (subst each_loop.simps, auto)+

section \<open>The invariant\<close>

text \<open>
  \<open>bs\<close> lists the elements of every bucket. Elements outside the table are clean, as their
  constructor and \<open>HashRemove\<close> leave them; elements in it have a non-zero hash value.
\<close>

definition hash_inv :: "(ptr \<Rightarrow> nat) \<Rightarrow> ptr list list \<Rightarrow> hash_list \<Rightarrow> bool" where
  "hash_inv hv bs s \<longleftrightarrow> 0 < hl_max s \<and> length (hl_buckets s) = hl_max s \<and> length bs = hl_max s \<and>
     (\<forall>i < hl_max s. chain (hl_next s) (hl_buckets s ! i) (bs ! i) \<and> distinct (bs ! i) \<and>
        (\<forall>x \<in> set (bs ! i). hl_hash s x = hv x \<and> hv x \<noteq> 0 \<and> hv x mod hl_max s = i)) \<and>
     (\<forall>x. (\<forall>i < hl_max s. x \<notin> set (bs ! i)) \<longrightarrow> hl_hash s x = 0 \<and> hl_next s x = NULL) \<and>
     hl_count s = int (sum_list (map length bs))"

definition hash_items :: "ptr list list \<Rightarrow> ptr set" where
  "hash_items bs = set (concat bs)"

lemma hash_items_iff: "length bs = n \<Longrightarrow> x \<in> hash_items bs \<longleftrightarrow> (\<exists>i < n. x \<in> set (bs ! i))"
  by (auto simp: hash_items_def set_conv_nth [of bs])

lemma hash_inv_bucket:
  assumes "hash_inv hv bs s" "x \<in> hash_items bs"
  shows "x \<in> set (bs ! (hv x mod hl_max s))" "hl_hash s x = hv x" "hv x \<noteq> 0" "x \<noteq> NULL"
proof -
  obtain i where i: "i < hl_max s" "x \<in> set (bs ! i)"
    using assms hash_items_iff [of bs "hl_max s" x] by (auto simp: hash_inv_def)
  then show "x \<in> set (bs ! (hv x mod hl_max s))" "hl_hash s x = hv x" "hv x \<noteq> 0"
    using assms(1) by (auto simp: hash_inv_def)
  have "chain nx p xs \<Longrightarrow> x \<in> set xs \<Longrightarrow> x \<noteq> NULL" for nx p xs by (induction xs arbitrary: p) auto
  then show "x \<noteq> NULL" using i assms(1) unfolding hash_inv_def by blast
qed

lemma hash_inv_sub: "hash_inv hv bs s \<Longrightarrow> set (bs ! (n mod hl_max s)) \<subseteq> hash_items bs"
proof -
  assume "hash_inv hv bs s"
  then have "length bs = hl_max s" "n mod hl_max s < hl_max s" by (auto simp: hash_inv_def)
  then show ?thesis using hash_items_iff [of bs "hl_max s"] by blast
qed

lemma hash_inv_clean:
  "hash_inv hv bs s \<Longrightarrow> x \<notin> hash_items bs \<Longrightarrow> hl_hash s x = 0 \<and> hl_next s x = NULL"
  using hash_items_iff [of bs "hl_max s" x] by (auto simp: hash_inv_def)


section \<open>The operations keep the invariant\<close>

lemma hash_inv_insert:
  assumes inv: "hash_inv hv bs s" and k: "key \<noteq> NULL" "key \<notin> hash_items bs" "hv key \<noteq> 0"
  defines "i \<equiv> hv key mod hl_max s"
  shows "\<exists>s'. HashInsert hv key s = (0, s') \<and> hash_inv hv (bs[i := key # bs ! i]) s' \<and>
    hl_max s' = hl_max s \<and> hl_data s' = hl_data s"
proof -
  have I: "0 < hl_max s" "length (hl_buckets s) = hl_max s" "length bs = hl_max s"
    "\<And>j. j < hl_max s \<Longrightarrow> chain (hl_next s) (hl_buckets s ! j) (bs ! j)"
    "\<And>j. j < hl_max s \<Longrightarrow> distinct (bs ! j)"
    "\<And>j x. j < hl_max s \<Longrightarrow> x \<in> set (bs ! j) \<Longrightarrow> hl_hash s x = hv x \<and> hv x \<noteq> 0 \<and> hv x mod hl_max s = j"
    "hl_count s = int (sum_list (map length bs))"
    using inv unfolding hash_inv_def by blast+
  have i: "i < hl_max s" using I(1) by (simp add: i_def)
  have out: "key \<notin> set (bs ! j)" if "j < hl_max s" for j
    using k(2) that I(3) hash_items_iff [of bs "hl_max s" key] by auto
  have clean: "hl_hash s key = 0 \<and> hl_next s key = NULL" by (rule hash_inv_clean [OF inv k(2)])
  have other: "hl_hash s x = 0 \<and> hl_next s x = NULL" if "\<forall>j < hl_max s. x \<notin> set (bs ! j)" for x
    using inv that unfolding hash_inv_def by blast
  define s' where "s' = s\<lparr>hl_hash := (hl_hash s)(key := hv key), hl_buckets := (hl_buckets s)[i := key],
     hl_next := (hl_next s)(key := hl_buckets s ! i), hl_count := hl_count s + 1\<rparr>"
  have ins: "HashInsert hv key s = (0, s')"
    using k(1) clean I(1,2) by (auto simp: HashInsert_def s'_def i_def Let_def)
  have "sum_list (map length (bs[i := key # bs ! i])) = Suc (sum_list (map length bs))"
    using i I(3) by (simp add: map_update sum_list_update)
  then have count: "hl_count s' = int (sum_list (map length (bs[i := key # bs ! i])))"
    using I(7) by (simp add: s'_def)
  have "chain (hl_next s') (hl_buckets s' ! j) (bs[i := key # bs ! i] ! j) \<and> distinct (bs[i := key # bs ! i] ! j) \<and>
      (\<forall>x \<in> set (bs[i := key # bs ! i] ! j). hl_hash s' x = hv x \<and> hv x \<noteq> 0 \<and> hv x mod hl_max s = j)"
    if j: "j < hl_max s" for j
  proof (cases "j = i")
    case True
    then show ?thesis using i I(2,3) I(4,5,6) [OF i] out [OF i] k(1,3) by (simp add: s'_def) (auto simp: i_def)
  next
    case False
    then show ?thesis using I(4,5,6) [OF j] out [OF j] by (auto simp: s'_def)
  qed
  moreover have "hl_hash s' x = 0 \<and> hl_next s' x = NULL"
    if x: "\<forall>j < hl_max s. x \<notin> set (bs[i := key # bs ! i] ! j)" for x
  proof -
    have "x \<noteq> key" using x i I(3) by force
    moreover have "x \<notin> set (bs ! j)" if "j < hl_max s" for j
      using x [rule_format, OF that] I(3) i by (cases "j = i") auto
    ultimately show ?thesis using other [of x] by (simp add: s'_def)
  qed
  ultimately have "hash_inv hv (bs[i := key # bs ! i]) s'"
    using I(1-3) count by (simp add: hash_inv_def s'_def)
  then show ?thesis using ins by (simp add: s'_def)
qed

lemma HashInsert_refused:
  assumes "hash_inv hv bs s"
  shows "key = NULL \<Longrightarrow> HashInsert hv key s = (- 1, s)"
    and "key \<in> hash_items bs \<Longrightarrow> HashInsert hv key s = (- 2, s)"
  using hash_inv_bucket [OF assms] assms by (auto simp: HashInsert_def hash_inv_def)


lemma hash_inv_remove:
  assumes inv: "hash_inv hv bs s" and i: "i < hl_max s" and b: "bs ! i = ys @ x # zs"
  shows "hash_inv hv (bs[i := ys @ zs]) (hash_unlink i (last (NULL # ys)) x s)" (is "hash_inv hv ?bs ?s")
proof -
  have I: "0 < hl_max s" "length (hl_buckets s) = hl_max s" "length bs = hl_max s"
    "\<And>j. j < hl_max s \<Longrightarrow> chain (hl_next s) (hl_buckets s ! j) (bs ! j)"
    "\<And>j. j < hl_max s \<Longrightarrow> distinct (bs ! j)"
    "\<And>j y. j < hl_max s \<Longrightarrow> y \<in> set (bs ! j) \<Longrightarrow> hl_hash s y = hv y \<and> hv y \<noteq> 0 \<and> hv y mod hl_max s = j"
    "hl_count s = int (sum_list (map length bs))"
    "\<And>y. \<forall>j < hl_max s. y \<notin> set (bs ! j) \<Longrightarrow> hl_hash s y = 0 \<and> hl_next s y = NULL"
    using inv unfolding hash_inv_def by blast+
  have ch: "chain (hl_next s) (hl_buckets s ! i) (ys @ x # zs)" "distinct (ys @ x # zs)"
    using I(4,5) [OF i] by (simp_all add: b)
  have nn: "chain nx p xs \<Longrightarrow> y \<in> set xs \<Longrightarrow> y \<noteq> NULL" for nx p xs and y :: ptr
    by (induction xs arbitrary: p) auto
  have last: "last (NULL # ys) = NULL \<longleftrightarrow> ys = []" using nn [OF ch(1)] last_in_set [of ys] by force
  have fields: "hl_max ?s = hl_max s" "length (hl_buckets ?s) = hl_max s" "hl_count ?s = hl_count s - 1"
    "hl_hash ?s = (hl_hash s)(x := 0)"
    using I(2) by (simp_all add: hash_unlink_def Let_def)
  have inside: "x \<in> set (bs ! i)" "set ys \<subseteq> set (bs ! i)" by (auto simp: b)
  have apart: "y \<notin> set (bs ! j)" if "y \<in> set (bs ! i)" "j < hl_max s" "j \<noteq> i" for j y
    using I(6) [OF i that(1)] I(6) [OF that(2)] that(3) by auto
  have "sum_list (map length bs) = Suc (sum_list (map length ?bs))"
  proof -
    have "length (bs ! i) \<le> sum_list (map length bs)" using i I(3) by (simp add: member_le_sum_list)
    then show ?thesis using i I(3) by (simp add: map_update sum_list_update b)
  qed
  then have count: "hl_count ?s = int (sum_list (map length ?bs))" using I(7) fields(3) by simp
  have own: "chain (hl_next ?s) (hl_buckets ?s ! i) (ys @ zs)"
  proof (cases "ys = []")
    case True
    then show ?thesis using ch i I(2) by (simp add: hash_unlink_def Let_def)
  next
    case False
    then show ?thesis using chain_unlink [OF ch False] last by (simp add: hash_unlink_def Let_def)
  qed
  have "chain (hl_next ?s) (hl_buckets ?s ! j) (?bs ! j) \<and> distinct (?bs ! j) \<and>
      (\<forall>y \<in> set (?bs ! j). hl_hash ?s y = hv y \<and> hv y \<noteq> 0 \<and> hv y mod hl_max s = j)" if j: "j < hl_max s" for j
  proof (cases "j = i")
    case True
    have "hl_hash ?s y = hv y \<and> hv y \<noteq> 0 \<and> hv y mod hl_max s = i" if "y \<in> set (ys @ zs)" for y
      using I(6) [OF i, of y] that ch(2) unfolding fields(4) by (auto simp: b)
    then show ?thesis using own ch(2) i I(3) True by simp
  next
    case False
    have "x \<notin> set (bs ! j)" "ys \<noteq> [] \<Longrightarrow> last ys \<notin> set (bs ! j)"
      using apart [OF _ j False] inside last_in_set [of ys] by blast+
    then have "chain (hl_next ?s) (hl_buckets ?s ! j) (bs ! j)"
      using I(4) [OF j] False last by (cases "ys = []") (simp_all add: hash_unlink_def Let_def)
    moreover have "hl_hash ?s y = hl_hash s y" if "y \<in> set (bs ! j)" for y
      using that \<open>x \<notin> set (bs ! j)\<close> unfolding fields(4) by auto
    ultimately show ?thesis using I(5,6) [OF j] False by simp
  qed
  moreover have "hl_hash ?s y = 0 \<and> hl_next ?s y = NULL" if y: "\<forall>j < hl_max s. y \<notin> set (?bs ! j)" for y
  proof (cases "y = x")
    case True
    then show ?thesis by (simp add: hash_unlink_def Let_def)
  next
    case False
    have "y \<notin> set (bs ! j)" if "j < hl_max s" for j
      using y [rule_format, OF that] I(3) i False by (cases "j = i") (auto simp: b)
    moreover have "ys \<noteq> [] \<Longrightarrow> y \<noteq> last ys" using y [rule_format, OF i] I(3) i last_in_set [of ys] by auto
    ultimately show ?thesis using I(8) [of y] False last by (cases "ys = []") (auto simp: hash_unlink_def Let_def)
  qed
  ultimately show ?thesis
    using I(1,3) count unfolding hash_inv_def fields by simp
qed

section \<open>Keys\<close>

text \<open>What the table needs of \<open>HashValue\<close> and \<open>HashCmp\<close>: they are functions of one key.\<close>

locale hash_key =
  fixes hv :: "ptr \<Rightarrow> nat" and cmp :: "ptr \<Rightarrow> ptr \<Rightarrow> int" and kf :: "ptr \<Rightarrow> 'k"
  assumes cmp_key: "hv x = hv y \<Longrightarrow> cmp x y = 0 \<longleftrightarrow> kf x = kf y"
    and hv_key: "kf x = kf y \<Longrightarrow> hv x = hv y"
begin

lemma matches_key:
  assumes "hash_inv hv bs s" "i < hl_max s" "x \<in> set (bs ! i)"
  shows "matches cmp key (hv key) s x \<longleftrightarrow> kf x = kf key"
  using assms cmp_key [of x key] hv_key [of x key] by (auto simp: hash_inv_def matches_def)

lemma find_bucket:
  assumes inv: "hash_inv hv bs s" and k: "key \<noteq> NULL"
  shows "HashFind hv cmp key s = Some (case List.find (\<lambda>x. kf x = kf key) (bs ! (hv key mod hl_max s)) of
    None \<Rightarrow> NULL | Some x \<Rightarrow> x)"
proof -
  let ?i = "hv key mod hl_max s"
  have i: "?i < hl_max s" "chain (hl_next s) (hl_buckets s ! ?i) (bs ! ?i)" "hl_buckets s \<noteq> []"
    using inv by (auto simp: hash_inv_def)
  have "List.find (matches cmp key (hv key) s) (bs ! ?i) = List.find (\<lambda>x. kf x = kf key) (bs ! ?i)"
    by (rule find_cong) (simp_all add: matches_key [OF inv i(1)])
  then show ?thesis
    using k i by (simp add: HashFind_def Let_def find_loop_chain [OF i(2)])
qed

lemma same_bucket:
  assumes "hash_inv hv bs s" "x \<in> hash_items bs" "kf x = kf key"
  shows "x \<in> set (bs ! (hv key mod hl_max s))"
  using hash_inv_bucket(1) [OF assms(1,2)] hv_key [OF assms(3)] by simp

lemma find_present:
  assumes inv: "hash_inv hv bs s" "inj_on kf (hash_items bs)" and k: "key \<noteq> NULL" "x \<in> hash_items bs" "kf x = kf key"
  shows "HashFind hv cmp key s = Some x"
proof -
  let ?b = "bs ! (hv key mod hl_max s)"
  have x: "x \<in> set ?b" by (rule same_bucket [OF inv(1) k(2,3)])
  have sub: "set ?b \<subseteq> hash_items bs"
    by (rule hash_inv_sub [OF inv(1)])
  obtain y where y: "List.find (\<lambda>x. kf x = kf key) ?b = Some y"
    using x k(3) find_None_iff [of "\<lambda>x. kf x = kf key" ?b] by (cases "List.find (\<lambda>x. kf x = kf key) ?b") auto
  then have "y \<in> set ?b" "kf y = kf key" by (auto simp: find_Some_iff)
  then have "y = x" using inj_onD [OF inv(2), of y x] sub k(2,3) by auto
  then show ?thesis by (simp add: find_bucket [OF inv(1) k(1)] y)
qed

lemma find_absent:
  assumes inv: "hash_inv hv bs s" and no: "\<forall>x \<in> hash_items bs. kf x \<noteq> kf key"
  shows "HashFind hv cmp key s = Some NULL"
proof (cases "key = NULL")
  case True
  then show ?thesis by (simp add: HashFind_def)
next
  case False
  have "set (bs ! (hv key mod hl_max s)) \<subseteq> hash_items bs"
    by (rule hash_inv_sub [OF inv])
  then have "List.find (\<lambda>x. kf x = kf key) (bs ! (hv key mod hl_max s)) = None"
    using no by (force simp: find_None_iff)
  then show ?thesis by (simp add: find_bucket [OF inv False])
qed

lemma remove_absent:
  assumes inv: "hash_inv hv bs s" and no: "\<forall>x \<in> hash_items bs. kf x \<noteq> kf key"
  shows "HashRemove hv cmp key s = Some s"
proof -
  let ?i = "hv key mod hl_max s"
  have i: "?i < hl_max s" "chain (hl_next s) (hl_buckets s ! ?i) (bs ! ?i)"
    using inv by (auto simp: hash_inv_def)
  have "\<forall>x \<in> set (bs ! ?i). \<not> matches cmp key (hv key) s x"
    using no hash_inv_sub [OF inv, of "hv key"] by (auto simp: matches_key [OF inv i(1)])
  from remove_loop_none [OF i(2) this] show ?thesis by (simp add: HashRemove_def Let_def)
qed

lemma remove_present:
  assumes inv: "hash_inv hv bs s" "inj_on kf (hash_items bs)" and k: "key \<noteq> NULL" "x \<in> hash_items bs" "kf x = kf key"
  shows "\<exists>s' bs'. HashRemove hv cmp key s = Some s' \<and> hash_inv hv bs' s' \<and> hash_items bs' = hash_items bs - {x} \<and>
    hl_max s' = hl_max s \<and> hl_data s' = hl_data s"
proof -
  let ?i = "hv key mod hl_max s"
  have i: "?i < hl_max s" "chain (hl_next s) (hl_buckets s ! ?i) (bs ! ?i)" "hl_buckets s \<noteq> []" "length bs = hl_max s"
    "distinct (bs ! ?i)"
    using inv(1) by (auto simp: hash_inv_def)
  obtain ys zs where b: "bs ! ?i = ys @ x # zs" using split_list [OF same_bucket [OF inv(1) k(2,3)]] by blast
  have sub: "set (bs ! ?i) \<subseteq> hash_items bs" by (rule hash_inv_sub [OF inv(1)])
  have "\<not> matches cmp key (hv key) s y" if "y \<in> set ys" for y
  proof -
    have y: "y \<in> set (bs ! ?i)" "y \<noteq> x" using that i(5) by (auto simp: b)
    then have "kf y \<noteq> kf x" using inj_onD [OF inv(2), of y x] k(2) sub by auto
    then show ?thesis using matches_key [OF inv(1) i(1) y(1)] k(3) by simp
  qed
  moreover have "matches cmp key (hv key) s x" using matches_key [OF inv(1) i(1)] k(3) by (simp add: b)
  ultimately have rm: "HashRemove hv cmp key s = Some (hash_unlink ?i (last (NULL # ys)) x s)"
    using remove_loop_first [OF i(2) [unfolded b]] k(1) i(3) by (simp add: HashRemove_def Let_def)
  have "hash_items (bs[?i := ys @ zs]) = hash_items bs - {x}"
  proof (intro set_eqI iffI)
    fix y assume "y \<in> hash_items (bs[?i := ys @ zs])"
    then obtain j where j: "j < hl_max s" "y \<in> set (bs[?i := ys @ zs] ! j)"
      using hash_items_iff [of "bs[?i := ys @ zs]" "hl_max s" y] i(4) by auto
    then have y: "y \<in> set (bs ! j)" using i(1,4) by (cases "j = ?i") (auto simp: b)
    have "y \<noteq> x"
    proof
      assume "y = x"
      then have "j = ?i" using y j(1) inv(1) hv_key [OF k(3)] unfolding hash_inv_def by metis
      then show False using j(2) i(1,4,5) \<open>y = x\<close> by (simp add: b)
    qed
    then show "y \<in> hash_items bs - {x}" using y j(1) i(4) hash_items_iff [of bs "hl_max s" y] by auto
  next
    fix y assume "y \<in> hash_items bs - {x}"
    then obtain j where j: "j < hl_max s" "y \<in> set (bs ! j)" "y \<noteq> x"
      using hash_items_iff [of bs "hl_max s" y] i(4) by auto
    then have "y \<in> set (bs[?i := ys @ zs] ! j)" using i(1,4) by (cases "j = ?i") (auto simp: b)
    then show "y \<in> hash_items (bs[?i := ys @ zs])"
      using j(1) i(4) hash_items_iff [of "bs[?i := ys @ zs]" "hl_max s" y] by auto
  qed
  then show ?thesis
    using rm hash_inv_remove [OF inv(1) i(1) b]
    by (intro exI [of _ "hash_unlink ?i (last (NULL # ys)) x s"] exI [of _ "bs[?i := ys @ zs]"])
      (simp add: hash_unlink_def Let_def)
qed

end


section \<open>The number of buckets\<close>

lemma isqrt_loop_bounds: "r * r \<le> n \<Longrightarrow> isqrt_loop n r * isqrt_loop n r \<le> n \<and> n < (isqrt_loop n r + 1) * (isqrt_loop n r + 1)"
proof (induction n r rule: isqrt_loop.induct)
  case (1 n r)
  then show ?case by (subst (1 2 3 4) isqrt_loop.simps) (auto simp: not_le)
qed

lemma isqrt_bounds: "isqrt n * isqrt n \<le> n" "n < (isqrt n + 1) * (isqrt n + 1)"
  using isqrt_loop_bounds [of 0 n] by (simp_all add: isqrt_def)

lemma trial_loop_iff: "trial_loop s i k \<longleftrightarrow> (\<forall>j. k \<le> j \<and> j \<le> s \<longrightarrow> i mod j \<noteq> 0)"
proof (induction s i k rule: trial_loop.induct)
  case (1 s i k)
  show ?case
  proof (cases "k \<le> s \<and> i mod k \<noteq> 0")
    case True
    then have "trial_loop s i k = (\<forall>j. k + 1 \<le> j \<and> j \<le> s \<longrightarrow> i mod j \<noteq> 0)"
      using 1 by (subst trial_loop.simps) simp
    also have "\<dots> = (\<forall>j. k \<le> j \<and> j \<le> s \<longrightarrow> i mod j \<noteq> 0)"
      using True by (metis Suc_eq_plus1 le_antisym not_less_eq_eq Suc_leD)
    finally show ?thesis .
  next
    case False
    then show ?thesis by (subst trial_loop.simps) auto
  qed
qed

lemma prime_loop_spec:
  assumes "0 < n"
  shows "0 < prime_loop s n \<and> prime_loop s n \<le> n \<and> trial_loop s (prime_loop s n) 2 \<and>
    (\<forall>i. prime_loop s n < i \<and> i \<le> n \<longrightarrow> \<not> trial_loop s i 2)"
  using assms
proof (induction n)
  case (Suc n)
  show ?case
  proof (cases "trial_loop s (Suc n) 2")
    case False
    moreover have "trial_loop s (Suc 0) 2" by (simp add: trial_loop_iff)
    ultimately have "0 < n" by (cases n) auto
    then show ?thesis using Suc.IH False by (auto simp: le_Suc_eq)
  qed auto
qed simp

text \<open>A number with a divisor has one up to its square root.\<close>

lemma small_divisor:
  fixes d p n :: nat
  assumes "d dvd p" "1 < d" "d < p" "p \<le> n"
  shows "\<exists>e. 2 \<le> e \<and> e \<le> isqrt n \<and> e dvd p"
proof -
  obtain k where k: "p = d * k" using assms(1) by (auto elim: dvdE)
  have k1: "1 < k" using assms k by (cases "k = 0"; cases "k = 1") auto
  have "d \<le> isqrt n \<or> k \<le> isqrt n"
  proof (rule ccontr)
    assume "\<not> (d \<le> isqrt n \<or> k \<le> isqrt n)"
    then have "(isqrt n + 1) * (isqrt n + 1) \<le> d * k" by (intro mult_le_mono) auto
    then show False using isqrt_bounds(2) [of n] assms(4) k by linarith
  qed
  then show ?thesis using assms(1,2) k k1 by (auto intro: exI [of _ d] exI [of _ k])
qed

text \<open>\<open>GetMaxPrimeNum\<close> of a positive number is positive and at most that number, so the bucket index
  is always defined; it has no proper divisor, and every larger candidate above the square root is
  composite.\<close>

theorem max_prime_num:
  assumes "0 < num"
  shows "0 < GetMaxPrimeNum num \<and> GetMaxPrimeNum num \<le> num \<and>
    (\<forall>d. 1 < d \<and> d < GetMaxPrimeNum num \<longrightarrow> \<not> d dvd GetMaxPrimeNum num) \<and>
    (\<forall>p. GetMaxPrimeNum num < p \<and> p \<le> num \<and> isqrt num < p \<longrightarrow> (\<exists>d. 1 < d \<and> d < p \<and> d dvd p))"
proof -
  let ?r = "GetMaxPrimeNum num"
  note P = prime_loop_spec [OF assms, of "isqrt num", folded GetMaxPrimeNum_def]
  have r: "0 < ?r" "?r \<le> num" and tr: "trial_loop (isqrt num) ?r 2"
    and un: "\<And>i. ?r < i \<Longrightarrow> i \<le> num \<Longrightarrow> \<not> trial_loop (isqrt num) i 2"
    using P by blast+
  have t: "?r mod j \<noteq> 0" if "2 \<le> j" "j \<le> isqrt num" for j
    using tr that by (simp add: trial_loop_iff)
  have u: "\<exists>j. 2 \<le> j \<and> j \<le> isqrt num \<and> i mod j = 0" if "?r < i" "i \<le> num" for i
    using un [OF that] by (auto simp: trial_loop_iff)
  have no: "\<not> d dvd ?r" if d: "1 < d" "d < ?r" for d
  proof
    assume "d dvd ?r"
    then obtain e where "2 \<le> e" "e \<le> isqrt num" "e dvd ?r"
      using small_divisor [OF _ d r(2)] by blast
    then show False using t [of e] by (simp add: dvd_eq_mod_eq_0)
  qed
  have comp: "\<exists>d. 1 < d \<and> d < p \<and> d dvd p" if p: "?r < p" "p \<le> num" "isqrt num < p" for p
  proof -
    obtain j where "2 \<le> j" "j \<le> isqrt num" "p mod j = 0" using u [OF p(1,2)] by (elim exE conjE)
    then show ?thesis using p(3) by (intro exI [of _ j]) (simp add: dvd_eq_mod_eq_0)
  qed
  show ?thesis
  proof (intro conjI allI impI)
    fix d assume "1 < d \<and> d < ?r"
    then show "\<not> d dvd ?r" using no by blast
  next
    fix p assume "?r < p \<and> p \<le> num \<and> isqrt num < p"
    then show "\<exists>d. 1 < d \<and> d < p \<and> d dvd p" using comp by blast
  qed (fact r)+
qed

theorem max_prime_num_witness: "GetMaxPrimeNum 100 = 97 \<and> \<not> 7 dvd GetMaxPrimeNum 100"
proof -
  have "GetMaxPrimeNum 100 = 97" by code_simp
  then show ?thesis using max_prime_num [of 100] by simp
qed

lemma hash_inv_init:
  assumes "\<forall>x. hl_hash s x = 0 \<and> hl_next s x = NULL" "0 < GetMaxPrimeNum (nat (if mx > 2 then mx else 100000))"
  shows "hash_inv hv (replicate (hl_max (HashList_init True mx s)) []) (HashList_init True mx s)"
  using assms by (auto simp: hash_inv_def HashList_init_def Let_def)


section \<open>Elements whose hash value is zero\<close>

lemma find_loop_cycle:
  assumes "find_loop cmp key hash s k = Some y" "k \<noteq> NULL" "hl_next s k = k" "hl_hash s k \<noteq> hash"
  shows False
proof -
  have "\<not> (item = k \<and> hl_next s k = k \<and> hl_hash s k \<noteq> hash)" if "find_loop cmp key hash s item = Some y" for item
    using that
    by (rule find_loop.raw_induct [where P = "\<lambda>cmp key hash s item y. \<not> (item = k \<and> hl_next s k = k \<and> hl_hash s k \<noteq> hash)", rotated])
      (use assms(2) in \<open>auto split: if_splits\<close>)
  then show False using assms by blast
qed

text \<open>C25: the guard against double insertion does not see an element whose hash value is 0. Inserting
  such an element twice into an empty bucket succeeds both times and makes it its own successor; a
  later search in that bucket for a key with another hash value never returns.\<close>

theorem hash_zero_cycle:
  assumes "hash_inv hv bs s" and "key \<noteq> NULL" and "key \<notin> hash_items bs" and "hv key = 0" and "bs ! 0 = []"
    and "probe \<noteq> NULL" and "hv probe \<noteq> 0" and "hv probe mod hl_max s = 0"
  shows "\<exists>s1 s2. HashInsert hv key s = (0, s1) \<and> HashInsert hv key s1 = (0, s2) \<and>
    HashFind hv cmp probe s2 = None"
proof -
  have I: "0 < hl_max s" "length (hl_buckets s) = hl_max s" "hl_buckets s ! 0 = NULL" "hl_buckets s \<noteq> []"
    using assms(1,5) by (auto simp: hash_inv_def)
  have clean: "hl_hash s key = 0" "hl_next s key = NULL" using hash_inv_clean [OF assms(1,3)] by auto
  define s1 where "s1 = s\<lparr>hl_hash := (hl_hash s)(key := 0), hl_buckets := (hl_buckets s)[0 := key],
    hl_next := (hl_next s)(key := NULL), hl_count := hl_count s + 1\<rparr>"
  define s2 where "s2 = s1\<lparr>hl_hash := (hl_hash s1)(key := 0), hl_buckets := (hl_buckets s1)[0 := key],
    hl_next := (hl_next s1)(key := key), hl_count := hl_count s1 + 1\<rparr>"
  have 1: "HashInsert hv key s = (0, s1)"
    using assms(2,4) clean I by (simp add: HashInsert_def s1_def)
  have 2: "HashInsert hv key s1 = (0, s2)"
    using assms(2,4) I by (simp add: HashInsert_def s1_def s2_def)
  have "find_loop cmp probe (hv probe) s2 key \<noteq> Some y" for y
    using find_loop_cycle [of cmp probe "hv probe" s2 key y] assms(2,7) by (auto simp: s2_def)
  moreover have "HashFind hv cmp probe s2 = find_loop cmp probe (hv probe) s2 key"
    using assms(6,8) I by (simp add: HashFind_def s1_def s2_def)
  ultimately have "HashFind hv cmp probe s2 = None" by (cases "find_loop cmp probe (hv probe) s2 key") auto
  then show ?thesis using 1 2 by blast
qed

definition empty_table :: "nat \<Rightarrow> hash_list" where
  "empty_table n = \<lparr>hl_next = \<lambda>_. NULL, hl_hash = \<lambda>_. 0, hl_data = \<lambda>_. NULL, hl_buckets = replicate n NULL,
     hl_count = 0, hl_max = n\<rparr>"

lemma empty_table_inv: "0 < n \<Longrightarrow> hash_inv hv (replicate n []) (empty_table n)"
  by (auto simp: hash_inv_def empty_table_def)

theorem hash_zero_cycle_witness:
  "\<exists>s1 s2. HashInsert (\<lambda>p. if p = 1 then 0 else 7) 1 (empty_table 7) = (0, s1) \<and>
    HashInsert (\<lambda>p. if p = 1 then 0 else 7) 1 s1 = (0, s2) \<and>
    HashFind (\<lambda>p. if p = 1 then 0 else 7) (\<lambda>x y. int x - int y) 2 s2 = None"
  by (rule hash_zero_cycle [OF empty_table_inv, of 7]) (simp_all add: hash_items_def empty_table_def)

end
