(* ===== verification/Int_Key.thy ===== *)
theory Int_Key
  imports Hash_List
begin

text \<open>
  Hash table elements whose key is one 32-bit \<open>int\<close> field: \<open>HashValue\<close> returns the field and
  \<open>HashCmp\<close> subtracts. Sessions (\<open>mt_session.h\<close>) and message buffer queues (\<open>mt_mbuf_pool.h\<close>)
  are of this kind. A table of such elements refines a finite map; look-ups use a key object on
  the stack, at address \<open>tmp\<close>.
\<close>

section \<open>The key\<close>

definition key_hash :: "(ptr \<Rightarrow> int) \<Rightarrow> ptr \<Rightarrow> nat" where
  "key_hash ids p = nat (ids p mod 2 ^ 32)"

definition key_cmp :: "(ptr \<Rightarrow> int) \<Rightarrow> ptr \<Rightarrow> ptr \<Rightarrow> int" where
  "key_cmp ids x y = i32_wrap (ids x - i32_wrap (int (key_hash ids y)))"

lemma key_cmp_zero: "key_cmp ids x y = 0 \<longleftrightarrow> key_hash ids x = key_hash ids y"
proof -
  have "key_cmp ids x y = 0 \<longleftrightarrow> (ids x - ids y mod 2 ^ 32) mod 2 ^ 32 = 0"
    unfolding key_cmp_def i32_wrap_zero i32_wrap_mod_diff by (simp add: key_hash_def)
  also have "\<dots> \<longleftrightarrow> ids x mod 2 ^ 32 = ids y mod 2 ^ 32"
    by (simp add: mod_diff_right_eq mod_eq_dvd_iff dvd_eq_mod_eq_0)
  finally show ?thesis by (simp add: key_hash_def eq_nat_nat_iff)
qed

interpretation int_key: hash_key "key_hash ids" "key_cmp ids" "key_hash ids" for ids
  by unfold_locales (simp_all add: key_cmp_zero)

section \<open>Refinement to a map\<close>

text \<open>The table represents the map \<open>m\<close> from keys, as 32-bit values, to elements.\<close>

definition table_rel :: "(ptr \<Rightarrow> int) \<Rightarrow> hash_list \<Rightarrow> (nat \<rightharpoonup> ptr) \<Rightarrow> bool" where
  "table_rel ids h m \<longleftrightarrow> (\<exists>bs. hash_inv (key_hash ids) bs h \<and>
     inj_on (key_hash ids) (hash_items bs) \<and>
     (\<forall>k p. m k = Some p \<longleftrightarrow> p \<in> hash_items bs \<and> key_hash ids p = k))"

lemma hash_inv_cong:
  assumes "hash_inv hv bs s" "\<And>x. x \<in> hash_items bs \<Longrightarrow> hv x = hv' x"
  shows "hash_inv hv' bs s"
proof -
  have "length bs = hl_max s" using assms(1) by (simp add: hash_inv_def)
  then have *: "hv' x = hv x" if "i < hl_max s" "x \<in> set (bs ! i)" for i x
    using assms(2) [of x] that hash_items_iff [of bs "hl_max s" x] by metis
  show ?thesis using assms(1) unfolding hash_inv_def by (simp add: *)
qed

lemma key_hash_other [simp]: "p \<noteq> tmp \<Longrightarrow> key_hash (ids(tmp := k)) p = key_hash ids p"
  by (simp add: key_hash_def)

lemma key_hash_tmp [simp]: "key_hash (ids(tmp := k)) tmp = nat (k mod 2 ^ 32)"
  by (simp add: key_hash_def)

text \<open>With a temporary key object outside the table, the table is unchanged as seen by that key.\<close>

lemma table_rel_tmp:
  assumes "table_rel ids h m" "tmp \<notin> ran m"
  obtains bs where "hash_inv (key_hash (ids(tmp := k))) bs h"
    "inj_on (key_hash (ids(tmp := k))) (hash_items bs)"
    "\<And>k p. m k = Some p \<longleftrightarrow> p \<in> hash_items bs \<and> key_hash ids p = k" "tmp \<notin> hash_items bs"
proof -
  obtain bs where bs: "hash_inv (key_hash ids) bs h"
    "inj_on (key_hash ids) (hash_items bs)"
    "\<And>k p. m k = Some p \<longleftrightarrow> p \<in> hash_items bs \<and> key_hash ids p = k"
    using assms(1) unfolding table_rel_def by blast
  have tmp: "tmp \<notin> hash_items bs" using assms(2) bs(3) by (auto simp: ran_def)
  have eq: "key_hash ids x = key_hash (ids(tmp := k)) x" if "x \<in> hash_items bs" for x
    using tmp that by (metis key_hash_other)
  show thesis
  proof (rule that)
    show "hash_inv (key_hash (ids(tmp := k))) bs h" by (rule hash_inv_cong [OF bs(1) eq])
    show "inj_on (key_hash (ids(tmp := k))) (hash_items bs)"
      using bs(2) inj_on_cong [OF eq, of "hash_items bs"] by simp
  qed (fact bs tmp)+
qed

lemma table_find:
  assumes "table_rel ids h m" "tmp \<noteq> NULL" "tmp \<notin> ran m"
  shows "HashFind (key_hash (ids(tmp := k))) (key_cmp (ids(tmp := k))) tmp h = Some (case m (nat (k mod 2 ^ 32)) of None \<Rightarrow> NULL | Some p \<Rightarrow> p)"
proof -
  let ?ids = "ids(tmp := k)" and ?k = "nat (k mod 2 ^ 32)"
  obtain bs where bs: "hash_inv (key_hash ?ids) bs h" "inj_on (key_hash ?ids) (hash_items bs)"
    "\<And>k p. m k = Some p \<longleftrightarrow> p \<in> hash_items bs \<and> key_hash ids p = k" "tmp \<notin> hash_items bs"
    by (rule table_rel_tmp [OF assms(1,3), of k]) (rule that)
  show ?thesis
  proof (cases "m ?k")
    case None
    have "key_hash ?ids x \<noteq> key_hash ?ids tmp" if "x \<in> hash_items bs" for x
    proof -
      have "x \<noteq> tmp" "m ?k \<noteq> Some x" using bs(4) None that by auto
      then show ?thesis using bs(3) [of ?k x] that by simp
    qed
    then show ?thesis
      using int_key.find_absent [OF bs(1), of tmp] None by simp
  next
    case (Some p)
    then have p: "p \<in> hash_items bs" "key_hash ?ids p = key_hash ?ids tmp"
      using bs(3) [of ?k p] bs(4) by (cases "p = tmp"; simp)+
    then show ?thesis
      using int_key.find_present [OF bs(1,2) assms(2) p] Some by simp
  qed
qed

lemma table_remove:
  assumes "table_rel ids h m" "tmp \<noteq> NULL" "tmp \<notin> ran m"
  shows "\<exists>h'. HashRemove (key_hash (ids(tmp := k))) (key_cmp (ids(tmp := k))) tmp h = Some h' \<and>
    table_rel ids h' (m(nat (k mod 2 ^ 32) := None)) \<and> hl_data h' = hl_data h"
proof -
  let ?ids = "ids(tmp := k)" and ?k = "nat (k mod 2 ^ 32)"
  obtain bs where bs: "hash_inv (key_hash ?ids) bs h" "inj_on (key_hash ?ids) (hash_items bs)"
    "\<And>k p. m k = Some p \<longleftrightarrow> p \<in> hash_items bs \<and> key_hash ids p = k" "tmp \<notin> hash_items bs"
    by (rule table_rel_tmp [OF assms(1,3), of k]) (rule that)
  show ?thesis
  proof (cases "m ?k")
    case None
    have "key_hash ?ids x \<noteq> key_hash ?ids tmp" if "x \<in> hash_items bs" for x
    proof -
      have "x \<noteq> tmp" "m ?k \<noteq> Some x" using bs(4) None that by auto
      then show ?thesis using bs(3) [of ?k x] that by simp
    qed
    then have "HashRemove (key_hash (ids(tmp := k))) (key_cmp (ids(tmp := k))) tmp h = Some h"
      using int_key.remove_absent [OF bs(1), of tmp] by simp
    moreover have "m(?k := None) = m" using None by auto
    ultimately show ?thesis using assms(1) by (intro exI [of _ "h"]) simp
  next
    case (Some p)
    then have p: "p \<in> hash_items bs" "key_hash ?ids p = key_hash ?ids tmp" "key_hash ids p = ?k"
      using bs(3) [of ?k p] bs(4) by (cases "p = tmp"; simp)+
    obtain h' bs' where h: "HashRemove (key_hash ?ids) (key_cmp ?ids) tmp h = Some h'"
      "hash_inv (key_hash ?ids) bs' h'" "hash_items bs' = hash_items bs - {p}" "hl_data h' = hl_data h"
      using int_key.remove_present [OF bs(1,2) assms(2) p(1,2)] by blast
    have eq: "key_hash ?ids x = key_hash ids x" if "x \<in> hash_items bs" for x
      using bs(4) that by (metis key_hash_other)
    have inj: "inj_on (key_hash ids) (hash_items bs)"
      using bs(2) inj_on_cong [OF eq, of "hash_items bs"] by simp
    have "(m(?k := None)) j = Some x \<longleftrightarrow> x \<in> hash_items bs' \<and> key_hash ids x = j" for j x
      using bs(3) h(3) inj_onD [OF inj, of x p] p by auto
    then have "table_rel ids h' (m(?k := None))"
      using hash_inv_cong [OF h(2), of "key_hash ids"] eq h(3) inj_on_subset [OF inj]
      unfolding table_rel_def by (intro exI [of _ bs']) auto
    then show ?thesis using h(1,4) by blast
  qed
qed

lemma hash_items_update:
  assumes "i < length bs"
  shows "hash_items (bs[i := x # bs ! i]) = insert x (hash_items bs)"
proof (rule set_eqI)
  fix y
  have "y \<in> hash_items (bs[i := x # bs ! i]) \<longleftrightarrow> (\<exists>j < length bs. y \<in> set (bs[i := x # bs ! i] ! j))"
    by (rule hash_items_iff) simp
  also have "\<dots> \<longleftrightarrow> y = x \<or> (\<exists>j < length bs. y \<in> set (bs ! j))"
    using assms by (auto simp: nth_list_update)
  finally show "y \<in> hash_items (bs[i := x # bs ! i]) \<longleftrightarrow> y \<in> insert x (hash_items bs)"
    using hash_items_iff [of bs "length bs" y] by simp
qed

lemma table_insert:
  assumes rel: "table_rel ids h m" and p: "p \<noteq> NULL"
    and k: "key_hash ids p \<noteq> 0" "m (key_hash ids p) = None"
  shows "\<exists>h'. HashInsert (key_hash ids) p h = (0, h') \<and> table_rel ids h' (m(key_hash ids p \<mapsto> p)) \<and>
    hl_data h' = hl_data h"
proof -
  let ?hv = "key_hash ids"
  obtain bs where bs: "hash_inv ?hv bs h" "inj_on ?hv (hash_items bs)"
    "\<And>k p. m k = Some p \<longleftrightarrow> p \<in> hash_items bs \<and> ?hv p = k"
    using rel unfolding table_rel_def by blast
  let ?i = "?hv p mod hl_max h"
  have out: "p \<notin> hash_items bs" using bs(3) [of "?hv p" p] k(2) by simp
  obtain h' where h: "HashInsert ?hv p h = (0, h')" "hash_inv ?hv (bs[?i := p # bs ! ?i]) h'" "hl_data h' = hl_data h"
    using hash_inv_insert [OF bs(1) p out k(1)] by blast
  have items: "hash_items (bs[?i := p # bs ! ?i]) = insert p (hash_items bs)"
    using bs(1) by (intro hash_items_update) (simp add: hash_inv_def)
  have new: "?hv x \<noteq> ?hv p" if "x \<in> hash_items bs" for x using bs(3) [of "?hv p" x] k(2) that by auto
  have "inj_on ?hv (insert p (hash_items bs))" using bs(2) new by (fastforce simp: inj_on_insert)
  moreover have "(m(?hv p \<mapsto> p)) j = Some x \<longleftrightarrow> x \<in> insert p (hash_items bs) \<and> ?hv x = j" for j x
    using bs(3) [of j x] new by auto
  ultimately have "table_rel ids h' (m(?hv p \<mapsto> p))"
    unfolding table_rel_def using h(2) by (intro exI [of _ "bs[?i := p # bs ! ?i]"]) (simp add: items)
  then show ?thesis using h(1,3) by blast
qed

lemma table_rel_cong:
  assumes "table_rel ids h m" "\<And>p. p \<in> ran m \<Longrightarrow> ids' p = ids p"
  shows "table_rel ids' h m"
proof -
  obtain bs where bs: "hash_inv (key_hash ids) bs h" "inj_on (key_hash ids) (hash_items bs)"
    "\<And>k p. m k = Some p \<longleftrightarrow> p \<in> hash_items bs \<and> key_hash ids p = k"
    using assms(1) unfolding table_rel_def by blast
  have eq: "key_hash ids x = key_hash ids' x" if "x \<in> hash_items bs" for x
  proof -
    have "x \<in> ran m" using bs(3) [of "key_hash ids x" x] that by (blast intro: ranI)
    then show ?thesis using assms(2) [of x] by (simp add: key_hash_def)
  qed
  show ?thesis
    unfolding table_rel_def
    using hash_inv_cong [OF bs(1) eq] bs(2,3) inj_on_cong [OF eq, of "hash_items bs"] eq
    by (intro exI [of _ bs]) auto
qed

lemma table_rel_empty: "0 < n \<Longrightarrow> table_rel ids (empty_table n) Map.empty"
  unfolding table_rel_def using empty_table_inv [of n]
  by (intro exI [of _ "replicate n []"]) (simp add: hash_items_def)

lemma table_rel_key: "table_rel ids h m \<Longrightarrow> m k = Some p \<Longrightarrow> key_hash ids p = k \<and> p \<noteq> NULL"
  unfolding table_rel_def using hash_inv_bucket(4) by blast

end
