(* ===== verification/Session_Mgr.thy ===== *)
theory Session_Mgr
  imports Int_Key
begin

text \<open>
  The session table of the micro-thread library (\<open>sync_frame/micro_thread/mt_session.cpp\<close>): sessions
  are found by a 32-bit id through the chained hash table. The table refines a finite map from
  ids to sessions.
\<close>

section \<open>State and operations\<close>

record session_mgr =
  sm_curr :: int
  sm_map :: hash_list
  sm_id :: "ptr \<Rightarrow> int"
  sm_flag :: "ptr \<Rightarrow> int"

definition SESSION_IDLE :: int where "SESSION_IDLE = 0"
definition SESSION_INUSE :: int where "SESSION_INUSE = 1"

definition SessionMgr_init :: "bool \<Rightarrow> session_mgr \<Rightarrow> session_mgr" where
  "SessionMgr_init alloc s = s\<lparr>sm_curr := 0, sm_map := HashList_init alloc 100000 (sm_map s)\<rparr>"

definition GetSessionId :: "session_mgr \<Rightarrow> int \<times> session_mgr" where
  "GetSessionId s =
     (let c1 = i32_wrap (sm_curr s + 1);
          c2 = (if c1 = 0 then i32_wrap (c1 + 1) else c1)
      in (c2, s\<lparr>sm_curr := c2\<rparr>))"

definition InsertSession :: "ptr \<Rightarrow> session_mgr \<Rightarrow> int \<times> session_mgr" where
  "InsertSession session s =
     (if session = NULL then (- 100, s)
      else if odd (sm_flag s session) then (- 200, s)
      else (let s1 = s\<lparr>sm_flag := (sm_flag s)(session := SESSION_INUSE)\<rparr>;
                (ret, m) = HashInsert (key_hash (sm_id s1)) session (sm_map s1)
            in (ret, s1\<lparr>sm_map := m\<rparr>)))"

text \<open>\<open>FindSession\<close> and \<open>RemoveSession\<close> build a key object on the stack, here at address \<open>tmp\<close>.\<close>

definition FindSession :: "ptr \<Rightarrow> int \<Rightarrow> session_mgr \<Rightarrow> ptr option" where
  "FindSession tmp session_id s =
     (let ids = (sm_id s)(tmp := session_id)
      in HashFind (key_hash ids) (key_cmp ids) tmp (sm_map s))"

definition RemoveSession :: "ptr \<Rightarrow> int \<Rightarrow> session_mgr \<Rightarrow> session_mgr option" where
  "RemoveSession tmp session_id s = do {
     let ids = (sm_id s)(tmp := session_id);
     m \<leftarrow> HashRemove (key_hash ids) (key_cmp ids) tmp (sm_map s);
     Some (s\<lparr>sm_map := m\<rparr>)
   }"

text \<open>The destructor \<open>ISession::~ISession\<close>.\<close>

definition ISession_destroy :: "ptr \<Rightarrow> ptr \<Rightarrow> session_mgr \<Rightarrow> session_mgr option" where
  "ISession_destroy tmp session s =
     (if sm_flag s session \<noteq> 0 then do {
        s1 \<leftarrow> RemoveSession tmp (sm_id s session) s;
        Some (s1\<lparr>sm_flag := (sm_flag s1)(session := SESSION_IDLE)\<rparr>)
      } else Some s)"

section \<open>Refinement to a map\<close>

text \<open>The table represents the map \<open>m\<close> from ids, as 32-bit values, to session objects.\<close>

definition sess_rel :: "session_mgr \<Rightarrow> (nat \<rightharpoonup> ptr) \<Rightarrow> bool" where
  "sess_rel s m \<longleftrightarrow> table_rel (sm_id s) (sm_map s) m"

lemma find_session_rel:
  assumes "sess_rel s m" "tmp \<noteq> NULL" "tmp \<notin> ran m"
  shows "FindSession tmp k s = Some (case m (nat (k mod 2 ^ 32)) of None \<Rightarrow> NULL | Some p \<Rightarrow> p)"
  using table_find [OF assms(1) [unfolded sess_rel_def] assms(2,3), of k] by (simp add: FindSession_def)

lemma remove_session_rel:
  assumes "sess_rel s m" "tmp \<noteq> NULL" "tmp \<notin> ran m"
  shows "\<exists>h. RemoveSession tmp k s = Some (s\<lparr>sm_map := h\<rparr>) \<and> sess_rel (s\<lparr>sm_map := h\<rparr>) (m(nat (k mod 2 ^ 32) := None))"
  using table_remove [OF assms(1) [unfolded sess_rel_def] assms(2,3), of k]
  by (auto simp: RemoveSession_def sess_rel_def)

lemma insert_session_rel:
  assumes rel: "sess_rel s m" and p: "p \<noteq> NULL" "even (sm_flag s p)"
    and k: "key_hash (sm_id s) p \<noteq> 0" "m (key_hash (sm_id s) p) = None"
  shows "\<exists>s'. InsertSession p s = (0, s') \<and> sess_rel s' (m(key_hash (sm_id s) p \<mapsto> p)) \<and>
    sm_flag s' p = SESSION_INUSE \<and> sm_id s' = sm_id s"
  using table_insert [OF rel [unfolded sess_rel_def] p(1) k] p
  by (auto simp: InsertSession_def sess_rel_def)

lemma destroy_session_rel:
  assumes rel: "sess_rel s m" and tmp: "tmp \<noteq> NULL" "tmp \<notin> ran m"
    and p: "m (key_hash (sm_id s) p) = Some p" "sm_flag s p \<noteq> 0"
  shows "\<exists>s'. ISession_destroy tmp p s = Some s' \<and> sess_rel s' (m(key_hash (sm_id s) p := None)) \<and>
    p \<notin> ran (m(key_hash (sm_id s) p := None)) \<and> sm_flag s' p = 0"
proof -
  let ?k = "key_hash (sm_id s) p"
  have "nat (sm_id s p mod 2 ^ 32) = ?k" by (simp add: key_hash_def)
  then obtain h where h: "RemoveSession tmp (sm_id s p) s = Some (s\<lparr>sm_map := h\<rparr>)"
    "sess_rel (s\<lparr>sm_map := h\<rparr>) (m(?k := None))"
    using remove_session_rel [OF rel tmp, of "sm_id s p"] by auto
  have "p \<notin> ran (m(?k := None))" 
    using table_rel_key [OF rel [unfolded sess_rel_def], of _ p] by (auto simp: ran_def split: if_splits)
  moreover have "sess_rel (s\<lparr>sm_map := h, sm_flag := f\<rparr>) (m(?k := None))" for f
    using h(2) by (simp add: sess_rel_def)
  ultimately show ?thesis using h(1) p(2) by (simp add: ISession_destroy_def SESSION_IDLE_def)
qed

section \<open>Properties\<close>

text \<open>C9: the session table is a finite map from 32-bit ids to sessions. \<open>InsertSession\<close> of an idle
  session with a new non-zero id returns 0 and adds it, \<open>FindSession\<close> terminates and returns the
  session of an id or \<open>NULL\<close>, \<open>RemoveSession\<close> terminates and removes the id, and destroying a
  session in use removes it; nothing else of the map changes.\<close>

theorem session_table_map:
  assumes "sess_rel s m" and "tmp \<noteq> NULL" and "tmp \<notin> ran m"
  shows "FindSession tmp k s = Some (case m (nat (k mod 2 ^ 32)) of None \<Rightarrow> NULL | Some p \<Rightarrow> p) \<and>
    (\<exists>s'. RemoveSession tmp k s = Some s' \<and> sess_rel s' (m(nat (k mod 2 ^ 32) := None))) \<and>
    (p \<noteq> NULL \<and> even (sm_flag s p) \<and> key_hash (sm_id s) p \<noteq> 0 \<and> m (key_hash (sm_id s) p) = None \<longrightarrow>
      (\<exists>s'. InsertSession p s = (0, s') \<and> sess_rel s' (m(key_hash (sm_id s) p \<mapsto> p)))) \<and>
    (m (key_hash (sm_id s) p) = Some p \<and> sm_flag s p \<noteq> 0 \<longrightarrow>
      (\<exists>s'. ISession_destroy tmp p s = Some s' \<and> sess_rel s' (m(key_hash (sm_id s) p := None))))"
  using find_session_rel [OF assms, of k] remove_session_rel [OF assms, of k]
    insert_session_rel [OF assms(1), of p] destroy_session_rel [OF assms, of p] by blast

text \<open>Sessions 1 to 9 have their address as id; nothing is stored yet.\<close>

definition example_sessions :: session_mgr where
  "example_sessions = \<lparr>sm_curr = 0, sm_map = empty_table 7, sm_id = int, sm_flag = \<lambda>_. 0\<rparr>"

lemma example_sessions_rel: "sess_rel example_sessions Map.empty"
  using table_rel_empty [of 7] by (simp add: sess_rel_def example_sessions_def)

theorem session_table_map_witness:
  "FindSession 9 5 example_sessions = Some NULL \<and>
   (\<exists>s. InsertSession 5 example_sessions = (0, s) \<and> sess_rel s [5 \<mapsto> 5])"
  using session_table_map [OF example_sessions_rel, of 9 5 5]
  by (simp add: example_sessions_def key_hash_def)

text \<open>Session ids as 32-bit values run through \<open>1, ..., 2^32 - 1\<close> and skip 0.\<close>

lemma GetSessionId_value:
  "fst (GetSessionId s) mod 2 ^ 32 = sm_curr s mod 2 ^ 32 mod (2 ^ 32 - 1) + 1"
  "sm_curr (snd (GetSessionId s)) = fst (GetSessionId s)"
proof -
  let ?c = "sm_curr s mod 2 ^ 32"
  have step: "(sm_curr s + 1) mod 2 ^ 32 = (?c + 1) mod 2 ^ 32" by (rule mod_add_left_eq [symmetric])
  have r: "0 \<le> ?c" "?c < 2 ^ 32" by simp_all
  have "fst (GetSessionId s) mod 2 ^ 32 = (if (?c + 1) mod 2 ^ 32 = 0 then 1 else (?c + 1) mod 2 ^ 32)"
    using i32_wrap_zero [of "sm_curr s + 1"] i32_wrap_mod [of "sm_curr s + 1"] i32_wrap_exact [of 1] step
    by (auto simp: GetSessionId_def Let_def)
  also have "\<dots> = ?c mod (2 ^ 32 - 1) + 1"
    using r by (cases "?c = 2 ^ 32 - 1") (simp_all add: mod_pos_pos_trivial)
  finally show "fst (GetSessionId s) mod 2 ^ 32 = sm_curr s mod 2 ^ 32 mod (2 ^ 32 - 1) + 1" .
  show "sm_curr (snd (GetSessionId s)) = fst (GetSessionId s)" by (simp add: GetSessionId_def Let_def)
qed

fun session_ids :: "nat \<Rightarrow> session_mgr \<Rightarrow> int list" where
  "session_ids 0 s = []"
| "session_ids (Suc n) s = (let (i, s') = GetSessionId s in i # session_ids n s')"

lemma session_ids_nth:
  "i < n \<Longrightarrow> session_ids n s ! i mod 2 ^ 32 = (sm_curr s mod 2 ^ 32 + int i) mod (2 ^ 32 - 1) + 1"
proof (induction n arbitrary: s i)
  case (Suc n)
  obtain c s' where g: "GetSessionId s = (c, s')" by fastforce
  note v = GetSessionId_value [of s, unfolded g, simplified]
  show ?case
  proof (cases i)
    case 0
    then show ?thesis using v by (simp add: g)
  next
    case (Suc k)
    have "session_ids n s' ! k mod 2 ^ 32 = (sm_curr s' mod 2 ^ 32 + int k) mod (2 ^ 32 - 1) + 1"
      using Suc.IH [of k s'] Suc.prems Suc by simp
    also have "\<dots> = (sm_curr s mod 2 ^ 32 mod (2 ^ 32 - 1) + (1 + int k)) mod (2 ^ 32 - 1) + 1"
      using v by (simp add: add.assoc)
    also have "\<dots> = (sm_curr s mod 2 ^ 32 + (1 + int k)) mod (2 ^ 32 - 1) + 1"
      by (simp only: mod_add_left_eq)
    finally show ?thesis by (simp add: g Suc)
  qed
qed simp

lemma length_session_ids [simp]: "length (session_ids n s) = n"
  by (induction n arbitrary: s) (simp_all split: prod.split)

lemma shift_mod_inj:
  fixes a :: int
  assumes "(a + int i) mod M = (a + int j) mod M" "int i < M" "int j < M"
  shows "i = j"
proof -
  have "(a + int i - (a + int j)) mod M = 0" using assms(1) by (simp add: mod_eq_dvd_iff)
  then obtain q where q: "int i - int j = M * q" by (auto simp: dvd_def)
  have M: "0 < M" using assms(2) by simp
  have "q < 1" "- 1 < q"
    using q assms(2,3) M mult_le_cancel_left_pos [OF M, of 1 q] mult_le_cancel_left_pos [OF M, of q "- 1"]
    by (linarith)+
  then have "q = 0" by linarith
  then show ?thesis using q by simp
qed

text \<open>\<open>GetSessionId\<close> never returns 0, and among any \<open>2^32 - 1\<close> consecutive results no id repeats,
  also across the wrap-around of the 32-bit counter.\<close>

theorem session_ids_distinct:
  assumes "n \<le> 2 ^ 32 - 1"
  shows "distinct (session_ids n s) \<and> 0 \<notin> set (session_ids n s)"
proof
  let ?M = "2 ^ 32 - 1 :: int" and ?c = "sm_curr s mod 2 ^ 32"
  show "distinct (session_ids n s)"
    unfolding distinct_conv_nth
  proof (intro allI impI)
    fix i j assume ij: "i < length (session_ids n s)" "j < length (session_ids n s)" "i \<noteq> j"
    have "(?c + int i) mod ?M \<noteq> (?c + int j) mod ?M"
      using shift_mod_inj [of ?c i ?M j] ij assms by auto
    then show "session_ids n s ! i \<noteq> session_ids n s ! j"
      using session_ids_nth [of i n s] session_ids_nth [of j n s] ij by auto
  qed
  show "0 \<notin> set (session_ids n s)"
  proof
    assume "0 \<in> set (session_ids n s)"
    then obtain i where "i < n" "session_ids n s ! i = 0" by (auto simp: in_set_conv_nth)
    then have "(?c + int i) mod ?M + 1 = 0" using session_ids_nth [of i n s] by simp
    moreover have "0 \<le> (?c + int i) mod ?M" by (rule pos_mod_sign) simp
    ultimately show False by linarith
  qed
qed

theorem session_ids_distinct_witness:
  "session_ids 3 (example_sessions\<lparr>sm_curr := - 2\<rparr>) = [- 1, 1, 2] \<and>
   distinct (session_ids 3 (example_sessions\<lparr>sm_curr := - 2\<rparr>))"
  using session_ids_distinct [of 3 "example_sessions\<lparr>sm_curr := - 2\<rparr>"]
  by (simp add: GetSessionId_def i32_wrap_def numeral_3_eq_3 Let_def)

end
