(* ===== verification/Msg_Buf_Pool.thy ===== *)
theory Msg_Buf_Pool
  imports Int_Key
begin

text \<open>
  The pool of message buffers (\<open>sync_frame/micro_thread/mt_mbuf_pool.{h,cpp}\<close>): per buffer size one
  queue of free buffers, found through the chained hash table. Addresses of new objects come
  from the allocator \<open>new\<close>, an argument that maps the set of live objects to an address.
\<close>

section \<open>State and operations\<close>

datatype buff_type = BUFF_UNDEF | BUFF_RECV | BUFF_SEND

record msg_buf =
  mb_max_len :: int
  mb_msg_len :: int
  mb_buf_type :: buff_type
  mb_recv_len :: int
  mb_send_len :: int

definition MtMsgBuf_init :: "int \<Rightarrow> msg_buf" where
  "MtMsgBuf_init max_len =
     \<lparr>mb_max_len = max_len, mb_msg_len = 0, mb_buf_type = BUFF_UNDEF, mb_recv_len = 0, mb_send_len = 0\<rparr>"

definition MtMsgBuf_Reset :: "msg_buf \<Rightarrow> msg_buf" where
  "MtMsgBuf_Reset b = b\<lparr>mb_msg_len := 0, mb_recv_len := 0, mb_send_len := 0, mb_buf_type := BUFF_UNDEF\<rparr>"

text \<open>
  The pool with the fields of its \<open>MsgBufMap\<close> objects (\<open>mp_size\<close>, \<open>mp_free\<close>, \<open>mp_num\<close>,
  \<open>mp_queue\<close>) and of the buffers. \<open>mp_live\<close> are the allocated addresses.
\<close>

record mbuf_pool =
  mp_hash :: hash_list
  mp_size :: "ptr \<Rightarrow> int"
  mp_free :: "ptr \<Rightarrow> int"
  mp_num :: "ptr \<Rightarrow> int"
  mp_queue :: "ptr \<Rightarrow> ptr list"
  mp_buf :: "ptr \<Rightarrow> msg_buf"
  mp_live :: "ptr set"
  mp_max_free :: int

definition MsgBuffPool_init :: "bool \<Rightarrow> int \<Rightarrow> mbuf_pool \<Rightarrow> mbuf_pool" where
  "MsgBuffPool_init alloc max_free s =
     s\<lparr>mp_max_free := max_free, mp_hash := HashList_init alloc 10000 (mp_hash s)\<rparr>"

definition SetMaxFreeNum :: "int \<Rightarrow> mbuf_pool \<Rightarrow> mbuf_pool" where
  "SetMaxFreeNum max_free s = s\<lparr>mp_max_free := max_free\<rparr>"

definition MsgBufMap_init :: "ptr \<Rightarrow> int \<Rightarrow> int \<Rightarrow> mbuf_pool \<Rightarrow> mbuf_pool" where
  "MsgBufMap_init p buff_size max_free s =
     s\<lparr>mp_size := (mp_size s)(p := buff_size), mp_free := (mp_free s)(p := max_free),
       mp_num := (mp_num s)(p := 0), mp_queue := (mp_queue s)(p := []),
       mp_hash := (mp_hash s)\<lparr>hl_data := (hl_data (mp_hash s))(p := p)\<rparr>, mp_live := insert p (mp_live s)\<rparr>"

definition MsgBufMap_GetMsgBuf :: "(ptr set \<Rightarrow> ptr) \<Rightarrow> ptr \<Rightarrow> mbuf_pool \<Rightarrow> ptr \<times> mbuf_pool" where
  "MsgBufMap_GetMsgBuf new q s = (case mp_queue s q of
     p # ps \<Rightarrow> (p, s\<lparr>mp_queue := (mp_queue s)(q := ps), mp_num := (mp_num s)(q := mp_num s q - 1)\<rparr>)
   | [] \<Rightarrow> (let p = new (mp_live s)
           in (p, s\<lparr>mp_buf := (mp_buf s)(p := MtMsgBuf_init (mp_size s q)), mp_live := insert p (mp_live s)\<rparr>)))"

definition MsgBufMap_FreeMsgBuf :: "ptr \<Rightarrow> ptr \<Rightarrow> mbuf_pool \<Rightarrow> mbuf_pool" where
  "MsgBufMap_FreeMsgBuf q p s =
     (if mp_num s q \<ge> mp_free s q then s\<lparr>mp_live := mp_live s - {p}\<rparr>
      else s\<lparr>mp_buf := (mp_buf s)(p := MtMsgBuf_Reset (mp_buf s p)),
             mp_queue := (mp_queue s)(q := mp_queue s q @ [p]), mp_num := (mp_num s)(q := mp_num s q + 1)\<rparr>)"

text \<open>\<open>tmp\<close> is the address of the key object on the stack; the result \<^term>\<open>None\<close> is a search that does
  not return.\<close>

definition pool_find :: "ptr \<Rightarrow> int \<Rightarrow> mbuf_pool \<Rightarrow> ptr option" where
  "pool_find tmp sz s =
     (let ids = (mp_size s)(tmp := sz) in HashFind (key_hash ids) (key_cmp ids) tmp (mp_hash s))"

definition GetMsgBuf :: "(ptr set \<Rightarrow> ptr) \<Rightarrow> ptr \<Rightarrow> int \<Rightarrow> mbuf_pool \<Rightarrow> (ptr \<times> mbuf_pool) option" where
  "GetMsgBuf new tmp max_size s = do {
     hash_item \<leftarrow> pool_find tmp max_size s;
     if hash_item \<noteq> NULL then
       (let msg_map = hl_data (mp_hash s) hash_item
        in if msg_map \<noteq> NULL then Some (MsgBufMap_GetMsgBuf new msg_map s)
           else do {
             h \<leftarrow> HashRemove (key_hash (mp_size s)) (key_cmp (mp_size s)) hash_item (mp_hash s);
             Some (NULL, s\<lparr>mp_hash := h, mp_live := mp_live s - {hash_item}\<rparr>)
           })
     else
       (let msg_map = new (mp_live s);
            s1 = MsgBufMap_init msg_map max_size (mp_max_free s) s;
            s2 = s1\<lparr>mp_hash := snd (HashInsert (key_hash (mp_size s1)) msg_map (mp_hash s1))\<rparr>
        in Some (MsgBufMap_GetMsgBuf new msg_map s2))
   }"

definition FreeMsgBuf :: "ptr \<Rightarrow> ptr \<Rightarrow> mbuf_pool \<Rightarrow> mbuf_pool option" where
  "FreeMsgBuf tmp msg_buf s =
     (if msg_buf = NULL then Some s
      else (let s1 = s\<lparr>mp_buf := (mp_buf s)(msg_buf := MtMsgBuf_Reset (mp_buf s msg_buf))\<rparr>
            in do {
              hash_item \<leftarrow> pool_find tmp (mb_max_len (mp_buf s1 msg_buf)) s1;
              if hash_item = NULL \<or> hl_data (mp_hash s1) hash_item = NULL
              then Some (s1\<lparr>mp_live := mp_live s1 - {msg_buf}\<rparr>)
              else Some (MsgBufMap_FreeMsgBuf (hl_data (mp_hash s1) hash_item) msg_buf s1)
            }))"

section \<open>The invariant\<close>

text \<open>
  \<open>m\<close> maps a size to its queue object. The queues hold clean buffers of their size, each in one
  queue only, and no more than the queue may keep.
\<close>

definition buf_clean :: "msg_buf \<Rightarrow> bool" where
  "buf_clean b \<longleftrightarrow> b = MtMsgBuf_init (mb_max_len b)"

definition pool_inv :: "(nat \<rightharpoonup> ptr) \<Rightarrow> mbuf_pool \<Rightarrow> bool" where
  "pool_inv m s \<longleftrightarrow> table_rel (mp_size s) (mp_hash s) m \<and> finite (mp_live s) \<and> NULL \<notin> mp_live s \<and> ran m \<subseteq> mp_live s \<and>
     (\<forall>q \<in> ran m. hl_data (mp_hash s) q = q \<and> distinct (mp_queue s q) \<and> mp_num s q = int (length (mp_queue s q)) \<and>
        mp_num s q \<le> max 0 (mp_free s q) \<and> set (mp_queue s q) \<subseteq> mp_live s - ran m \<and>
        (\<forall>p \<in> set (mp_queue s q). buf_clean (mp_buf s p) \<and> mb_max_len (mp_buf s p) = mp_size s q)) \<and>
     (\<forall>q \<in> ran m. \<forall>q' \<in> ran m. q \<noteq> q' \<longrightarrow> set (mp_queue s q) \<inter> set (mp_queue s q') = {})"

text \<open>The buffers waiting in the pool.\<close>

definition pooled :: "(nat \<rightharpoonup> ptr) \<Rightarrow> mbuf_pool \<Rightarrow> ptr set" where
  "pooled m s = (\<Union>q \<in> ran m. set (mp_queue s q))"

text \<open>An allocator that returns an address not in use.\<close>

definition fresh_alloc :: "(ptr set \<Rightarrow> ptr) \<Rightarrow> bool" where
  "fresh_alloc new \<longleftrightarrow> (\<forall>L. finite L \<longrightarrow> new L \<notin> L \<and> new L \<noteq> NULL)"

lemma buf_clean_init [simp]: "buf_clean (MtMsgBuf_init n)" "mb_max_len (MtMsgBuf_init n) = n"
  by (simp_all add: buf_clean_def MtMsgBuf_init_def)

lemma buf_clean_reset [simp]: "buf_clean (MtMsgBuf_Reset b)" "mb_max_len (MtMsgBuf_Reset b) = mb_max_len b"
  by (simp_all add: buf_clean_def MtMsgBuf_init_def MtMsgBuf_Reset_def)

lemma pool_invD:
  assumes "pool_inv m s"
  shows "table_rel (mp_size s) (mp_hash s) m" "finite (mp_live s)" "NULL \<notin> mp_live s" "ran m \<subseteq> mp_live s"
    "\<And>q. q \<in> ran m \<Longrightarrow> hl_data (mp_hash s) q = q" "\<And>q. q \<in> ran m \<Longrightarrow> distinct (mp_queue s q)"
    "\<And>q. q \<in> ran m \<Longrightarrow> mp_num s q = int (length (mp_queue s q))" "\<And>q. q \<in> ran m \<Longrightarrow> mp_num s q \<le> max 0 (mp_free s q)"
    "\<And>q. q \<in> ran m \<Longrightarrow> set (mp_queue s q) \<subseteq> mp_live s - ran m"
    "\<And>q p. q \<in> ran m \<Longrightarrow> p \<in> set (mp_queue s q) \<Longrightarrow> buf_clean (mp_buf s p) \<and> mb_max_len (mp_buf s p) = mp_size s q"
    "\<And>q q'. q \<in> ran m \<Longrightarrow> q' \<in> ran m \<Longrightarrow> q \<noteq> q' \<Longrightarrow> set (mp_queue s q) \<inter> set (mp_queue s q') = {}"
  using assms unfolding pool_inv_def by blast+

lemma table_rel_data [simp]: "table_rel ids (h\<lparr>hl_data := f\<rparr>) m = table_rel ids h m"
  by (simp add: table_rel_def hash_inv_def)

lemma pool_find_rel:
  assumes "pool_inv m s" "tmp \<noteq> NULL" "tmp \<notin> ran m"
  shows "pool_find tmp k s = Some (case m (nat (k mod 2 ^ 32)) of None \<Rightarrow> NULL | Some q \<Rightarrow> q)"
  using table_find [OF pool_invD(1) [OF assms(1)] assms(2,3), of k] by (simp add: pool_find_def)

lemma map_get_inv:
  assumes inv: "pool_inv m s" and q: "q \<in> ran m" and new: "fresh_alloc new"
    and get: "MsgBufMap_GetMsgBuf new q s = (p, s')"
  shows "pool_inv m s'" "p \<in> mp_live s'" "p \<notin> pooled m s'" "p \<notin> ran m" "buf_clean (mp_buf s' p)"
    "mb_max_len (mp_buf s' p) = mp_size s q" "p \<in> pooled m s \<or> p \<notin> mp_live s"
proof -
  note I = pool_invD [OF inv]
  have all: "pool_inv m s' \<and> p \<in> mp_live s' \<and> p \<notin> pooled m s' \<and> p \<notin> ran m \<and> buf_clean (mp_buf s' p) \<and>
        mb_max_len (mp_buf s' p) = mp_size s q \<and> (p \<in> pooled m s \<or> p \<notin> mp_live s)"
  proof (cases "mp_queue s q")
    case Nil
    have s': "p = new (mp_live s)"
      "s' = s\<lparr>mp_buf := (mp_buf s)(p := MtMsgBuf_init (mp_size s q)), mp_live := insert p (mp_live s)\<rparr>"
      using get Nil by (auto simp: MsgBufMap_GetMsgBuf_def Let_def)
    have p: "p \<notin> mp_live s" "p \<noteq> NULL" using new I(2) by (auto simp: fresh_alloc_def s'(1))
    have out: "p \<notin> ran m" "\<And>r. r \<in> ran m \<Longrightarrow> p \<notin> set (mp_queue s r)" using p(1) I(4,9) by blast+
    have "pool_inv m s'"
      unfolding pool_inv_def using I p out by (auto simp: s'(2) dest: I(9) [THEN subsetD])
    then show ?thesis
      using p out by (simp add: s'(2) pooled_def)
  next
    case (Cons x xs)
    have s': "p = x" "s' = s\<lparr>mp_queue := (mp_queue s)(q := xs), mp_num := (mp_num s)(q := mp_num s q - 1)\<rparr>"
      using get Cons by (auto simp: MsgBufMap_GetMsgBuf_def)
    have x: "x \<in> mp_live s" "x \<notin> ran m" "x \<notin> set xs" "distinct xs" using I(6,9) [OF q] Cons by auto
    have other: "x \<notin> set (mp_queue s r)" if "r \<in> ran m" "r \<noteq> q" for r
      using I(11) [OF that(1) q that(2)] Cons by auto
    have "pool_inv m s'"
      unfolding pool_inv_def
    proof (intro conjI ballI impI)
      fix r assume r: "r \<in> ran m"
      show "mp_num s' r = int (length (mp_queue s' r))" "mp_num s' r \<le> max 0 (mp_free s' r)"
        using I(7,8) [OF r] Cons by (auto simp: s'(2))
      show "set (mp_queue s' r) \<subseteq> mp_live s' - ran m" "distinct (mp_queue s' r)"
        using I(6,9) [OF r] Cons by (auto simp: s'(2))
    next
      fix r y assume "r \<in> ran m" "y \<in> set (mp_queue s' r)"
      then show "buf_clean (mp_buf s' y)" "mb_max_len (mp_buf s' y) = mp_size s' r"
        using I(10) [of r y] Cons by (auto simp: s'(2) split: if_splits)
    next
      fix r r' assume r: "r \<in> ran m" and "r' \<in> ran m" "r \<noteq> r'"
      then show "set (mp_queue s' r) \<inter> set (mp_queue s' r') = {}"
        using I(11) [OF r, of r'] Cons by (auto simp: s'(2))
    qed (use I(1-5) in \<open>auto simp: s'(2)\<close>)
    moreover have "buf_clean (mp_buf s x)" "mb_max_len (mp_buf s x) = mp_size s q"
      using I(10) [OF q, of x] Cons by auto
    ultimately show ?thesis
      using x other q Cons by (auto simp: s' pooled_def intro!: bexI [of _ q])
  qed
  then show "pool_inv m s'" "p \<in> mp_live s'" "p \<notin> pooled m s'" "p \<notin> ran m" "buf_clean (mp_buf s' p)"
    "mb_max_len (mp_buf s' p) = mp_size s q" "p \<in> pooled m s \<or> p \<notin> mp_live s"
    by blast+
qed

text \<open>Registering a queue object for a new size.\<close>

lemma pool_register:
  assumes inv: "pool_inv m s" and new: "fresh_alloc new"
    and k: "m (nat (k mod 2 ^ 32)) = None" "nat (k mod 2 ^ 32) \<noteq> 0"
  defines "q \<equiv> new (mp_live s)"
  defines "s1 \<equiv> MsgBufMap_init q k (mp_max_free s) s"
  shows "\<exists>h. HashInsert (key_hash (mp_size s1)) q (mp_hash s1) = (0, h) \<and>
    pool_inv (m(nat (k mod 2 ^ 32) \<mapsto> q)) (s1\<lparr>mp_hash := h\<rparr>)"
proof -
  note I = pool_invD [OF inv]
  let ?k = "nat (k mod 2 ^ 32)"
  have q: "q \<notin> mp_live s" "q \<noteq> NULL" using new I(2) by (auto simp: fresh_alloc_def q_def)
  then have out: "q \<notin> ran m" using I(4) by blast
  have key: "key_hash (mp_size s1) q = ?k" by (simp add: s1_def MsgBufMap_init_def key_hash_def)
  have rel: "table_rel (mp_size s1) (mp_hash s1) m"
    using out by (auto simp: s1_def MsgBufMap_init_def intro!: table_rel_cong [OF I(1)])
  obtain h where h: "HashInsert (key_hash (mp_size s1)) q (mp_hash s1) = (0, h)"
    "table_rel (mp_size s1) h (m(?k \<mapsto> q))" "hl_data h = hl_data (mp_hash s1)"
    using table_insert [OF rel q(2)] k by (auto simp: key)
  have ran: "ran (m(?k \<mapsto> q)) = insert q (ran m)" using k(1) by simp
  have old: "r \<in> ran m \<Longrightarrow> r \<noteq> q" for r using out by auto
  have notq: "r \<in> ran m \<Longrightarrow> q \<notin> set (mp_queue s r)" for r using I(9) q(1) by blast
  have "pool_inv (m(?k \<mapsto> q)) (s1\<lparr>mp_hash := h\<rparr>)"
    unfolding pool_inv_def ran
  proof (intro conjI ballI impI)
    fix r assume "r \<in> insert q (ran m)"
    then show "hl_data (mp_hash (s1\<lparr>mp_hash := h\<rparr>)) r = r" "distinct (mp_queue (s1\<lparr>mp_hash := h\<rparr>) r)"
      "mp_num (s1\<lparr>mp_hash := h\<rparr>) r = int (length (mp_queue (s1\<lparr>mp_hash := h\<rparr>) r))"
      "mp_num (s1\<lparr>mp_hash := h\<rparr>) r \<le> max 0 (mp_free (s1\<lparr>mp_hash := h\<rparr>) r)"
      "set (mp_queue (s1\<lparr>mp_hash := h\<rparr>) r) \<subseteq> mp_live (s1\<lparr>mp_hash := h\<rparr>) - insert q (ran m)"
      using h(3) I(5-9) [of r] notq [of r] by (auto simp: s1_def MsgBufMap_init_def)
  next
    fix r y assume "r \<in> insert q (ran m)" "y \<in> set (mp_queue (s1\<lparr>mp_hash := h\<rparr>) r)"
    then show "buf_clean (mp_buf (s1\<lparr>mp_hash := h\<rparr>) y)"
      "mb_max_len (mp_buf (s1\<lparr>mp_hash := h\<rparr>) y) = mp_size (s1\<lparr>mp_hash := h\<rparr>) r"
      using I(10) [of r y] by (auto simp: s1_def MsgBufMap_init_def split: if_splits)
  next
    fix r r' assume "r \<in> insert q (ran m)" "r' \<in> insert q (ran m)" "r \<noteq> r'"
    then show "set (mp_queue (s1\<lparr>mp_hash := h\<rparr>) r) \<inter> set (mp_queue (s1\<lparr>mp_hash := h\<rparr>) r') = {}"
      using I(11) [of r r'] by (auto simp: s1_def MsgBufMap_init_def)
  qed (use h(2) I(2-4) q in \<open>auto simp: s1_def MsgBufMap_init_def\<close>)
  then show ?thesis using h(1) by blast
qed

lemma map_free_inv:
  assumes inv: "pool_inv m s" and q: "q \<in> ran m" and p: "p \<in> mp_live s" "p \<notin> ran m" "p \<notin> pooled m s"
    "mb_max_len (mp_buf s p) = mp_size s q"
  shows "pool_inv m (MsgBufMap_FreeMsgBuf q p s)"
    "if mp_num s q < mp_free s q then pooled m (MsgBufMap_FreeMsgBuf q p s) = insert p (pooled m s)
     else pooled m (MsgBufMap_FreeMsgBuf q p s) = pooled m s \<and> p \<notin> mp_live (MsgBufMap_FreeMsgBuf q p s)"
proof -
  note I = pool_invD [OF inv]
  let ?s = "MsgBufMap_FreeMsgBuf q p s"
  have out: "p \<notin> set (mp_queue s r)" if "r \<in> ran m" for r using p(3) that by (auto simp: pooled_def)
  show "pool_inv m ?s"
  proof (cases "mp_num s q < mp_free s q")
    case True
    then have s: "?s = s\<lparr>mp_buf := (mp_buf s)(p := MtMsgBuf_Reset (mp_buf s p)),
        mp_queue := (mp_queue s)(q := mp_queue s q @ [p]), mp_num := (mp_num s)(q := mp_num s q + 1)\<rparr>"
      by (simp add: MsgBufMap_FreeMsgBuf_def)
    show ?thesis
      unfolding pool_inv_def
    proof (intro conjI ballI impI)
      fix r assume r: "r \<in> ran m"
      show "hl_data (mp_hash ?s) r = r" "distinct (mp_queue ?s r)" "mp_num ?s r = int (length (mp_queue ?s r))"
        "set (mp_queue ?s r) \<subseteq> mp_live ?s - ran m" "mp_num ?s r \<le> max 0 (mp_free ?s r)"
        using I(5-9) [OF r] out [OF r] p(1,2) True by (auto simp: s)
    next
      fix r y assume "r \<in> ran m" "y \<in> set (mp_queue ?s r)"
      then show "buf_clean (mp_buf ?s y)" "mb_max_len (mp_buf ?s y) = mp_size ?s r"
        using I(10) [of r y] p(4) out [of r] by (auto simp: s split: if_splits)
    next
      fix r r' assume "r \<in> ran m" "r' \<in> ran m" "r \<noteq> r'"
      then show "set (mp_queue ?s r) \<inter> set (mp_queue ?s r') = {}"
        using I(11) [of r r'] out [of r] out [of r'] by (auto simp: s)
    qed (use I(1-4) in \<open>auto simp: s\<close>)
  next
    case False
    then have s: "?s = s\<lparr>mp_live := mp_live s - {p}\<rparr>" by (simp add: MsgBufMap_FreeMsgBuf_def)
    show ?thesis
      unfolding pool_inv_def
    proof (intro conjI ballI impI)
      fix r assume r: "r \<in> ran m"
      show "set (mp_queue ?s r) \<subseteq> mp_live ?s - ran m" using I(9) [OF r] out [OF r] by (auto simp: s)
    qed (use I p(2) in \<open>auto simp: s\<close>)
  qed
  show "if mp_num s q < mp_free s q then pooled m ?s = insert p (pooled m s)
     else pooled m ?s = pooled m s \<and> p \<notin> mp_live ?s"
    using q by (auto simp: MsgBufMap_FreeMsgBuf_def pooled_def split: if_splits)
qed

section \<open>Properties\<close>

text \<open>\<open>GetMsgBuf\<close> terminates and returns a live, reset buffer of the requested 32-bit size that no free
  queue holds any more and that was not in use before the call: it was either waiting in the pool
  or is newly allocated. The pool stays well-formed.\<close>

theorem pool_get_exclusive:
  assumes "pool_inv m s" and "fresh_alloc new" and "tmp \<noteq> NULL" and "tmp \<notin> ran m" and "nat (k mod 2 ^ 32) \<noteq> 0"
  shows "\<exists>p s' m'. GetMsgBuf new tmp k s = Some (p, s') \<and> pool_inv m' s' \<and> m \<subseteq>\<^sub>m m' \<and>
    p \<in> mp_live s' \<and> p \<notin> pooled m' s' \<and> p \<notin> ran m' \<and> (p \<in> pooled m s \<or> p \<notin> mp_live s) \<and>
    buf_clean (mp_buf s' p) \<and> mb_max_len (mp_buf s' p) mod 2 ^ 32 = k mod 2 ^ 32"
proof (cases "m (nat (k mod 2 ^ 32))")
  case (Some q)
  note I = pool_invD [OF assms(1)]
  have q: "q \<in> ran m" "q \<noteq> NULL" "key_hash (mp_size s) q = nat (k mod 2 ^ 32)"
    using Some table_rel_key [OF I(1) Some] by (auto intro: ranI)
  then have sz: "mp_size s q mod 2 ^ 32 = k mod 2 ^ 32" by (simp add: key_hash_def eq_nat_nat_iff)
  obtain p s' where g: "MsgBufMap_GetMsgBuf new q s = (p, s')" by fastforce
  have "GetMsgBuf new tmp k s = Some (p, s')"
    using q I(5) [OF q(1)] g pool_find_rel [OF assms(1,3,4), of k] Some by (simp add: GetMsgBuf_def)
  then show ?thesis using map_get_inv [OF assms(1) q(1) assms(2) g] sz by auto
next
  case None
  note I = pool_invD [OF assms(1)]
  let ?q = "new (mp_live s)" and ?k = "nat (k mod 2 ^ 32)"
  let ?s1 = "MsgBufMap_init ?q k (mp_max_free s) s"
  obtain h where h: "HashInsert (key_hash (mp_size ?s1)) ?q (mp_hash ?s1) = (0, h)"
    "pool_inv (m(?k \<mapsto> ?q)) (?s1\<lparr>mp_hash := h\<rparr>)"
    using pool_register [OF assms(1,2) None assms(5)] by blast
  have fresh: "?q \<notin> mp_live s" using assms(2) I(2) by (auto simp: fresh_alloc_def)
  obtain p s' where g: "MsgBufMap_GetMsgBuf new ?q (?s1\<lparr>mp_hash := h\<rparr>) = (p, s')" by fastforce
  have "GetMsgBuf new tmp k s = Some (p, s')"
    using h(1) g pool_find_rel [OF assms(1,3,4), of k] None by (simp add: GetMsgBuf_def Let_def)
  moreover have q: "?q \<in> ran (m(?k \<mapsto> ?q))" by (simp add: ran_def exI [of _ ?k])
  moreover have "pooled (m(?k \<mapsto> ?q)) (?s1\<lparr>mp_hash := h\<rparr>) \<subseteq> pooled m s"
    using None fresh I(4) by (auto simp: pooled_def MsgBufMap_init_def split: if_splits)
  moreover have "p \<notin> mp_live ?s1 \<Longrightarrow> p \<notin> mp_live s" by (simp add: MsgBufMap_init_def)
  moreover have "m \<subseteq>\<^sub>m m(?k \<mapsto> ?q)" using None by (auto simp: map_le_def)
  ultimately show ?thesis
    using map_get_inv [OF h(2) q assms(2) g]
    by (intro exI [of _ p] exI [of _ s'] exI [of _ "m(?k \<mapsto> ?q)"]) (auto simp: MsgBufMap_init_def)
qed

definition example_pool :: mbuf_pool where
  "example_pool = \<lparr>mp_hash = empty_table 7, mp_size = \<lambda>_. 0, mp_free = \<lambda>_. 0, mp_num = \<lambda>_. 0, mp_queue = \<lambda>_. [],
     mp_buf = \<lambda>_. MtMsgBuf_init 0, mp_live = {}, mp_max_free = 300\<rparr>"

definition bump_alloc :: "ptr set \<Rightarrow> ptr" where
  "bump_alloc L = Suc (Max (insert 0 L))"

lemma bump_alloc_fresh: "fresh_alloc bump_alloc"
  unfolding fresh_alloc_def bump_alloc_def
proof (intro allI impI conjI)
  fix L :: "ptr set" assume "finite L"
  then have "x \<le> Max (insert 0 L)" if "x \<in> L" for x using that by (intro Max_ge) auto
  then show "Suc (Max (insert 0 L)) \<notin> L" using not_less_eq_eq by blast
qed simp

lemma example_pool_inv: "pool_inv Map.empty example_pool"
  using table_rel_empty [of 7] by (simp add: pool_inv_def example_pool_def)

theorem pool_get_exclusive_witness:
  "\<exists>p s' m'. GetMsgBuf bump_alloc 9 4096 example_pool = Some (p, s') \<and> pool_inv m' s' \<and> p \<notin> pooled m' s' \<and>
    mb_max_len (mp_buf s' p) mod 2 ^ 32 = 4096"
proof -
  have "nat (4096 mod 2 ^ 32 :: int) \<noteq> 0" by simp
  from pool_get_exclusive [OF example_pool_inv bump_alloc_fresh, of 9 4096, OF _ _ this] show ?thesis by auto
qed

text \<open>\<open>FreeMsgBuf\<close> of a buffer in use whose size has a queue terminates and either returns the buffer,
  reset, to that queue or, when the queue is full, deletes it; no buffer is ever in two queues
  and no queue exceeds its limit, so no later \<open>GetMsgBuf\<close> hands out a buffer twice.\<close>

theorem pool_free_bounded:
  assumes "pool_inv m s" and "tmp \<noteq> NULL" and "tmp \<notin> ran m"
    and "p \<in> mp_live s" and "p \<notin> ran m" and "p \<notin> pooled m s"
    and "m (nat (mb_max_len (mp_buf s p) mod 2 ^ 32)) = Some q" and "mp_size s q = mb_max_len (mp_buf s p)"
  shows "\<exists>s'. FreeMsgBuf tmp p s = Some s' \<and> pool_inv m s' \<and>
    (if int (length (mp_queue s q)) < mp_free s q then pooled m s' = insert p (pooled m s) \<and> buf_clean (mp_buf s' p)
     else pooled m s' = pooled m s \<and> p \<notin> mp_live s')"
proof -
  note I = pool_invD [OF assms(1)]
  have q: "q \<in> ran m" "q \<noteq> NULL" using assms(7) table_rel_key [OF I(1) assms(7)] by (auto intro: ranI)
  have p: "p \<noteq> NULL" using assms(4) I(3) by metis
  let ?s1 = "s\<lparr>mp_buf := (mp_buf s)(p := MtMsgBuf_Reset (mp_buf s p))\<rparr>"
  have out: "p \<notin> set (mp_queue s r)" if "r \<in> ran m" for r using assms(6) that by (auto simp: pooled_def)
  have "buf_clean (mp_buf ?s1 y) \<and> mb_max_len (mp_buf ?s1 y) = mp_size s r"
    if "r \<in> ran m" "y \<in> set (mp_queue s r)" for r y using I(10) [OF that] by auto
  then have inv1: "pool_inv m ?s1"
    unfolding pool_inv_def by (intro conjI ballI impI) (use I in simp_all)
  have same: "pooled m ?s1 = pooled m s" by (simp add: pooled_def)
  have "FreeMsgBuf tmp p s = Some (MsgBufMap_FreeMsgBuf q p ?s1)"
    using p q I(5) [OF q(1)] pool_find_rel [OF inv1 assms(2,3), of "mb_max_len (mp_buf s p)"] assms(7)
    by (simp add: FreeMsgBuf_def)
  moreover have "pool_inv m (MsgBufMap_FreeMsgBuf q p ?s1)"
    by (rule map_free_inv(1) [OF inv1 q(1)]) (use assms(4-6,8) same in simp_all)
  moreover have "if mp_num s q < mp_free s q then pooled m (MsgBufMap_FreeMsgBuf q p ?s1) = insert p (pooled m s)
     else pooled m (MsgBufMap_FreeMsgBuf q p ?s1) = pooled m s \<and> p \<notin> mp_live (MsgBufMap_FreeMsgBuf q p ?s1)"
    using map_free_inv(2) [OF inv1 q(1), of p] assms(4-6,8) same by simp
  ultimately show ?thesis
    using I(7) [OF q(1)] by (auto simp: MsgBufMap_FreeMsgBuf_def split: if_splits)
qed

text \<open>Queue object 1 for buffers of 64 bytes, buffer 2 in use.\<close>

definition pool_in_use :: mbuf_pool where
  "pool_in_use = example_pool\<lparr>mp_hash := (snd (HashInsert (key_hash (\<lambda>_. 64)) 1 (empty_table 7)))\<lparr>hl_data := id\<rparr>,
     mp_size := \<lambda>_. 64, mp_free := \<lambda>_. 300, mp_live := {1, 2}, mp_buf := \<lambda>_. MtMsgBuf_init 64\<rparr>"

lemma pool_in_use_inv: "pool_inv [64 \<mapsto> 1] pool_in_use"
proof -
  have k: "key_hash (\<lambda>_. 64) x = 64" for x by (simp add: key_hash_def)
  obtain h where "HashInsert (key_hash (\<lambda>_. 64)) 1 (empty_table 7) = (0, h)" "table_rel (\<lambda>_. 64) h [64 \<mapsto> 1]"
    using table_insert [OF table_rel_empty [of 7 "\<lambda>_. 64"], of 1] by (auto simp: k)
  then show ?thesis by (simp add: pool_inv_def pool_in_use_def example_pool_def)
qed

theorem pool_free_bounded_witness:
  "\<exists>s'. FreeMsgBuf 9 2 pool_in_use = Some s' \<and> pool_inv [64 \<mapsto> 1] s' \<and> pooled [64 \<mapsto> 1] s' = {2}"
  using pool_free_bounded [OF pool_in_use_inv, of 9 2 1]
  by (auto simp: pool_in_use_def pooled_def example_pool_def)

end
