(* ===== verification/Micro_Thread.thy ===== *)
theory Micro_Thread
  imports Prelude
begin

unbundle bit_operations_syntax

text \<open>
  The thread objects of \<open>sync_frame/micro_thread/micro_thread.cpp\<close>: a \<open>MicroThread\<close> with its
  state, its type, the bit set of the lists it is in, its wake-up time and its stack. The jump
  buffer and the assembler routines that save and restore it are not part of the state: switching
  to a thread is the fact that it is the current one.
\<close>

section \<open>State\<close>

datatype thread_type = NORMAL | PRIMORDIAL | DAEMON | SUB_THREAD
datatype thread_state = INITIAL | RUNABLE | RUNNING | SLEEPING | PENDING
datatype thread_flag = FREE_LIST | IO_LIST | SLEEP_LIST | RUN_LIST | PEND_LIST | SUB_LIST

primrec flag_mask :: "thread_flag \<Rightarrow> u32" where
  "flag_mask FREE_LIST = 0x1"
| "flag_mask IO_LIST = 0x2"
| "flag_mask SLEEP_LIST = 0x4"
| "flag_mask RUN_LIST = 0x8"
| "flag_mask PEND_LIST = 0x10"
| "flag_mask SUB_LIST = 0x20"

record mt_stack =
  stk_size :: nat
  stk_vaddr_size :: nat
  stk_vaddr :: nat
  stk_esp :: nat
  stk_bottom :: nat
  stk_top :: nat
  stk_private :: ptr

record micro_thread =
  th_stack_size :: nat
  th_stack :: "mt_stack option"
  th_wakeup_time :: u64
  th_state :: thread_state
  th_type :: thread_type
  th_flag :: u32
  th_fdset :: "ptr list"
  th_sub_list :: "ptr list"
  th_parent :: ptr
  th_start :: ptr
  th_args :: ptr

section \<open>Operations\<close>

definition SetFlag :: "thread_flag \<Rightarrow> micro_thread \<Rightarrow> micro_thread" where
  "SetFlag f t = t\<lparr>th_flag := th_flag t OR flag_mask f\<rparr>"
definition UnsetFlag :: "thread_flag \<Rightarrow> micro_thread \<Rightarrow> micro_thread" where
  "UnsetFlag f t = t\<lparr>th_flag := th_flag t AND NOT (flag_mask f)\<rparr>"
definition HasFlag :: "thread_flag \<Rightarrow> micro_thread \<Rightarrow> bool" where
  "HasFlag f t \<longleftrightarrow> th_flag t AND flag_mask f \<noteq> 0"

definition SetState :: "thread_state \<Rightarrow> micro_thread \<Rightarrow> micro_thread" where
  "SetState st t = t\<lparr>th_state := st\<rparr>"
definition SetType :: "thread_type \<Rightarrow> micro_thread \<Rightarrow> micro_thread" where
  "SetType ty t = t\<lparr>th_type := ty\<rparr>"
definition SetWakeupTime :: "u64 \<Rightarrow> micro_thread \<Rightarrow> micro_thread" where
  "SetWakeupTime w t = t\<lparr>th_wakeup_time := w\<rparr>"
definition SetSartFunc :: "ptr \<Rightarrow> ptr \<Rightarrow> micro_thread \<Rightarrow> micro_thread" where
  "SetSartFunc func args t = t\<lparr>th_start := func, th_args := args\<rparr>"
definition IsSubThread :: "micro_thread \<Rightarrow> bool" where
  "IsSubThread t \<longleftrightarrow> th_type t = SUB_THREAD"

text \<open>The constructors \<open>Thread(0)\<close> and \<open>MicroThread(type)\<close>, with the static \<open>default_stack_size\<close>.\<close>

definition MicroThread_init :: "nat \<Rightarrow> thread_type \<Rightarrow> micro_thread" where
  "MicroThread_init default_stack_size ty =
     \<lparr>th_stack_size = default_stack_size, th_stack = None, th_wakeup_time = 0, th_state = INITIAL, th_type = ty,
      th_flag = 0, th_fdset = [], th_sub_list = [], th_parent = NULL, th_start = NULL, th_args = NULL\<rparr>"

definition MEM_PAGE_SIZE :: nat where "MEM_PAGE_SIZE = 4096"
definition STACK_PAD_SIZE :: nat where "STACK_PAD_SIZE = 128"

definition SetDefaultStackSize :: "nat \<Rightarrow> nat" where
  "SetDefaultStackSize sz = (sz + MEM_PAGE_SIZE - 1) div MEM_PAGE_SIZE * MEM_PAGE_SIZE"

text \<open>\<open>InitStack\<close>: \<open>calloc_ok\<close> and \<open>mmap\<close> are the answers of the two allocations.\<close>

definition InitStack :: "bool \<Rightarrow> (nat \<Rightarrow> nat option) \<Rightarrow> micro_thread \<Rightarrow> bool \<times> micro_thread" where
  "InitStack calloc_ok mmap t =
     (if th_stack t \<noteq> None then (True, t)
      else if \<not> calloc_ok then (False, t)
      else (let memsize0 = MEM_PAGE_SIZE * 2 + th_stack_size t;
                memsize = (memsize0 + MEM_PAGE_SIZE - 1) div MEM_PAGE_SIZE * MEM_PAGE_SIZE
            in case mmap memsize of
                 None \<Rightarrow> (False, t\<lparr>th_stack := None\<rparr>)
               | Some vaddr \<Rightarrow>
                   (True, t\<lparr>th_stack := Some
                      \<lparr>stk_size = th_stack_size t, stk_vaddr_size = memsize, stk_vaddr = vaddr,
                       stk_esp = vaddr + MEM_PAGE_SIZE + th_stack_size t - STACK_PAD_SIZE,
                       stk_bottom = vaddr + MEM_PAGE_SIZE, stk_top = vaddr + MEM_PAGE_SIZE + th_stack_size t,
                       stk_private = NULL\<rparr>\<rparr>)))"

definition FreeStack :: "micro_thread \<Rightarrow> micro_thread" where
  "FreeStack t = t\<lparr>th_stack := None\<rparr>"

definition Initial :: "bool \<Rightarrow> (nat \<Rightarrow> nat option) \<Rightarrow> micro_thread \<Rightarrow> bool \<times> micro_thread" where
  "Initial calloc_ok mmap t = InitStack calloc_ok mmap t"

definition Thread_Destroy :: "micro_thread \<Rightarrow> micro_thread" where
  "Thread_Destroy t = FreeStack t"

definition CleanState :: "micro_thread \<Rightarrow> micro_thread" where
  "CleanState t = t\<lparr>th_fdset := [], th_sub_list := [], th_flag := 0, th_type := NORMAL, th_state := INITIAL,
     th_start := NULL, th_args := NULL, th_parent := NULL\<rparr>"

text \<open>\<open>SetPrivate\<close> writes through \<open>_stack\<close>: without a stack it is \<^term>\<open>None\<close>.\<close>

definition SetPrivate :: "ptr \<Rightarrow> micro_thread \<Rightarrow> micro_thread option" where
  "SetPrivate data t =
     (case th_stack t of None \<Rightarrow> None | Some st \<Rightarrow> Some (t\<lparr>th_stack := Some (st\<lparr>stk_private := data\<rparr>)\<rparr>))"

definition Reset :: "micro_thread \<Rightarrow> micro_thread option" where
  "Reset t = do {
     t1 \<leftarrow> SetPrivate NULL (t\<lparr>th_wakeup_time := 0\<rparr>);
     Some (CleanState t1)
   }"

definition CheckStackHealth :: "nat \<Rightarrow> micro_thread \<Rightarrow> bool" where
  "CheckStackHealth esp t =
     (case th_stack t of None \<Rightarrow> False | Some st \<Rightarrow> esp > stk_bottom st \<and> esp < stk_top st)"

definition ClearAllFd :: "micro_thread \<Rightarrow> micro_thread" where
  "ClearAllFd t = t\<lparr>th_fdset := []\<rparr>"
definition AddFd :: "ptr \<Rightarrow> micro_thread \<Rightarrow> micro_thread" where
  "AddFd efpd t = t\<lparr>th_fdset := th_fdset t @ [efpd]\<rparr>"
definition AddFdList :: "ptr list \<Rightarrow> micro_thread \<Rightarrow> micro_thread" where
  "AddFdList fdset t = t\<lparr>th_fdset := th_fdset t @ fdset\<rparr>"

section \<open>Flags\<close>

named_theorems thread_simps \<open>what the field updates of a thread change\<close>

primrec flag_index :: "thread_flag \<Rightarrow> nat" where
  "flag_index FREE_LIST = 0" | "flag_index IO_LIST = 1" | "flag_index SLEEP_LIST = 2"
| "flag_index RUN_LIST = 3" | "flag_index PEND_LIST = 4" | "flag_index SUB_LIST = 5"

lemma flag_mask_exp: "flag_mask f = 2 ^ flag_index f"
  by (cases f) simp_all

lemma flag_index_less: "flag_index f < 32"
  by (cases f) simp_all

lemma flag_index_inj: "flag_index f = flag_index g \<longleftrightarrow> f = g"
  by (cases f; cases g) simp_all

lemma HasFlag_bit: "HasFlag f t \<longleftrightarrow> bit (th_flag t) (flag_index f)"
  unfolding HasFlag_def flag_mask_exp by (simp add: and_exp_eq_0_iff_not_bit)

lemma HasFlag_SetFlag [simp]: "HasFlag g (SetFlag f t) \<longleftrightarrow> g = f \<or> HasFlag g t"
  using flag_index_less [of f] flag_index_less [of g]
  by (auto simp: HasFlag_bit SetFlag_def flag_mask_exp bit_or_iff bit_exp_iff flag_index_inj)

lemma HasFlag_UnsetFlag [simp]: "HasFlag g (UnsetFlag f t) \<longleftrightarrow> g \<noteq> f \<and> HasFlag g t"
  using flag_index_less [of f] flag_index_less [of g]
  by (auto simp: HasFlag_bit UnsetFlag_def flag_mask_exp bit_and_iff bit_not_iff bit_exp_iff flag_index_inj)

lemma HasFlag_other [simp]:
  "HasFlag g (SetState st t) = HasFlag g t" "HasFlag g (SetType ty t) = HasFlag g t"
  "HasFlag g (SetWakeupTime w t) = HasFlag g t" "HasFlag g (SetSartFunc fn a t) = HasFlag g t"
  "HasFlag g (ClearAllFd t) = HasFlag g t" "HasFlag g (AddFd ob t) = HasFlag g t"
  "HasFlag g (AddFdList obs t) = HasFlag g t" "HasFlag g (t\<lparr>th_sub_list := xs\<rparr>) = HasFlag g t"
  "HasFlag g (t\<lparr>th_parent := p\<rparr>) = HasFlag g t" "\<not> HasFlag g (CleanState t)"
  "\<not> HasFlag g (MicroThread_init n ty)"
  by (simp_all add: HasFlag_def SetState_def SetType_def SetWakeupTime_def SetSartFunc_def ClearAllFd_def
      AddFd_def AddFdList_def CleanState_def MicroThread_init_def)

text \<open>The fields an update leaves alone.\<close>

lemma thread_fields [simp, thread_simps]:
  "th_wakeup_time (SetFlag f t) = th_wakeup_time t" "th_wakeup_time (UnsetFlag f t) = th_wakeup_time t"
  "th_wakeup_time (SetState st t) = th_wakeup_time t" "th_wakeup_time (SetType ty t) = th_wakeup_time t"
  "th_wakeup_time (SetWakeupTime w t) = w" "th_wakeup_time (SetSartFunc fn a t) = th_wakeup_time t"
  "th_stack (SetFlag f t) = th_stack t" "th_stack (UnsetFlag f t) = th_stack t" "th_stack (SetState st t) = th_stack t"
  "th_stack (SetType ty t) = th_stack t" "th_stack (SetWakeupTime w t) = th_stack t" "th_stack (SetSartFunc fn a t) = th_stack t"
  "th_type (SetFlag f t) = th_type t" "th_type (UnsetFlag f t) = th_type t" "th_type (SetState st t) = th_type t"
  "th_type (SetType ty t) = ty" "th_type (SetWakeupTime w t) = th_type t" "th_type (SetSartFunc fn a t) = th_type t"
  "th_parent (SetFlag f t) = th_parent t" "th_parent (UnsetFlag f t) = th_parent t" "th_parent (SetState st t) = th_parent t"
  "th_parent (SetType ty t) = th_parent t" "th_parent (SetWakeupTime w t) = th_parent t" "th_parent (SetSartFunc fn a t) = th_parent t"
  "th_sub_list (SetFlag f t) = th_sub_list t" "th_sub_list (UnsetFlag f t) = th_sub_list t" "th_sub_list (SetState st t) = th_sub_list t"
  "th_sub_list (SetType ty t) = th_sub_list t" "th_sub_list (SetWakeupTime w t) = th_sub_list t"
  "th_sub_list (SetSartFunc fn a t) = th_sub_list t"
  "th_state (SetState st t) = st" "th_state (SetFlag f t) = th_state t" "th_state (UnsetFlag f t) = th_state t"
  by (simp_all add: SetFlag_def UnsetFlag_def SetState_def SetType_def SetWakeupTime_def SetSartFunc_def)

lemma fd_fields [simp, thread_simps]:
  "th_wakeup_time (ClearAllFd t) = th_wakeup_time t" "th_wakeup_time (AddFd ob t) = th_wakeup_time t"
  "th_wakeup_time (AddFdList obs t) = th_wakeup_time t" "th_stack (ClearAllFd t) = th_stack t"
  "th_stack (AddFd ob t) = th_stack t" "th_stack (AddFdList obs t) = th_stack t"
  "th_type (ClearAllFd t) = th_type t" "th_type (AddFd ob t) = th_type t" "th_type (AddFdList obs t) = th_type t"
  "th_parent (ClearAllFd t) = th_parent t" "th_parent (AddFd ob t) = th_parent t" "th_parent (AddFdList obs t) = th_parent t"
  "th_sub_list (ClearAllFd t) = th_sub_list t" "th_sub_list (AddFd ob t) = th_sub_list t"
  "th_sub_list (AddFdList obs t) = th_sub_list t"
  by (simp_all add: ClearAllFd_def AddFd_def AddFdList_def)

lemma Reset_Some:
  assumes "th_stack t \<noteq> None"
  obtains t' where "Reset t = Some t'" "th_stack t' \<noteq> None" "\<And>g. \<not> HasFlag g t'" "th_type t' = NORMAL"
    "th_parent t' = NULL" "th_sub_list t' = []"
proof -
  from assms obtain st where "th_stack t = Some st" by auto
  then have "Reset t = Some (CleanState (t\<lparr>th_wakeup_time := 0, th_stack := Some (st\<lparr>stk_private := NULL\<rparr>)\<rparr>))"
    by (simp add: Reset_def SetPrivate_def)
  then show thesis by (rule that) (simp_all, simp_all add: CleanState_def)
qed

section \<open>The stack\<close>

text \<open>
  The usable stack lies between two pages of the mapping that are protected; it starts inside
  \<open>CheckStackHealth\<close>'s bounds. When the stack size is a multiple of the page size, as
  \<open>SetDefaultStackSize\<close> makes it, the upper guard is aligned and ends the mapping.
\<close>

lemma InitStack_layout:
  assumes "th_stack t = None" "InitStack True mmap t = (True, t')" "STACK_PAD_SIZE < th_stack_size t"
  obtains st where "th_stack t' = Some st" "stk_vaddr st + MEM_PAGE_SIZE = stk_bottom st"
    "stk_top st - stk_bottom st = th_stack_size t" "stk_top st + MEM_PAGE_SIZE \<le> stk_vaddr st + stk_vaddr_size st"
    "CheckStackHealth (stk_esp st) t'" "MEM_PAGE_SIZE dvd stk_vaddr_size st"
    "MEM_PAGE_SIZE dvd th_stack_size t \<Longrightarrow> stk_top st + MEM_PAGE_SIZE = stk_vaddr st + stk_vaddr_size st"
proof -
  define n where "n = MEM_PAGE_SIZE * 2 + th_stack_size t"
  define m where "m = (n + MEM_PAGE_SIZE - 1) div MEM_PAGE_SIZE * MEM_PAGE_SIZE"
  obtain v where v: "mmap m = Some v" and t': "t' = t\<lparr>th_stack := Some
      \<lparr>stk_size = th_stack_size t, stk_vaddr_size = m, stk_vaddr = v,
       stk_esp = v + MEM_PAGE_SIZE + th_stack_size t - STACK_PAD_SIZE, stk_bottom = v + MEM_PAGE_SIZE,
       stk_top = v + MEM_PAGE_SIZE + th_stack_size t, stk_private = NULL\<rparr>\<rparr>"
    using assms(1,2) by (auto simp: InitStack_def Let_def n_def m_def split: option.splits)
  have "n + 4095 = (n + 4095) div 4096 * 4096 + (n + 4095) mod 4096" by simp
  moreover have "(n + 4095) mod 4096 < 4096" by simp
  ultimately have le: "n \<le> m" by (simp add: m_def MEM_PAGE_SIZE_def)
  have eq: "m = n" if "MEM_PAGE_SIZE dvd th_stack_size t"
  proof -
    from that obtain q where "th_stack_size t = MEM_PAGE_SIZE * q" by auto
    then have "n + MEM_PAGE_SIZE - 1 = 4095 + (q + 2) * 4096" by (simp add: n_def MEM_PAGE_SIZE_def)
    then show ?thesis
      using \<open>th_stack_size t = _\<close> unfolding m_def by (simp only: MEM_PAGE_SIZE_def div_mult_self1) (simp add: n_def MEM_PAGE_SIZE_def)
  qed
  show thesis
    by (rule that [of "the (th_stack t')"])
      (use le eq assms(3) in \<open>auto simp: t' n_def m_def CheckStackHealth_def MEM_PAGE_SIZE_def STACK_PAD_SIZE_def\<close>)
qed

end
