(* ===== verification/Epoll_Proxy.thy ===== *)
theory Epoll_Proxy
  imports Prelude
begin

unbundle bit_operations_syntax

text \<open>
  The epoll layer of the micro-thread library, \<open>sync_frame/micro_thread/epoll_proxy.cpp\<close> and
  \<open>epoll_proxy.h\<close>: one \<open>FdRef\<close> per descriptor that records what is listened to, for which
  object and how often, and the calls that keep this record and the kernel's interest list in step.
  The kernel is a value of an arbitrary type; \<open>epoll_ctl\<close> is the argument \<open>ctl\<close>, which
  answers a return value and an \<open>errno\<close>.
\<close>

section \<open>State\<close>

definition EPOLLIN :: u32 where "EPOLLIN = 1"
definition EPOLLOUT :: u32 where "EPOLLOUT = 4"
definition EPOLLERR :: u32 where "EPOLLERR = 8"
definition EPOLLHUP :: u32 where "EPOLLHUP = 16"

datatype ctl_op = EPOLL_CTL_ADD | EPOLL_CTL_MOD | EPOLL_CTL_DEL

definition EEXIST :: int where "EEXIST = 17"
definition ENOENT :: int where "ENOENT = 2"

text \<open>An object that waits for a descriptor, and the record of a descriptor.\<close>

record epoller_obj =
  eo_fd :: int
  eo_events :: u32
  eo_revents :: u32
  eo_type :: int
  eo_thread :: ptr

record fd_ref =
  rf_wr_ref :: int
  rf_rd_ref :: int
  rf_events :: u32
  rf_revents :: u32
  rf_epobj :: ptr

text \<open>
  \<open>ep_refs\<close> is the array \<open>_eprefs\<close>, empty while it is \<open>NULL\<close>; \<open>ep_evtlist\<close> says whether
  \<open>_evtlist\<close> is allocated; \<open>ep_objs\<close> holds the \<open>EpollerObj\<close> objects by address.
\<close>

record 'k epoll_proxy =
  ep_epfd :: int
  ep_maxfd :: int
  ep_evtlist :: bool
  ep_refs :: "fd_ref list"
  ep_objs :: "ptr \<Rightarrow> epoller_obj"
  ep_kernel :: 'k

type_synonym 'k epoll_ctl = "ctl_op \<Rightarrow> int \<Rightarrow> u32 \<Rightarrow> 'k \<Rightarrow> (int \<times> int) \<times> 'k"

section \<open>Operations\<close>

definition EpollerObj_init :: "int \<Rightarrow> epoller_obj" where
  "EpollerObj_init fd = \<lparr>eo_fd = fd, eo_events = 0, eo_revents = 0, eo_type = 0, eo_thread = NULL\<rparr>"

definition EnableInput :: "epoller_obj \<Rightarrow> epoller_obj" where
  "EnableInput o1 = o1\<lparr>eo_events := eo_events o1 OR EPOLLIN\<rparr>"
definition EnableOutput :: "epoller_obj \<Rightarrow> epoller_obj" where
  "EnableOutput o1 = o1\<lparr>eo_events := eo_events o1 OR EPOLLOUT\<rparr>"
definition DisableInput :: "epoller_obj \<Rightarrow> epoller_obj" where
  "DisableInput o1 = o1\<lparr>eo_events := eo_events o1 AND NOT EPOLLIN\<rparr>"
definition DisableOutput :: "epoller_obj \<Rightarrow> epoller_obj" where
  "DisableOutput o1 = o1\<lparr>eo_events := eo_events o1 AND NOT EPOLLOUT\<rparr>"

definition FdRef_init :: fd_ref where
  "FdRef_init = \<lparr>rf_wr_ref = 0, rf_rd_ref = 0, rf_events = 0, rf_revents = 0, rf_epobj = NULL\<rparr>"

definition AttachEvents :: "u32 \<Rightarrow> fd_ref \<Rightarrow> fd_ref" where
  "AttachEvents event r =
     (let r1 = (if event AND EPOLLIN \<noteq> 0 then r\<lparr>rf_rd_ref := rf_rd_ref r + 1\<rparr> else r)
      in if event AND EPOLLOUT \<noteq> 0 then r1\<lparr>rf_wr_ref := rf_wr_ref r1 + 1\<rparr> else r1)"

definition DetachEvents :: "u32 \<Rightarrow> fd_ref \<Rightarrow> fd_ref" where
  "DetachEvents event r =
     (let r1 = (if event AND EPOLLIN \<noteq> 0
                then (if rf_rd_ref r > 0 then r\<lparr>rf_rd_ref := rf_rd_ref r - 1\<rparr> else r\<lparr>rf_rd_ref := 0\<rparr>) else r)
      in if event AND EPOLLOUT \<noteq> 0
         then (if rf_wr_ref r1 > 0 then r1\<lparr>rf_wr_ref := rf_wr_ref r1 - 1\<rparr> else r1\<lparr>rf_wr_ref := 0\<rparr>) else r1)"

definition DEFAULT_MAX_FD_NUM :: int where "DEFAULT_MAX_FD_NUM = 100000"

definition EpollProxy_init :: "(ptr \<Rightarrow> epoller_obj) \<Rightarrow> 'k \<Rightarrow> 'k epoll_proxy" where
  "EpollProxy_init objs k = \<lparr>ep_epfd = - 1, ep_maxfd = DEFAULT_MAX_FD_NUM, ep_evtlist = False, ep_refs = [],
     ep_objs = objs, ep_kernel = k\<rparr>"

definition TermEpoll :: "'k epoll_proxy \<Rightarrow> 'k epoll_proxy" where
  "TermEpoll s = s\<lparr>ep_epfd := (if ep_epfd s > 0 then - 1 else ep_epfd s), ep_evtlist := False, ep_refs := []\<rparr>"

text \<open>
  \<open>InitEpoll\<close>: the answers of \<open>epoll_create\<close>, \<open>new\<close> and \<open>calloc\<close> are arguments. The
  adjustment of the descriptor limit of the process has no effect on this state.
\<close>

definition InitEpoll :: "int \<Rightarrow> bool \<Rightarrow> bool \<Rightarrow> int \<Rightarrow> 'k epoll_proxy \<Rightarrow> int \<times> 'k epoll_proxy" where
  "InitEpoll create new_ok calloc_ok max_num s =
     (let s1 = (if max_num > ep_maxfd s then s\<lparr>ep_maxfd := max_num\<rparr> else s);
          s2 = s1\<lparr>ep_epfd := create\<rparr>
      in if create < 0 then (- 1, TermEpoll s2)
         else if \<not> new_ok then (- 2, TermEpoll (s2\<lparr>ep_refs := []\<rparr>))
         else (let s3 = s2\<lparr>ep_refs := replicate (nat (ep_maxfd s2)) FdRef_init\<rparr>
               in if \<not> calloc_ok then (- 3, TermEpoll (s3\<lparr>ep_evtlist := False\<rparr>))
                  else (0, s3\<lparr>ep_evtlist := True\<rparr>)))"

text \<open>\<open>FdRefGet\<close>: the index of the record, \<^term>\<open>None\<close> for the \<open>NULL\<close> result.\<close>

definition FdRefGet :: "int \<Rightarrow> 'k epoll_proxy \<Rightarrow> nat option" where
  "FdRefGet fd s = (if fd \<ge> ep_maxfd s \<or> fd < 0 then None else Some (nat fd))"

definition upd_ref :: "nat \<Rightarrow> (fd_ref \<Rightarrow> fd_ref) \<Rightarrow> 'k epoll_proxy \<Rightarrow> 'k epoll_proxy" where
  "upd_ref i f s = s\<lparr>ep_refs := (ep_refs s)[i := f (ep_refs s ! i)]\<rparr>"

definition SetNotifyObj :: "ptr \<Rightarrow> fd_ref \<Rightarrow> fd_ref" where
  "SetNotifyObj ob r = r\<lparr>rf_epobj := ob\<rparr>"

definition SetListenEvents :: "u32 \<Rightarrow> fd_ref \<Rightarrow> fd_ref" where
  "SetListenEvents ev r = r\<lparr>rf_events := ev\<rparr>"

definition EpollNtfyReg :: "int \<Rightarrow> ptr \<Rightarrow> 'k epoll_proxy \<Rightarrow> 'k epoll_proxy" where
  "EpollNtfyReg fd ob s = (case FdRefGet fd s of None \<Rightarrow> s | Some i \<Rightarrow> upd_ref i (SetNotifyObj ob) s)"

definition EpollCtrlAdd :: "'k epoll_ctl \<Rightarrow> int \<Rightarrow> u32 \<Rightarrow> 'k epoll_proxy \<Rightarrow> bool \<times> 'k epoll_proxy" where
  "EpollCtrlAdd ctl fd events s =
     (case FdRefGet fd s of None \<Rightarrow> (False, s)
      | Some i \<Rightarrow>
        let s1 = upd_ref i (AttachEvents events) s;
            old_events = rf_events (ep_refs s1 ! i);
            new_events = old_events OR events
        in if old_events = new_events then (True, s1)
           else let op = (if old_events \<noteq> 0 then EPOLL_CTL_MOD else EPOLL_CTL_ADD);
                    ((rc, errno), k) = ctl op fd new_events (ep_kernel s1);
                    s2 = s1\<lparr>ep_kernel := k\<rparr>
                in if rc < 0 \<and> \<not> (op = EPOLL_CTL_ADD \<and> errno = EEXIST)
                   then (False, upd_ref i (DetachEvents events) s2)
                   else (True, upd_ref i (SetListenEvents new_events) s2))"

text \<open>The events that stay after a removal: by the reference counts, or without the events given.\<close>

definition del_events :: "bool \<Rightarrow> u32 \<Rightarrow> fd_ref \<Rightarrow> u32" where
  "del_events use_ref events item =
     (if use_ref
      then let e1 = (if rf_rd_ref item = 0 then rf_events item AND NOT EPOLLIN else rf_events item)
           in if rf_wr_ref item = 0 then e1 AND NOT EPOLLOUT else e1
      else rf_events item AND NOT events)"

definition EpollCtrlDelRef ::
    "'k epoll_ctl \<Rightarrow> int \<Rightarrow> u32 \<Rightarrow> bool \<Rightarrow> 'k epoll_proxy \<Rightarrow> bool \<times> 'k epoll_proxy" where
  "EpollCtrlDelRef ctl fd events use_ref s =
     (case FdRefGet fd s of None \<Rightarrow> (False, s)
      | Some i \<Rightarrow>
        let s1 = upd_ref i (DetachEvents events) s;
            item = ep_refs s1 ! i;
            old_events = rf_events item;
            new_events = del_events use_ref events item
        in if old_events = new_events then (True, s1)
           else let op = (if new_events \<noteq> 0 then EPOLL_CTL_MOD else EPOLL_CTL_DEL);
                    ((rc, errno), k) = ctl op fd new_events (ep_kernel s1);
                    s2 = s1\<lparr>ep_kernel := k\<rparr>
                in if rc < 0 \<and> \<not> (op = EPOLL_CTL_DEL \<and> errno = ENOENT)
                   then (False, s2)
                   else (True, upd_ref i (SetListenEvents new_events) s2))"

definition EpollCtrlDel :: "'k epoll_ctl \<Rightarrow> int \<Rightarrow> u32 \<Rightarrow> 'k epoll_proxy \<Rightarrow> bool \<times> 'k epoll_proxy" where
  "EpollCtrlDel ctl fd events s = EpollCtrlDelRef ctl fd events False s"

text \<open>\<open>EpollerObj::EpollCtlAdd\<close> and \<open>EpollCtlDel\<close>, on the record with index \<open>i\<close>.\<close>

definition EpollCtlAdd :: "'k epoll_ctl \<Rightarrow> ptr \<Rightarrow> nat \<Rightarrow> 'k epoll_proxy \<Rightarrow> int \<times> 'k epoll_proxy" where
  "EpollCtlAdd ctl this i s =
     (let osfd = eo_fd (ep_objs s this); new_events = eo_events (ep_objs s this);
          old_obj = rf_epobj (ep_refs s ! i)
      in if old_obj \<noteq> NULL \<and> old_obj \<noteq> this then (- 1, s)
         else let (ok, s1) = EpollCtrlAdd ctl osfd new_events (upd_ref i (SetNotifyObj this) s)
              in if \<not> ok then (- 2, upd_ref i (SetNotifyObj old_obj) s1) else (0, s1))"

definition EpollCtlDel :: "'k epoll_ctl \<Rightarrow> ptr \<Rightarrow> nat \<Rightarrow> 'k epoll_proxy \<Rightarrow> int \<times> 'k epoll_proxy" where
  "EpollCtlDel ctl this i s =
     (let osfd = eo_fd (ep_objs s this); events = eo_events (ep_objs s this);
          old_obj = rf_epobj (ep_refs s ! i)
      in if old_obj \<noteq> this then (- 1, s)
         else let (ok, s1) = EpollCtrlDelRef ctl osfd events False (upd_ref i (SetNotifyObj NULL) s)
              in if \<not> ok then (- 2, upd_ref i (SetNotifyObj old_obj) s1) else (0, s1))"

text \<open>
  \<open>EpollAddObj\<close> and \<open>EpollDelObj\<close> call the virtual methods, which are the arguments \<open>meth\<close>.
\<close>

definition EpollAddObj ::
    "(ptr \<Rightarrow> nat \<Rightarrow> 'k epoll_proxy \<Rightarrow> int \<times> 'k epoll_proxy) \<Rightarrow> ptr \<Rightarrow> 'k epoll_proxy \<Rightarrow> bool \<times> 'k epoll_proxy" where
  "EpollAddObj meth ob s =
     (if ob = NULL then (False, s)
      else case FdRefGet (eo_fd (ep_objs s ob)) s of None \<Rightarrow> (False, s)
           | Some i \<Rightarrow> let (ret, s1) = meth ob i s in (\<not> ret < 0, s1))"

definition EpollDelObj ::
    "(ptr \<Rightarrow> nat \<Rightarrow> 'k epoll_proxy \<Rightarrow> int \<times> 'k epoll_proxy) \<Rightarrow> ptr \<Rightarrow> 'k epoll_proxy \<Rightarrow> bool \<times> 'k epoll_proxy" where
  "EpollDelObj meth ob s =
     (if ob = NULL then (False, s)
      else case FdRefGet (eo_fd (ep_objs s ob)) s of None \<Rightarrow> (False, s)
           | Some i \<Rightarrow> let (ret, s1) = meth ob i s in (\<not> ret < 0, s1))"

text \<open>The two loops of \<open>EpollAdd\<close>: register until one object fails, then undo up to that object.\<close>

fun add_loop :: "(ptr \<Rightarrow> 's \<Rightarrow> bool \<times> 's) \<Rightarrow> ptr list \<Rightarrow> 's \<Rightarrow> ptr option \<times> 's" where
  "add_loop addobj [] s = (None, s)"
| "add_loop addobj (ob # obs) s =
     (let (ok, s1) = addobj ob s in if ok then add_loop addobj obs s1 else (Some ob, s1))"

fun undo_loop :: "(ptr \<Rightarrow> 's \<Rightarrow> bool \<times> 's) \<Rightarrow> ptr \<Rightarrow> ptr list \<Rightarrow> 's \<Rightarrow> 's" where
  "undo_loop delobj err [] s = s"
| "undo_loop delobj err (ob # obs) s =
     (if ob = err then s else undo_loop delobj err obs (snd (delobj ob s)))"

definition EpollAdd :: "'k epoll_ctl \<Rightarrow> ptr list \<Rightarrow> 'k epoll_proxy \<Rightarrow> bool \<times> 'k epoll_proxy" where
  "EpollAdd ctl obj_list s =
     (case add_loop (EpollAddObj (EpollCtlAdd ctl)) obj_list s of
        (None, s1) \<Rightarrow> (True, s1)
      | (Some err, s1) \<Rightarrow> (False, undo_loop (EpollDelObj (EpollCtlDel ctl)) err obj_list s1))"

fun del_loop :: "(ptr \<Rightarrow> 's \<Rightarrow> bool \<times> 's) \<Rightarrow> bool \<Rightarrow> ptr list \<Rightarrow> 's \<Rightarrow> bool \<times> 's" where
  "del_loop delobj ret [] s = (ret, s)"
| "del_loop delobj ret (ob # obs) s =
     (let (ok, s1) = delobj ob s in del_loop delobj (ret \<and> ok) obs s1)"

definition EpollDel :: "'k epoll_ctl \<Rightarrow> ptr list \<Rightarrow> 'k epoll_proxy \<Rightarrow> bool \<times> 'k epoll_proxy" where
  "EpollDel ctl obj_list s = del_loop (EpollDelObj (EpollCtlDel ctl)) True obj_list s"

section \<open>Registering and removing one object\<close>

definition ep_wf :: "'k epoll_proxy \<Rightarrow> bool" where
  "ep_wf s \<longleftrightarrow> length (ep_refs s) = nat (ep_maxfd s)"

text \<open>A record nobody uses, and the same record after the object \<open>ob\<close> was registered for \<open>e\<close>.\<close>

definition ref_idle :: "fd_ref \<Rightarrow> bool" where
  "ref_idle r \<longleftrightarrow> rf_epobj r = NULL \<and> rf_events r = 0 \<and> rf_rd_ref r \<ge> 0 \<and> rf_wr_ref r \<ge> 0"

definition listening :: "ptr \<Rightarrow> u32 \<Rightarrow> fd_ref \<Rightarrow> fd_ref" where
  "listening ob e r = SetNotifyObj ob (SetListenEvents e (AttachEvents e r))"

text \<open>
  The kernel may refuse to remove a descriptor for a reason other than \<open>ENOENT\<close> (\<open>EBADF\<close>, say).
  The record then keeps its object and its events, while its reference counts are given back.
\<close>

definition del_refused :: "'k epoll_ctl \<Rightarrow> int \<Rightarrow> bool" where
  "del_refused ctl fd \<longleftrightarrow> (\<exists>k. fst (fst (ctl EPOLL_CTL_DEL fd 0 k)) < 0 \<and> snd (fst (ctl EPOLL_CTL_DEL fd 0 k)) \<noteq> ENOENT)"

definition stuck :: "ptr \<Rightarrow> u32 \<Rightarrow> fd_ref \<Rightarrow> fd_ref" where
  "stuck ob e r = SetNotifyObj ob (SetListenEvents e r)"

lemma Attach_fields [simp]:
  "rf_events (AttachEvents e r) = rf_events r" "rf_epobj (AttachEvents e r) = rf_epobj r"
  "rf_events (DetachEvents e r) = rf_events r" "rf_epobj (DetachEvents e r) = rf_epobj r"
  by (simp_all add: AttachEvents_def DetachEvents_def Let_def)

lemma Detach_Attach:
  assumes "rf_rd_ref r \<ge> 0" "rf_wr_ref r \<ge> 0"
  shows "DetachEvents e (AttachEvents e r) = r"
  using assms by (simp add: AttachEvents_def DetachEvents_def Let_def)

lemma Attach_Set:
  "AttachEvents e (SetNotifyObj ob r) = SetNotifyObj ob (AttachEvents e r)"
  "DetachEvents e (SetNotifyObj ob r) = SetNotifyObj ob (DetachEvents e r)"
  "DetachEvents e (SetListenEvents v r) = SetListenEvents v (DetachEvents e r)"
  by (simp_all add: AttachEvents_def DetachEvents_def SetNotifyObj_def SetListenEvents_def Let_def)

lemma Set_fields [simp]:
  "rf_events (SetNotifyObj ob r) = rf_events r" "rf_epobj (SetNotifyObj ob r) = ob"
  "rf_events (SetListenEvents v r) = v" "rf_epobj (SetListenEvents v r) = rf_epobj r"
  "SetNotifyObj ob (SetNotifyObj ob' r) = SetNotifyObj ob r"
  "SetListenEvents v (SetNotifyObj ob r) = SetNotifyObj ob (SetListenEvents v r)"
  "SetListenEvents v (SetListenEvents w r) = SetListenEvents v r"
  by (simp_all add: SetNotifyObj_def SetListenEvents_def)

lemma Set_same [simp]:
  "rf_epobj r = ob \<Longrightarrow> SetNotifyObj ob r = r" "rf_events r = v \<Longrightarrow> SetListenEvents v r = r"
  by (cases r, auto simp: SetNotifyObj_def SetListenEvents_def)+

lemma upd_ref_fields [simp]:
  "ep_maxfd (upd_ref i f s) = ep_maxfd s" "ep_objs (upd_ref i f s) = ep_objs s"
  "ep_kernel (upd_ref i f s) = ep_kernel s" "length (ep_refs (upd_ref i f s)) = length (ep_refs s)"
  "FdRefGet fd (upd_ref i f s) = FdRefGet fd s"
  by (simp_all add: upd_ref_def FdRefGet_def)

lemma upd_ref_nth [simp]:
  "i < length (ep_refs s) \<Longrightarrow> ep_refs (upd_ref i f s) ! i = f (ep_refs s ! i)"
  by (simp add: upd_ref_def)

lemma upd_ref_twice [simp]:
  "i < length (ep_refs s) \<Longrightarrow> upd_ref i f (upd_ref i g s) = upd_ref i (\<lambda>r. f (g r)) s"
  "i < length (ep_refs s) \<Longrightarrow> upd_ref i f ((upd_ref i g s)\<lparr>ep_kernel := k\<rparr>) = (upd_ref i (\<lambda>r. f (g r)) s)\<lparr>ep_kernel := k\<rparr>"
  by (simp_all add: upd_ref_def)

lemma upd_ref_refs: "ep_refs (upd_ref i f s) = (ep_refs s)[i := f (ep_refs s ! i)]"
  by (simp add: upd_ref_def)

lemma FdRefGet_Some: "FdRefGet fd s = Some i \<longleftrightarrow> 0 \<le> fd \<and> fd < ep_maxfd s \<and> i = nat fd"
  by (auto simp: FdRefGet_def)

lemma FdRefGet_bound: "ep_wf s \<Longrightarrow> FdRefGet fd s = Some i \<Longrightarrow> i < length (ep_refs s)"
  by (auto simp: FdRefGet_Some ep_wf_def)

text \<open>What one registration does to the records: nothing when it fails.\<close>

lemma EpollAddObj_idle:
  assumes wf: "ep_wf s" and ob: "ob \<noteq> NULL" and i: "FdRefGet (eo_fd (ep_objs s ob)) s = Some i"
    and idle: "ref_idle (ep_refs s ! i)"
    and res: "EpollAddObj (EpollCtlAdd ctl) ob s = (ok, t)"
  shows "ep_refs t = (if ok then (ep_refs s)[i := listening ob (eo_events (ep_objs s ob)) (ep_refs s ! i)] else ep_refs s)"
    "ep_objs t = ep_objs s" "ep_maxfd t = ep_maxfd s"
proof -
  have len: "i < length (ep_refs s)" by (rule FdRefGet_bound [OF wf i])
  let ?e = "eo_events (ep_objs s ob)" and ?r = "ep_refs s ! i"
  obtain rc en k where c: "ctl EPOLL_CTL_ADD (eo_fd (ep_objs s ob)) ?e (ep_kernel s) = ((rc, en), k)"
    by (metis surj_pair)
  have r: "rf_epobj ?r = NULL" "rf_events ?r = 0" "DetachEvents ?e (AttachEvents ?e ?r) = ?r"
    using idle Detach_Attach by (auto simp: ref_idle_def)
  have all: "ep_refs t = (if ok then (ep_refs s)[i := listening ob ?e ?r] else ep_refs s) \<and>
      ep_objs t = ep_objs s \<and> ep_maxfd t = ep_maxfd s"
  proof (cases "?e = 0")
    case True
    then have "(ok, t) = (True, upd_ref i (\<lambda>r. AttachEvents ?e (SetNotifyObj ob r)) s)"
      using res ob i len r by (simp add: EpollAddObj_def EpollCtlAdd_def EpollCtrlAdd_def Let_def)
    then show ?thesis using True r by (simp add: upd_ref_refs listening_def Attach_Set)
  next
    case False
    then show ?thesis
      using res ob i len r c
      by (auto simp: EpollAddObj_def EpollCtlAdd_def EpollCtrlAdd_def Let_def upd_ref_refs listening_def Attach_Set
          split: if_splits)
  qed
  then show "ep_refs t = (if ok then (ep_refs s)[i := listening ob ?e ?r] else ep_refs s)"
    "ep_objs t = ep_objs s" "ep_maxfd t = ep_maxfd s" by blast+
qed

lemma EpollDelObj_listening:
  assumes wf: "ep_wf s" and ob: "ob \<noteq> NULL" and i: "FdRefGet (eo_fd (ep_objs s ob)) s = Some i"
    and r: "ref_idle r" "ep_refs s ! i = listening ob (eo_events (ep_objs s ob)) r"
    and res: "EpollDelObj (EpollCtlDel ctl) ob s = (ok, t)"
  shows "ep_refs t = (ep_refs s)[i := (if ok then r else stuck ob (eo_events (ep_objs s ob)) r)]"
    "\<not> ok \<longrightarrow> del_refused ctl (eo_fd (ep_objs s ob))" "ep_objs t = ep_objs s" "ep_maxfd t = ep_maxfd s"
proof -
  have len: "i < length (ep_refs s)" by (rule FdRefGet_bound [OF wf i])
  let ?fd = "eo_fd (ep_objs s ob)" and ?e = "eo_events (ep_objs s ob)"
  obtain rc en k where c: "ctl EPOLL_CTL_DEL ?fd 0 (ep_kernel s) = ((rc, en), k)"
    by (metis surj_pair)
  then have acc: "del_refused ctl ?fd" if "rc < 0" "en \<noteq> ENOENT"
    using that unfolding del_refused_def by (intro exI [of _ "ep_kernel s"]) simp
  have e: "?e AND NOT ?e = 0" by simp
  have r': "rf_epobj r = NULL" "rf_events r = 0" "DetachEvents ?e (AttachEvents ?e r) = r"
    using r(1) Detach_Attach by (auto simp: ref_idle_def)
  have all: "ep_refs t = (ep_refs s)[i := (if ok then r else stuck ob ?e r)] \<and> (\<not> ok \<longrightarrow> del_refused ctl ?fd) \<and>
      ep_objs t = ep_objs s \<and> ep_maxfd t = ep_maxfd s"
    using res ob i len r(2) r' e c acc
    by (auto simp: EpollDelObj_def EpollCtlDel_def EpollCtrlDelRef_def del_events_def Let_def upd_ref_refs listening_def stuck_def Attach_Set
        split: if_splits)
  then show "ep_refs t = (ep_refs s)[i := (if ok then r else stuck ob ?e r)]" "\<not> ok \<longrightarrow> del_refused ctl ?fd"
    "ep_objs t = ep_objs s" "ep_maxfd t = ep_maxfd s"
    by blast+
qed

section \<open>Registering a list of objects\<close>

text \<open>
  The objects \<open>obs\<close> can be registered in \<open>s\<close>: they have different descriptors, all in range and
  unused. \<open>registered R D s t\<close>: \<open>t\<close> is \<open>s\<close> with the objects of \<open>D\<close> registered, apart from objects of
  \<open>R\<close> whose removal was refused.
\<close>

definition obj_index :: "'k epoll_proxy \<Rightarrow> ptr \<Rightarrow> nat" where
  "obj_index s ob = nat (eo_fd (ep_objs s ob))"

definition can_register :: "ptr list \<Rightarrow> 'k epoll_proxy \<Rightarrow> bool" where
  "can_register obs s \<longleftrightarrow> ep_wf s \<and> distinct (map (\<lambda>ob. eo_fd (ep_objs s ob)) obs) \<and>
     (\<forall>ob \<in> set obs. ob \<noteq> NULL \<and> 0 \<le> eo_fd (ep_objs s ob) \<and> eo_fd (ep_objs s ob) < ep_maxfd s \<and>
        ref_idle (ep_refs s ! obj_index s ob))"

definition registered :: "ptr set \<Rightarrow> ptr set \<Rightarrow> 'k epoll_proxy \<Rightarrow> 'k epoll_proxy \<Rightarrow> bool" where
  "registered R D s t \<longleftrightarrow> ep_objs t = ep_objs s \<and> ep_maxfd t = ep_maxfd s \<and> length (ep_refs t) = length (ep_refs s) \<and>
     (\<forall>ob \<in> D. ep_refs t ! obj_index s ob = listening ob (eo_events (ep_objs s ob)) (ep_refs s ! obj_index s ob)) \<and>
     (\<forall>i. i \<notin> obj_index s ` D \<longrightarrow> ep_refs t ! i = ep_refs s ! i \<or>
        (\<exists>ob \<in> R. obj_index s ob = i \<and> ep_refs t ! i = stuck ob (eo_events (ep_objs s ob)) (ep_refs s ! i)))"

lemma registered_none: "registered {} {} s t \<Longrightarrow> ep_refs t = ep_refs s"
  by (auto simp: registered_def intro: nth_equalityI)

lemma registered_more: "registered {} D s t \<Longrightarrow> registered R D s t"
  by (simp add: registered_def)

text \<open>The objects of a list whose removal the kernel may refuse, and the records after their removal.\<close>

definition refused :: "'k epoll_ctl \<Rightarrow> ptr list \<Rightarrow> 'k epoll_proxy \<Rightarrow> ptr set" where
  "refused ctl obs s = {ob \<in> set obs. del_refused ctl (eo_fd (ep_objs s ob))}"

definition restored :: "'k epoll_ctl \<Rightarrow> ptr list \<Rightarrow> 'k epoll_proxy \<Rightarrow> 'k epoll_proxy \<Rightarrow> bool" where
  "restored ctl obs s t \<longleftrightarrow> length (ep_refs t) = length (ep_refs s) \<and>
     (\<forall>i < length (ep_refs s). ep_refs t ! i = ep_refs s ! i \<or>
        (\<exists>ob \<in> refused ctl obs s. obj_index s ob = i \<and>
           ep_refs t ! i = stuck ob (eo_events (ep_objs s ob)) (ep_refs s ! i)))"

lemma registered_restored: "registered (refused ctl obs s) {} s t \<Longrightarrow> restored ctl obs s t"
  by (auto simp: registered_def restored_def)

lemma restored_all: "restored ctl obs s t \<Longrightarrow> refused ctl obs s = {} \<Longrightarrow> ep_refs t = ep_refs s"
  by (auto simp: restored_def intro: nth_equalityI)

lemma can_register_inj:
  assumes "can_register obs s"
  shows "inj_on (obj_index s) (set obs)"
proof (rule inj_onI)
  fix a b assume "a \<in> set obs" "b \<in> set obs" and eq: "obj_index s a = obj_index s b"
  then have "eo_fd (ep_objs s a) = eo_fd (ep_objs s b)"
    using assms by (auto simp: can_register_def obj_index_def nat_eq_iff2)
  then show "a = b"
    using assms \<open>a \<in> set obs\<close> \<open>b \<in> set obs\<close> by (auto simp: can_register_def distinct_map inj_on_def)
qed

lemma can_register_index:
  assumes "can_register obs s" "registered R D s t" "ob \<in> set obs"
  shows "ob \<noteq> NULL" "FdRefGet (eo_fd (ep_objs t ob)) t = Some (obj_index s ob)" "ep_wf t"
    "ref_idle (ep_refs s ! obj_index s ob)" "obj_index s ob < length (ep_refs t)"
proof -
  show *: "ob \<noteq> NULL" "FdRefGet (eo_fd (ep_objs t ob)) t = Some (obj_index s ob)" "ep_wf t"
    "ref_idle (ep_refs s ! obj_index s ob)"
    using assms by (auto simp: can_register_def registered_def FdRefGet_Some obj_index_def ep_wf_def)
  show "obj_index s ob < length (ep_refs t)" by (rule FdRefGet_bound [OF *(3,2)])
qed

lemma register_step:
  assumes can: "can_register obs s" and reg: "registered {} D s t" and ob: "ob \<in> set obs" "ob \<notin> D" and D: "D \<subseteq> set obs"
    and res: "EpollAddObj (EpollCtlAdd ctl) ob t = (ok, u)"
  shows "registered {} (if ok then insert ob D else D) s u"
proof -
  note ix = can_register_index [OF can reg ob(1)]
  have out: "obj_index s ob \<notin> obj_index s ` D"
    using can_register_inj [OF can] ob D by (auto simp: inj_on_def)
  then have same: "ep_refs t ! obj_index s ob = ep_refs s ! obj_index s ob"
    using reg by (simp add: registered_def)
  note add = EpollAddObj_idle [OF ix(3,1,2) ix(4) [folded same] res]
  show ?thesis
    using reg add out same ix(5) by (auto simp: registered_def nth_list_update image_iff)
qed

lemma unregister_step:
  assumes can: "can_register obs s" and reg: "registered (refused ctl obs s) D s t" and ob: "ob \<in> set obs" "ob \<in> D"
    and D: "D \<subseteq> set obs" and res: "EpollDelObj (EpollCtlDel ctl) ob t = (ok, u)"
  shows "ok \<or> ob \<in> refused ctl obs s" "registered (refused ctl obs s) (D - {ob}) s u"
proof -
  note ix = can_register_index [OF can reg ob(1)]
  have objs: "ep_objs t = ep_objs s" using reg by (simp add: registered_def)
  have "ep_refs t ! obj_index s ob = listening ob (eo_events (ep_objs t ob)) (ep_refs s ! obj_index s ob)"
    using reg ob(2) by (simp add: registered_def)
  note del = EpollDelObj_listening [OF ix(3,1,2) ix(4) this res, unfolded objs]
  show bad: "ok \<or> ob \<in> refused ctl obs s" using del(2) ob(1) by (auto simp: refused_def)
  have inj: "obj_index s x = obj_index s y \<longleftrightarrow> x = y" if "x \<in> D" "y \<in> D" for x y
    using can_register_inj [OF can] D that by (auto simp: inj_on_def)
  have "ep_refs u ! i = ep_refs s ! i \<or> (\<exists>ob \<in> refused ctl obs s. obj_index s ob = i \<and>
      ep_refs u ! i = stuck ob (eo_events (ep_objs s ob)) (ep_refs s ! i))" if "i \<notin> obj_index s ` (D - {ob})" for i
  proof (cases "i = obj_index s ob")
    case True
    then show ?thesis using del(1) ix(5) bad by auto
  next
    case False
    then have "i \<notin> obj_index s ` D" "ep_refs u ! i = ep_refs t ! i" using that del(1) by auto
    then show ?thesis using reg by (simp add: registered_def)
  qed
  moreover have "ep_refs u ! obj_index s x = ep_refs t ! obj_index s x" if "x \<in> D - {ob}" for x
    using del(1) inj ob(2) that by auto
  ultimately show "registered (refused ctl obs s) (D - {ob}) s u"
    using reg del(1,3,4) by (simp add: registered_def)
qed

lemma add_loop_registered:
  assumes can: "can_register all s" and D: "D \<subseteq> set all" and obs: "set obs \<subseteq> set all" "distinct obs" "set obs \<inter> D = {}"
    and reg: "registered {} D s t" and res: "add_loop (EpollAddObj (EpollCtlAdd ctl)) obs t = (err, u)"
  shows "case err of None \<Rightarrow> registered {} (D \<union> set obs) s u
    | Some e \<Rightarrow> \<exists>ys zs. obs = ys @ e # zs \<and> registered {} (D \<union> set ys) s u"
  using D obs reg res
proof (induction obs arbitrary: D t)
  case (Cons ob obs)
  obtain ok v where v: "EpollAddObj (EpollCtlAdd ctl) ob t = (ok, v)" by (metis surj_pair)
  have "registered {} (if ok then insert ob D else D) s v"
    by (rule register_step [OF can Cons.prems(5) _ _ Cons.prems(1) v]) (use Cons.prems in auto)
  then show ?case
  proof (cases ok)
    case True
    with Cons.prems v have rest: "add_loop (EpollAddObj (EpollCtlAdd ctl)) obs v = (err, u)" by simp
    have "registered {} (insert ob D) s v" using True \<open>registered _ _ s v\<close> by simp
    from Cons.IH [OF _ _ _ _ this rest] Cons.prems
    have IH: "case err of None \<Rightarrow> registered {} (insert ob D \<union> set obs) s u
      | Some e \<Rightarrow> \<exists>ys zs. obs = ys @ e # zs \<and> registered {} (insert ob D \<union> set ys) s u" by auto
    show ?thesis
    proof (cases err)
      case None with IH show ?thesis by simp
    next
      case (Some e)
      with IH obtain ys zs where "obs = ys @ e # zs" "registered {} (insert ob D \<union> set ys) s u" by auto
      with Some have "ob # obs = (ob # ys) @ e # zs \<and> registered {} (D \<union> set (ob # ys)) s u" by simp
      with Some show ?thesis by (simp only: option.case) blast
    qed
  next
    case False
    with Cons.prems v \<open>registered _ _ s v\<close> have "err = Some ob" "ob # obs = [] @ ob # obs" "registered {} (D \<union> set []) s u"
      by auto
    then show ?thesis by (simp only: option.case) blast
  qed
qed auto

lemma undo_loop_registered:
  assumes can: "can_register all s"
    and ys: "set ys \<subseteq> set all" "distinct ys" "e \<notin> set ys" and reg: "registered (refused ctl all s) (set ys) s t"
  shows "registered (refused ctl all s) {} s (undo_loop (EpollDelObj (EpollCtlDel ctl)) e (ys @ e # zs) t)"
  using ys reg
proof (induction ys arbitrary: t)
  case (Cons y ys)
  obtain ok v where v: "EpollDelObj (EpollCtlDel ctl) y t = (ok, v)" by (metis surj_pair)
  have "registered (refused ctl all s) (set (y # ys) - {y}) s v"
    by (rule unregister_step(2) [OF can Cons.prems(4) _ _ Cons.prems(1) v]) (use Cons.prems in auto)
  then have "registered (refused ctl all s) (set ys) s v" using Cons.prems(2) by simp
  with Cons.IH Cons.prems v show ?case by simp
qed simp

lemma del_loop_registered:
  assumes can: "can_register all s"
    and ys: "set ys \<subseteq> set all" "distinct ys" and reg: "registered (refused ctl all s) (set ys) s t"
    and res: "del_loop (EpollDelObj (EpollCtlDel ctl)) ret ys t = (ok, u)"
  shows "registered (refused ctl all s) {} s u \<and> (ret \<and> refused ctl all s = {} \<longrightarrow> ok)"
  using ys reg res
proof (induction ys arbitrary: t ret)
  case (Cons y ys)
  obtain b v where v: "EpollDelObj (EpollCtlDel ctl) y t = (b, v)" by (metis surj_pair)
  have "b \<or> y \<in> refused ctl all s" "registered (refused ctl all s) (set (y # ys) - {y}) s v"
    by (rule unregister_step [OF can Cons.prems(3) _ _ Cons.prems(1) v]; use Cons.prems in auto)+
  moreover have "registered (refused ctl all s) (set ys) s v" using calculation(2) Cons.prems(2) by simp
  ultimately show ?case using Cons.IH [of v "ret \<and> b"] Cons.prems v by auto
qed simp

section \<open>The records and the kernel\<close>

text \<open>
  What the manual says of \<open>epoll_ctl\<close>: \<open>interest k fd\<close> is the event mask the kernel has for a
  descriptor. A call that succeeds changes it, one that fails does not; adding a known descriptor
  fails with \<open>EEXIST\<close>, and changing or removing an unknown one with \<open>ENOENT\<close>.
\<close>

definition ctl_spec :: "'k epoll_ctl \<Rightarrow> ('k \<Rightarrow> int \<Rightarrow> u32 option) \<Rightarrow> bool" where
  "ctl_spec ctl interest \<longleftrightarrow> (\<forall>op fd e k rc en k'. ctl op fd e k = ((rc, en), k') \<longrightarrow>
     (rc < 0 \<longrightarrow> interest k' = interest k) \<and>
     (rc \<ge> 0 \<longrightarrow> interest k' = (interest k)(fd := (if op = EPOLL_CTL_DEL then None else Some e))) \<and>
     (op = EPOLL_CTL_ADD \<and> rc < 0 \<and> en = EEXIST \<longrightarrow> interest k fd \<noteq> None) \<and>
     (op = EPOLL_CTL_DEL \<and> rc < 0 \<and> en = ENOENT \<longrightarrow> interest k fd = None))"

definition in_step :: "('k \<Rightarrow> int \<Rightarrow> u32 option) \<Rightarrow> 'k epoll_proxy \<Rightarrow> bool" where
  "in_step interest s \<longleftrightarrow> ep_wf s \<and> (\<forall>fd. 0 \<le> fd \<and> fd < ep_maxfd s \<longrightarrow>
     interest (ep_kernel s) fd = (let e = rf_events (ep_refs s ! nat fd) in if e = 0 then None else Some e))"

text \<open>The records changed at one descriptor without its event mask, or together with the kernel.\<close>

lemma in_step_upd:
  assumes "in_step interest s" "\<And>r. rf_events (f r) = rf_events r"
  shows "in_step interest (upd_ref i f s)"
proof -
  have "rf_events ((ep_refs s)[i := f (ep_refs s ! i)] ! j) = rf_events (ep_refs s ! j)" for j
    using assms(2) by (cases "i < length (ep_refs s)"; cases "i = j") (auto simp: list_update_beyond)
  then show ?thesis using assms(1) by (simp add: in_step_def ep_wf_def upd_ref_refs)
qed

lemma in_step_kernel:
  assumes "in_step interest s" "0 \<le> fd" "fd < ep_maxfd s"
    "interest k = (interest (ep_kernel s))(fd := (if e = 0 then None else Some e))"
  shows "in_step interest (upd_ref (nat fd) (SetListenEvents e) (s\<lparr>ep_kernel := k\<rparr>))"
proof -
  have "nat fd < length (ep_refs s)" using assms(1-3) by (auto simp: in_step_def ep_wf_def)
  with assms show ?thesis
    by (auto simp: in_step_def ep_wf_def upd_ref_refs nth_list_update Let_def nat_eq_iff2)
qed

lemma in_step_same_kernel:
  assumes "in_step interest s" "interest k = interest (ep_kernel s)"
  shows "in_step interest (s\<lparr>ep_kernel := k\<rparr>)"
  using assms by (simp add: in_step_def ep_wf_def)

lemma in_step_CtrlAdd:
  assumes ctl: "ctl_spec ctl interest" and sync: "in_step interest s"
  shows "in_step interest (snd (EpollCtrlAdd ctl fd events s))"
proof (cases "FdRefGet fd s")
  case (Some i)
  then have fd: "0 \<le> fd" "fd < ep_maxfd s" "i = nat fd" and len: "i < length (ep_refs s)"
    using sync by (auto simp: FdRefGet_Some in_step_def ep_wf_def)
  define s1 where "s1 = upd_ref i (AttachEvents events) s"
  have s1: "in_step interest s1" "ep_maxfd s1 = ep_maxfd s" "ep_kernel s1 = ep_kernel s"
    "rf_events (ep_refs s1 ! i) = rf_events (ep_refs s ! i)" "length (ep_refs s1) = length (ep_refs s)"
    using in_step_upd [OF sync] len by (simp_all add: s1_def)
  let ?o = "rf_events (ep_refs s ! i)"
  let ?n = "?o OR events" and ?op = "if rf_events (ep_refs s ! i) \<noteq> 0 then EPOLL_CTL_MOD else EPOLL_CTL_ADD"
  obtain rc en k where c: "ctl ?op fd ?n (ep_kernel s) = ((rc, en), k)" by (metis surj_pair)
  note spec = ctl [unfolded ctl_spec_def, rule_format, OF c]
  have know: "interest (ep_kernel s) fd = (if ?o = 0 then None else Some ?o)"
    using sync fd by (auto simp: in_step_def Let_def)
  consider (same) "?o = ?n" | (bad) "?o \<noteq> ?n" "rc < 0" | (good) "?o \<noteq> ?n" "rc \<ge> 0" by linarith
  then show ?thesis
  proof cases
    case same
    then show ?thesis using Some s1 by (simp add: EpollCtrlAdd_def Let_def s1_def)
  next
    case bad
    have "\<not> (?op = EPOLL_CTL_ADD \<and> en = EEXIST)" using spec know bad(2) by (auto split: if_splits)
    then have "snd (EpollCtrlAdd ctl fd events s) = upd_ref i (DetachEvents events) (s1\<lparr>ep_kernel := k\<rparr>)"
      using Some bad c s1 by (auto simp: EpollCtrlAdd_def Let_def s1_def [symmetric])
    then show ?thesis
      using in_step_upd [OF in_step_same_kernel [OF s1(1)]] spec bad(2) s1(3) by simp
  next
    case good
    then have "snd (EpollCtrlAdd ctl fd events s) = upd_ref i (SetListenEvents ?n) (s1\<lparr>ep_kernel := k\<rparr>)"
      using Some c s1 by (auto simp: EpollCtrlAdd_def Let_def s1_def [symmetric])
    moreover have "?n \<noteq> 0" using good(1) by (metis or.right_neutral or_eq_0_iff)
    then have "interest k = (interest (ep_kernel s1))(fd := (if ?n = 0 then None else Some ?n))"
      using spec good(2) s1(3) by auto
    ultimately show ?thesis using in_step_kernel [OF s1(1), of fd k ?n] fd s1(2) by simp
  qed
qed (simp add: EpollCtrlAdd_def sync)

lemma in_step_CtrlDelRef:
  assumes ctl: "ctl_spec ctl interest" and sync: "in_step interest s"
  shows "in_step interest (snd (EpollCtrlDelRef ctl fd events use_ref s))"
proof (cases "FdRefGet fd s")
  case (Some i)
  then have fd: "0 \<le> fd" "fd < ep_maxfd s" "i = nat fd" and len: "i < length (ep_refs s)"
    using sync by (auto simp: FdRefGet_Some in_step_def ep_wf_def)
  define s1 where "s1 = upd_ref i (DetachEvents events) s"
  have s1: "in_step interest s1" "ep_maxfd s1 = ep_maxfd s" "ep_kernel s1 = ep_kernel s"
    "rf_events (ep_refs s1 ! i) = rf_events (ep_refs s ! i)"
    using in_step_upd [OF sync] len by (simp_all add: s1_def)
  let ?item = "ep_refs s1 ! i"
  define o1 where "o1 = rf_events ?item"
  define n1 where "n1 = del_events use_ref events ?item"
  define op where "op = (if n1 \<noteq> 0 then EPOLL_CTL_MOD else EPOLL_CTL_DEL)"
  obtain rc en k where c: "ctl op fd n1 (ep_kernel s1) = ((rc, en), k)" by (metis surj_pair)
  note spec = ctl [unfolded ctl_spec_def, rule_format, OF c]
  have know: "interest (ep_kernel s1) fd = (if o1 = 0 then None else Some o1)"
    using s1(1,2) fd by (auto simp: in_step_def Let_def o1_def)
  have eq: "snd (EpollCtrlDelRef ctl fd events use_ref s) =
     (if o1 = n1 then s1 else if rc < 0 \<and> \<not> (op = EPOLL_CTL_DEL \<and> en = ENOENT) then s1\<lparr>ep_kernel := k\<rparr>
      else upd_ref i (SetListenEvents n1) (s1\<lparr>ep_kernel := k\<rparr>))"
    using Some c unfolding EpollCtrlDelRef_def
    by (auto simp: Let_def s1_def [symmetric] o1_def [symmetric] n1_def [symmetric] op_def [symmetric])
  have zero: "o1 = 0 \<Longrightarrow> n1 = 0" by (simp add: n1_def o1_def del_events_def Let_def)
  consider (same) "o1 = n1" | (bad) "o1 \<noteq> n1" "rc < 0" | (good) "o1 \<noteq> n1" "rc \<ge> 0" by linarith
  then show ?thesis
  proof cases
    case same
    then show ?thesis using s1 eq by simp
  next
    case bad
    have "\<not> (op = EPOLL_CTL_DEL \<and> en = ENOENT)" using spec know bad zero by (auto split: if_splits)
    then have "snd (EpollCtrlDelRef ctl fd events use_ref s) = s1\<lparr>ep_kernel := k\<rparr>" using eq bad by auto
    then show ?thesis using in_step_same_kernel [OF s1(1)] spec bad(2) by simp
  next
    case good
    have "interest k = (interest (ep_kernel s1))(fd := (if n1 = 0 then None else Some n1))"
      using spec good(2) by (auto simp: op_def)
    then show ?thesis using in_step_kernel [OF s1(1), of fd k n1] fd s1(2) eq good by simp
  qed
qed (simp add: EpollCtrlDelRef_def sync)

lemma in_step_AddObj:
  assumes "ctl_spec ctl interest" "in_step interest s"
  shows "in_step interest (snd (EpollAddObj (EpollCtlAdd ctl) ob s))"
proof -
  have reg: "in_step interest (upd_ref i (SetNotifyObj p) u)" if "in_step interest u" for i p u
    by (rule in_step_upd [OF that]) simp
  show ?thesis
    using assms(2) reg in_step_CtrlAdd [OF assms(1) reg]
    by (simp add: EpollAddObj_def EpollCtlAdd_def Let_def case_prod_beta split: option.split)
qed

lemma in_step_DelObj:
  assumes "ctl_spec ctl interest" "in_step interest s"
  shows "in_step interest (snd (EpollDelObj (EpollCtlDel ctl) ob s))"
proof -
  have reg: "in_step interest (upd_ref i (SetNotifyObj p) u)" if "in_step interest u" for i p u
    by (rule in_step_upd [OF that]) simp
  show ?thesis
    using assms(2) reg in_step_CtrlDelRef [OF assms(1) reg]
    by (simp add: EpollDelObj_def EpollCtlDel_def Let_def case_prod_beta split: option.split)
qed

lemma in_step_loops:
  assumes add: "\<And>ob s. P s \<Longrightarrow> P (snd (addobj ob s))" and del: "\<And>ob s. P s \<Longrightarrow> P (snd (delobj ob s))" and s: "P s"
  shows "P (snd (add_loop addobj obs s))" "P (undo_loop delobj e obs s)" "P (snd (del_loop delobj ret obs s))"
  using s
proof (induction obs arbitrary: s ret)
  case (Cons ob obs)
  { case 1 show ?case using Cons.IH(1) [OF add [OF 1]] add [OF 1] by (simp add: case_prod_beta Let_def) }
  { case 2 show ?case using Cons.IH(2) [OF del [OF 2]] 2 by simp }
  { case 3 show ?case using Cons.IH(3) [OF del [OF 3]] by (simp add: case_prod_beta Let_def) }
qed auto

section \<open>Properties\<close>

text \<open>
  C8: registering a list of objects is all or nothing as far as the kernel lets it, and removing undoes
  it. For objects with different unused descriptors, when \<open>EpollAdd\<close> fails every record is what it
  was before the call, except that a descriptor whose removal \<open>epoll_ctl\<close> refuses with an error other
  than \<open>ENOENT\<close> may keep its object and events (its reference counts are given back); when it
  succeeds every object is recorded for its events, and \<open>EpollDel\<close> of the same list then gives back
  every record with the same exception. When no removal can be refused all records are given back and
  \<open>EpollDel\<close> returns true.
\<close>

theorem epoll_add_atomic:
  assumes "can_register obs s" "EpollAdd ctl obs s = (ok, t)"
  shows "(\<not> ok \<longrightarrow> restored ctl obs s t \<and> (refused ctl obs s = {} \<longrightarrow> ep_refs t = ep_refs s)) \<and>
    (ok \<longrightarrow> (\<forall>ob \<in> set obs. rf_epobj (ep_refs t ! obj_index s ob) = ob \<and>
               rf_events (ep_refs t ! obj_index s ob) = eo_events (ep_objs s ob)) \<and>
       restored ctl obs s (snd (EpollDel ctl obs t)) \<and>
       (refused ctl obs s = {} \<longrightarrow> fst (EpollDel ctl obs t) \<and> ep_refs (snd (EpollDel ctl obs t)) = ep_refs s))"
proof -
  have dist: "distinct obs" using assms(1) by (auto simp: can_register_def distinct_map)
  obtain err u where u: "add_loop (EpollAddObj (EpollCtlAdd ctl)) obs s = (err, u)" by (metis surj_pair)
  have "registered {} {} s s" by (simp add: registered_def)
  note loop = add_loop_registered [OF assms(1) _ order_refl dist _ this u]
  show ?thesis
  proof (cases err)
    case None
    then have reg: "registered {} (set obs) s t" and ok: "ok" using loop u assms(2) by (simp_all add: EpollAdd_def)
    obtain b v where v: "EpollDel ctl obs t = (b, v)" by (metis surj_pair)
    then have "registered (refused ctl obs s) {} s v" "refused ctl obs s = {} \<longrightarrow> b"
      using del_loop_registered [OF assms(1) order_refl dist registered_more [OF reg]] unfolding EpollDel_def by blast+
    then have "restored ctl obs s (snd (EpollDel ctl obs t))" "refused ctl obs s = {} \<longrightarrow> fst (EpollDel ctl obs t)"
      using v registered_restored by auto
    moreover have "\<forall>ob \<in> set obs. rf_epobj (ep_refs t ! obj_index s ob) = ob \<and>
        rf_events (ep_refs t ! obj_index s ob) = eo_events (ep_objs s ob)"
      using reg by (simp add: registered_def listening_def)
    ultimately show ?thesis using ok restored_all by blast
  next
    case (Some e)
    then obtain ys zs where split: "obs = ys @ e # zs" and reg: "registered {} (set ys) s u" using loop by auto
    have "registered (refused ctl obs s) {} s (undo_loop (EpollDelObj (EpollCtlDel ctl)) e (ys @ e # zs) u)"
      by (rule undo_loop_registered [OF assms(1) _ _ _ registered_more [OF reg]]) (use dist split in auto)
    then have "registered (refused ctl obs s) {} s t" "\<not> ok" using u Some assms(2) split by (auto simp: EpollAdd_def)
    then show ?thesis using registered_restored restored_all by blast
  qed
qed

text \<open>A kernel that knows nothing, refuses descriptor 2, and otherwise answers as the manual says.\<close>

definition toy_ctl :: "(int \<Rightarrow> u32 option) epoll_ctl" where
  "toy_ctl op fd e k =
     (case op of
        EPOLL_CTL_ADD \<Rightarrow> if k fd \<noteq> None then ((- 1, EEXIST), k) else if fd = 2 then ((- 1, 1), k) else ((0, 0), k(fd \<mapsto> e))
      | EPOLL_CTL_MOD \<Rightarrow> if k fd = None then ((- 1, ENOENT), k) else ((0, 0), k(fd \<mapsto> e))
      | EPOLL_CTL_DEL \<Rightarrow> if k fd = None then ((- 1, ENOENT), k) else ((0, 0), k(fd := None)))"

lemma toy_ctl_ok: "\<not> del_refused toy_ctl fd" "ctl_spec toy_ctl (\<lambda>k. k)"
  by (auto simp: del_refused_def ctl_spec_def toy_ctl_def EEXIST_def ENOENT_def split: ctl_op.splits if_splits)

definition toy_proxy :: "(int \<Rightarrow> u32 option) epoll_proxy" where
  "toy_proxy = \<lparr>ep_epfd = 7, ep_maxfd = 4, ep_evtlist = True, ep_refs = replicate 4 FdRef_init,
     ep_objs = (\<lambda>p. EnableInput (EpollerObj_init (int p - 10))), ep_kernel = (\<lambda>fd. None)\<rparr>"

lemma toy_proxy_ok:
  "can_register [11, 12] toy_proxy" "can_register [11, 13] toy_proxy" "in_step (\<lambda>k. k) toy_proxy"
proof -
  have i: "ref_idle FdRef_init" by (simp add: ref_idle_def FdRef_init_def)
  show "can_register [11, 12] toy_proxy" "can_register [11, 13] toy_proxy"
    using i by (simp_all add: can_register_def toy_proxy_def ep_wf_def obj_index_def EnableInput_def EpollerObj_init_def)
  show "in_step (\<lambda>k. k) toy_proxy"
    by (auto simp: in_step_def toy_proxy_def ep_wf_def FdRef_init_def Let_def nth_replicate)
qed

theorem epoll_add_atomic_witness:
  "\<not> fst (EpollAdd toy_ctl [11, 12] toy_proxy) \<and>
   ep_refs (snd (EpollAdd toy_ctl [11, 12] toy_proxy)) = ep_refs toy_proxy \<and>
   fst (EpollAdd toy_ctl [11, 13] toy_proxy)"
proof -
  have "\<not> fst (EpollAdd toy_ctl [11, 12] toy_proxy)" "fst (EpollAdd toy_ctl [11, 13] toy_proxy)"
    by code_simp+
  moreover have "refused toy_ctl obs toy_proxy = {}" for obs by (simp add: refused_def toy_ctl_ok(1))
  moreover note epoll_add_atomic [OF toy_proxy_ok(1), of toy_ctl "fst (EpollAdd toy_ctl [11, 12] toy_proxy)"
      "snd (EpollAdd toy_ctl [11, 12] toy_proxy)", OF prod.collapse [symmetric]]
  ultimately show ?thesis by blast
qed

text \<open>
  C18: the records and the kernel stay in step. If for every descriptor the recorded event mask is
  what the kernel listens to, then so it is after \<open>EpollCtrlAdd\<close>, \<open>EpollCtrlDelRef\<close> (with or
  without reference counting), \<open>EpollAdd\<close> and \<open>EpollDel\<close>, whichever of their calls fail.
\<close>

theorem epoll_interest_in_step:
  assumes "ctl_spec ctl interest" "in_step interest s"
  shows "in_step interest (snd (EpollCtrlAdd ctl fd events s)) \<and>
    in_step interest (snd (EpollCtrlDelRef ctl fd events use_ref s)) \<and>
    in_step interest (snd (EpollAdd ctl obs s)) \<and> in_step interest (snd (EpollDel ctl obs s))"
proof (intro conjI)
  have add: "in_step interest (snd (EpollAddObj (EpollCtlAdd ctl) ob u))" if "in_step interest u" for ob u
    by (rule in_step_AddObj [OF assms(1) that])
  have del: "in_step interest (snd (EpollDelObj (EpollCtlDel ctl) ob u))" if "in_step interest u" for ob u
    by (rule in_step_DelObj [OF assms(1) that])
  have loops: "in_step interest (snd (add_loop (EpollAddObj (EpollCtlAdd ctl)) obs u))"
    "in_step interest (undo_loop (EpollDelObj (EpollCtlDel ctl)) e obs u)"
    "in_step interest (snd (del_loop (EpollDelObj (EpollCtlDel ctl)) ret obs u))" if "in_step interest u" for u e ret
    by (rule in_step_loops [where P = "in_step interest", OF _ _ that]; use add del in blast)+
  show "in_step interest (snd (EpollCtrlAdd ctl fd events s))" by (rule in_step_CtrlAdd [OF assms])
  show "in_step interest (snd (EpollCtrlDelRef ctl fd events use_ref s))" by (rule in_step_CtrlDelRef [OF assms])
  show "in_step interest (snd (EpollAdd ctl obs s))"
  proof (cases "add_loop (EpollAddObj (EpollCtlAdd ctl)) obs s")
    case (Pair err t)
    then have "in_step interest t" using loops(1) [OF assms(2)] by simp
    then show ?thesis using Pair loops(2) by (cases err) (auto simp: EpollAdd_def)
  qed
  show "in_step interest (snd (EpollDel ctl obs s))"
    using loops(3) [OF assms(2)] by (simp add: EpollDel_def)
qed

theorem epoll_interest_in_step_witness:
  "in_step (\<lambda>k. k) (snd (EpollAdd toy_ctl [11, 13] toy_proxy)) \<and>
   ep_kernel (snd (EpollAdd toy_ctl [11, 13] toy_proxy)) 3 = Some EPOLLIN"
proof -
  have "ep_kernel (snd (EpollAdd toy_ctl [11, 13] toy_proxy)) 3 = Some EPOLLIN" by code_simp
  with epoll_interest_in_step [OF toy_ctl_ok(2) toy_proxy_ok(3), of 0 0 True "[11, 13]"] show ?thesis by blast
qed

end
