(* ===== verification/Mt_Frame.thy ===== *)
theory Mt_Frame
  imports Micro_Thread Epoll_Proxy Heap_Timer
begin

text \<open>
  The micro-thread framework of \<open>sync_frame/micro_thread/micro_thread.cpp\<close>: the thread pool, the
  lists the scheduler keeps its threads in, and the scheduler. A list linked through the threads
  themselves (\<open>TAILQ\<close>) is the list of its members; inserting a member of a list that uses the same
  link, removing a non-member, popping an empty queue and writing through a \<open>NULL\<close> stack are
  undefined in the sources and are the result \<^term>\<open>None\<close> here.
\<close>

unbundle bit_operations_syntax

section \<open>State\<close>

text \<open>
  \<open>MtFrame\<close> with its base classes \<open>EpollProxy\<close> and \<open>ThreadPool\<close>. \<open>fr_threads\<close> holds the
  thread objects by address, \<open>fr_live\<close> the addresses that are allocated. The clock
  \<open>GetLastClock()\<close>, which is the system time unless it is switched off, is an argument of the
  operations that read it.
\<close>

record 'k mt_frame =
  fr_ep :: "'k epoll_proxy"
  fr_threads :: "ptr \<Rightarrow> micro_thread"
  fr_live :: "ptr list"
  fr_freelist :: "ptr list"
  fr_total_num :: int
  fr_use_num :: int
  fr_max_num :: int
  fr_runlist :: "ptr list"
  fr_iolist :: "ptr list"
  fr_pend_list :: "ptr list"
  fr_sleeplist :: heap_list
  fr_daemon :: ptr
  fr_primo :: ptr
  fr_curr_thread :: ptr
  fr_last_clock :: u64
  fr_waitnum :: int
  fr_timer :: "timer_mng option"
  fr_check_time :: u64

text \<open>The static parameters of \<open>ThreadPool\<close>, and what the system gives for a new thread: the address
  \<open>new\<close> returns, whether \<open>calloc\<close> succeeds, and the mapping for the stack.\<close>

record pool_conf =
  default_thread_num :: nat
  default_stack_size :: nat

type_synonym new_thread = "ptr \<times> bool \<times> (nat \<Rightarrow> nat option)"

definition upd :: "ptr \<Rightarrow> (micro_thread \<Rightarrow> micro_thread) \<Rightarrow> 'k mt_frame \<Rightarrow> 'k mt_frame" where
  "upd p g f = f\<lparr>fr_threads := (fr_threads f)(p := g (fr_threads f p))\<rparr>"

section \<open>The thread pool\<close>

fun pool_loop :: "pool_conf \<Rightarrow> new_thread list \<Rightarrow> 'k mt_frame \<Rightarrow> 'k mt_frame" where
  "pool_loop c [] f = f"
| "pool_loop c ((p, cl, mm) # es) f =
     (if p = NULL then pool_loop c es f
      else (case Initial cl mm (MicroThread_init (default_stack_size c) NORMAL) of
              (False, t) \<Rightarrow> pool_loop c es f
            | (True, t) \<Rightarrow> pool_loop c es
                (f\<lparr>fr_threads := (fr_threads f)(p := SetFlag FREE_LIST t), fr_live := p # fr_live f,
                   fr_freelist := fr_freelist f @ [p]\<rparr>)))"

text \<open>\<open>InitialPool\<close>: the list \<open>es\<close> has one entry per turn of the loop.\<close>

definition InitialPool :: "pool_conf \<Rightarrow> new_thread list \<Rightarrow> int \<Rightarrow> 'k mt_frame \<Rightarrow> bool \<times> 'k mt_frame" where
  "InitialPool c es max_num f =
     (let f1 = pool_loop c (take (default_thread_num c) es) f;
          f2 = f1\<lparr>fr_total_num := int (length (fr_freelist f1)), fr_max_num := max_num, fr_use_num := 0\<rparr>
      in (\<not> fr_total_num f2 \<le> 0, f2))"

definition DestroyPool :: "'k mt_frame \<Rightarrow> 'k mt_frame" where
  "DestroyPool f = f\<lparr>fr_live := filter (\<lambda>p. p \<notin> set (fr_freelist f)) (fr_live f), fr_freelist := [],
     fr_total_num := 0, fr_use_num := 0\<rparr>"

definition AllocThread :: "pool_conf \<Rightarrow> new_thread \<Rightarrow> 'k mt_frame \<Rightarrow> ptr \<times> 'k mt_frame" where
  "AllocThread c e f =
     (case fr_freelist f of
        p # ps \<Rightarrow> (p, (upd p (UnsetFlag FREE_LIST) f)\<lparr>fr_freelist := ps, fr_use_num := fr_use_num f + 1\<rparr>)
      | [] \<Rightarrow>
        if fr_total_num f \<ge> fr_max_num f then (NULL, f)
        else (case e of (p, cl, mm) \<Rightarrow>
          if p = NULL then (NULL, f)
          else (case Initial cl mm (MicroThread_init (default_stack_size c) NORMAL) of
                  (False, t) \<Rightarrow> (NULL, f)
                | (True, t) \<Rightarrow> (p, f\<lparr>fr_threads := (fr_threads f)(p := t), fr_live := p # fr_live f,
                     fr_total_num := fr_total_num f + 1, fr_use_num := fr_use_num f + 1\<rparr>))))"

definition FreeThread :: "pool_conf \<Rightarrow> ptr \<Rightarrow> 'k mt_frame \<Rightarrow> 'k mt_frame option" where
  "FreeThread c p f = do {
     t \<leftarrow> Reset (fr_threads f p);
     let f1 = f\<lparr>fr_threads := (fr_threads f)(p := SetFlag FREE_LIST t), fr_use_num := fr_use_num f - 1,
                fr_freelist := fr_freelist f @ [p]\<rparr>;
     let free_num = length (fr_freelist f1);
     if free_num > default_thread_num c \<and> free_num > 1
     then let old = hd (fr_freelist f1)
          in Some ((upd old Thread_Destroy f1)\<lparr>fr_freelist := tl (fr_freelist f1), fr_live := remove1 old (fr_live f1),
               fr_total_num := fr_total_num f1 - 1\<rparr>)
     else Some f1
   }"

definition GetUsedNum :: "'k mt_frame \<Rightarrow> int" where
  "GetUsedNum f = fr_use_num f"

section \<open>The lists of the scheduler\<close>

abbreviation wakeup :: "'k mt_frame \<Rightarrow> ptr \<Rightarrow> u64" where
  "wakeup f \<equiv> (\<lambda>p. th_wakeup_time (fr_threads f p))"

definition InsertSleep :: "ptr \<Rightarrow> 'k mt_frame \<Rightarrow> 'k mt_frame" where
  "InsertSleep p f =
     (let f1 = upd p (\<lambda>t. SetState SLEEPING (SetFlag SLEEP_LIST t)) f
      in f1\<lparr>fr_sleeplist := snd (HeapPush (wakeup f1) p (fr_sleeplist f1))\<rparr>)"

definition RemoveSleep :: "ptr \<Rightarrow> 'k mt_frame \<Rightarrow> 'k mt_frame" where
  "RemoveSleep p f =
     (let f1 = upd p (UnsetFlag SLEEP_LIST) f
      in f1\<lparr>fr_sleeplist := snd (HeapDelete (wakeup f1) p (fr_sleeplist f1))\<rparr>)"

text \<open>\<open>_iolist\<close> and \<open>_pend_list\<close> use the same link \<open>_entry\<close>.\<close>

definition InsertIoWait :: "ptr \<Rightarrow> 'k mt_frame \<Rightarrow> 'k mt_frame option" where
  "InsertIoWait p f =
     (if p \<in> set (fr_iolist f) \<or> p \<in> set (fr_pend_list f) then None
      else Some (InsertSleep p ((upd p (SetFlag IO_LIST) f)\<lparr>fr_iolist := fr_iolist f @ [p]\<rparr>)))"

definition RemoveIoWait :: "ptr \<Rightarrow> 'k mt_frame \<Rightarrow> 'k mt_frame option" where
  "RemoveIoWait p f =
     (if p \<notin> set (fr_iolist f) then None
      else Some (RemoveSleep p ((upd p (UnsetFlag IO_LIST) f)\<lparr>fr_iolist := remove1 p (fr_iolist f)\<rparr>)))"

definition InsertRunable :: "ptr \<Rightarrow> 'k mt_frame \<Rightarrow> 'k mt_frame" where
  "InsertRunable p f =
     (upd p (\<lambda>t. SetState RUNABLE (SetFlag RUN_LIST t)) f)
       \<lparr>fr_runlist := fr_runlist f @ [p], fr_waitnum := fr_waitnum f + 1\<rparr>"

definition RemoveRunable :: "ptr \<Rightarrow> 'k mt_frame \<Rightarrow> 'k mt_frame option" where
  "RemoveRunable p f =
     (case fr_runlist f of [] \<Rightarrow> None
      | q # qs \<Rightarrow> Some ((upd p (UnsetFlag RUN_LIST) f)\<lparr>fr_runlist := qs, fr_waitnum := fr_waitnum f - 1\<rparr>))"

definition InsertPend :: "ptr \<Rightarrow> 'k mt_frame \<Rightarrow> 'k mt_frame option" where
  "InsertPend p f =
     (if p \<in> set (fr_iolist f) \<or> p \<in> set (fr_pend_list f) then None
      else Some ((upd p (\<lambda>t. SetState PENDING (SetFlag PEND_LIST t)) f)\<lparr>fr_pend_list := fr_pend_list f @ [p]\<rparr>))"

definition RemovePend :: "ptr \<Rightarrow> 'k mt_frame \<Rightarrow> 'k mt_frame option" where
  "RemovePend p f =
     (if p \<notin> set (fr_pend_list f) then None
      else Some ((upd p (UnsetFlag PEND_LIST) f)\<lparr>fr_pend_list := remove1 p (fr_pend_list f)\<rparr>))"

section \<open>Scheduling\<close>

definition ThreadSchdule :: "'k mt_frame \<Rightarrow> 'k mt_frame option" where
  "ThreadSchdule f = do {
     (thread, f1) \<leftarrow> (case fr_runlist f of [] \<Rightarrow> Some (fr_daemon f, f)
                       | p # _ \<Rightarrow> do { f1 \<leftarrow> RemoveRunable p f; Some (p, f1) });
     Some (upd thread (SetState RUNNING) (f1\<lparr>fr_curr_thread := thread\<rparr>))
   }"

definition ScheduleSleep :: "'k mt_frame \<Rightarrow> 'k mt_frame option" where
  "ScheduleSleep f = (if fr_curr_thread f = NULL then Some f else ThreadSchdule (InsertSleep (fr_curr_thread f) f))"

definition SchedulePend :: "'k mt_frame \<Rightarrow> 'k mt_frame option" where
  "SchedulePend f =
     (if fr_curr_thread f = NULL then Some f
      else do { f1 \<leftarrow> InsertPend (fr_curr_thread f) f; ThreadSchdule f1 })"

definition ScheduleUnpend :: "ptr \<Rightarrow> 'k mt_frame \<Rightarrow> 'k mt_frame option" where
  "ScheduleUnpend p f = (if p = NULL then Some f else do { f1 \<leftarrow> RemovePend p f; Some (InsertRunable p f1) })"

definition ScheduleReclaim :: "pool_conf \<Rightarrow> 'k mt_frame \<Rightarrow> 'k mt_frame option" where
  "ScheduleReclaim c f = (if fr_curr_thread f = NULL then Some f else FreeThread c (fr_curr_thread f) f)"

definition Thread_sleep :: "u64 \<Rightarrow> int \<Rightarrow> 'k mt_frame \<Rightarrow> 'k mt_frame option" where
  "Thread_sleep now ms f = ScheduleSleep (upd (fr_curr_thread f) (SetWakeupTime (now + word_of_int ms)) f)"

definition MtFrame_sleep :: "u64 \<Rightarrow> int \<Rightarrow> 'k mt_frame \<Rightarrow> 'k mt_frame option" where
  "MtFrame_sleep now ms f = (if fr_curr_thread f \<noteq> NULL then Thread_sleep now ms f else Some f)"

definition Thread_Wait :: "'k mt_frame \<Rightarrow> 'k mt_frame option" where
  "Thread_Wait f = SchedulePend f"

definition AddSubThread :: "ptr \<Rightarrow> ptr \<Rightarrow> 'k mt_frame \<Rightarrow> 'k mt_frame" where
  "AddSubThread this sub f =
     (let f1 = (if \<not> HasFlag SUB_LIST (fr_threads f sub)
                then upd sub (\<lambda>t. t\<lparr>th_parent := this\<rparr>) (upd this (\<lambda>t. t\<lparr>th_sub_list := th_sub_list t @ [sub]\<rparr>) f)
                else f)
      in upd sub (SetFlag SUB_LIST) f1)"

definition RemoveSubThread :: "ptr \<Rightarrow> ptr \<Rightarrow> 'k mt_frame \<Rightarrow> 'k mt_frame option" where
  "RemoveSubThread this sub f = do {
     f1 \<leftarrow> (if HasFlag SUB_LIST (fr_threads f sub)
            then if sub \<in> set (th_sub_list (fr_threads f this))
                 then Some (upd sub (\<lambda>t. t\<lparr>th_parent := NULL\<rparr>) (upd this (\<lambda>t. t\<lparr>th_sub_list := remove1 sub (th_sub_list t)\<rparr>) f))
                 else None
            else Some f);
     Some (upd sub (UnsetFlag SUB_LIST) f1)
   }"

definition HasNoSubThread :: "ptr \<Rightarrow> 'k mt_frame \<Rightarrow> bool" where
  "HasNoSubThread p f \<longleftrightarrow> th_sub_list (fr_threads f p) = []"

definition WakeupParent :: "ptr \<Rightarrow> 'k mt_frame \<Rightarrow> 'k mt_frame option" where
  "WakeupParent this f =
     (let parent = th_parent (fr_threads f this)
      in if parent \<noteq> NULL
         then do {
           f1 \<leftarrow> RemoveSubThread parent this f;
           if HasNoSubThread parent f1 then ScheduleUnpend parent f1 else Some f1
         }
         else Some f)"

text \<open>\<open>MicroThread::Run\<close> of the current thread after its start function has returned.\<close>

definition Run_end :: "pool_conf \<Rightarrow> 'k mt_frame \<Rightarrow> 'k mt_frame option" where
  "Run_end c f = do {
     f1 \<leftarrow> (if IsSubThread (fr_threads f (fr_curr_thread f)) then WakeupParent (fr_curr_thread f) f else Some f);
     f2 \<leftarrow> ScheduleReclaim c f1;
     ThreadSchdule f2
   }"

definition CreateThread ::
    "pool_conf \<Rightarrow> new_thread \<Rightarrow> ptr \<Rightarrow> ptr \<Rightarrow> bool \<Rightarrow> 'k mt_frame \<Rightarrow> ptr \<times> 'k mt_frame" where
  "CreateThread c e entry args runable f =
     (case AllocThread c e f of (p, f1) \<Rightarrow>
        if p = NULL then (NULL, f1)
        else let f2 = upd p (SetSartFunc entry args) f1
             in (p, if runable then InsertRunable p f2 else f2))"

text \<open>
  \<open>mt_exec_all_task\<close> of \<open>mt_api.cpp\<close>: create a sub-thread per task, start them all and wait for
  them, or give every one back when one cannot be created. The number is the result; \<open>None\<close> in its
  place means that the caller waits (it returns 0 when it is resumed).
\<close>

fun create_subs ::
    "pool_conf \<Rightarrow> ptr \<Rightarrow> (ptr \<times> new_thread) list \<Rightarrow> 'k mt_frame \<Rightarrow> bool \<times> ptr list \<times> 'k mt_frame" where
  "create_subs c entry [] f = (True, [], f)"
| "create_subs c entry ((task, e) # ts) f =
     (case CreateThread c e entry task False f of (sub, f1) \<Rightarrow>
        if sub = NULL then (False, [], f1)
        else (case create_subs c entry ts (upd sub (SetType SUB_THREAD) f1) of (ok, subs, f2) \<Rightarrow> (ok, sub # subs, f2)))"

fun start_subs :: "ptr \<Rightarrow> ptr list \<Rightarrow> 'k mt_frame \<Rightarrow> 'k mt_frame" where
  "start_subs this [] f = f"
| "start_subs this (sub # subs) f = start_subs this subs (InsertRunable sub (AddSubThread this sub f))"

fun free_subs :: "pool_conf \<Rightarrow> ptr list \<Rightarrow> 'k mt_frame \<Rightarrow> 'k mt_frame option" where
  "free_subs c [] f = Some f"
| "free_subs c (sub # subs) f = do { f1 \<leftarrow> FreeThread c sub f; free_subs c subs f1 }"

definition mt_exec_all_task ::
    "pool_conf \<Rightarrow> ptr \<Rightarrow> (ptr \<times> new_thread) list \<Rightarrow> 'k mt_frame \<Rightarrow> (int option \<times> 'k mt_frame) option" where
  "mt_exec_all_task c entry tasks f =
     (if tasks = [] then Some (Some 0, f)
      else case create_subs c entry tasks f of (ok, subs, f1) \<Rightarrow>
        if ok then do { f2 \<leftarrow> Thread_Wait (start_subs (fr_curr_thread f) subs f1); Some (None, f2) }
        else do { f2 \<leftarrow> free_subs c subs f1; Some (Some (- 1), f2) })"

section \<open>Time\<close>

text \<open>\<open>WakeupTimeout\<close>, with the list of the threads it wakes in order.\<close>

partial_function (option) wakeup_loop :: "u64 \<Rightarrow> 'k mt_frame \<Rightarrow> (ptr list \<times> 'k mt_frame) option" where
  "wakeup_loop now f =
     (let thread = HeapTop (fr_sleeplist f)
      in if thread \<noteq> NULL \<and> wakeup f thread \<le> now
         then do {
           f1 \<leftarrow> (if HasFlag IO_LIST (fr_threads f thread) then RemoveIoWait thread f else Some (RemoveSleep thread f));
           (woken, f2) \<leftarrow> wakeup_loop now (InsertRunable thread f1);
           Some (thread # woken, f2)
         }
         else Some ([], f))"

definition WakeupTimeout :: "u64 \<Rightarrow> 'k mt_frame \<Rightarrow> (ptr list \<times> 'k mt_frame) option" where
  "WakeupTimeout now f = wakeup_loop now f"

text \<open>\<open>(int)(wakeup - now)\<close> keeps the low 32 bits of the difference.\<close>

definition EpollGetTimeout :: "u64 \<Rightarrow> 'k mt_frame \<Rightarrow> int" where
  "EpollGetTimeout now f =
     (let thread = HeapTop (fr_sleeplist f)
      in if thread = NULL then 10
         else if wakeup f thread < now then 0
         else sint (ucast (wakeup f thread - now) :: u32))"

text \<open>\<open>CheckExpired\<close>; the boolean says whether \<open>CNetMgr::RecycleObjs\<close> is called.\<close>

definition CheckExpired ::
    "(ptr \<Rightarrow> timer_mng \<Rightarrow> timer_mng) \<Rightarrow> u64 \<Rightarrow> 'k mt_frame \<Rightarrow> (bool \<times> 'k mt_frame) option" where
  "CheckExpired notify now f = do {
     f1 \<leftarrow> (case fr_timer f of None \<Rightarrow> Some f
            | Some tm \<Rightarrow> do { (fired, tm') \<leftarrow> check_expired notify now tm; Some (f\<lparr>fr_timer := Some tm'\<rparr>) });
     if now - fr_check_time f1 > 1000 then Some (True, f1\<lparr>fr_check_time := now\<rparr>) else Some (False, f1)
   }"

section \<open>Waiting for descriptors\<close>

definition WaitNotify :: "u64 \<Rightarrow> u64 \<Rightarrow> 'k mt_frame \<Rightarrow> 'k mt_frame option" where
  "WaitNotify now timeout f = do {
     f1 \<leftarrow> InsertIoWait (fr_curr_thread f) (upd (fr_curr_thread f) (SetWakeupTime (timeout + now)) f);
     ThreadSchdule f1
   }"

text \<open>The objects the current thread waits for, and its wake-up time.\<close>

definition epoll_prepare :: "u64 \<Rightarrow> ptr list option \<Rightarrow> ptr \<Rightarrow> int \<Rightarrow> 'k mt_frame \<Rightarrow> 'k mt_frame" where
  "epoll_prepare now fdlist fd timeout f =
     (let this = fr_curr_thread f;
          f1 = upd this ClearAllFd f;
          f2 = (case fdlist of None \<Rightarrow> f1 | Some fds \<Rightarrow> upd this (AddFdList fds) f1);
          f3 = (if fd \<noteq> NULL then upd this (AddFd fd) f2 else f2)
      in upd this (SetWakeupTime (word_of_int timeout + now)) f3)"

text \<open>
  \<open>EpollSchedule\<close> up to the switch, and after the thread \<open>this\<close> was resumed. \<open>ETIME\<close> is the
  result false of the second part.
\<close>

definition EpollSchedule_enter ::
    "'k epoll_ctl \<Rightarrow> u64 \<Rightarrow> ptr list option \<Rightarrow> ptr \<Rightarrow> int \<Rightarrow> 'k mt_frame \<Rightarrow> (bool \<times> 'k mt_frame) option" where
  "EpollSchedule_enter ctl now fdlist fd timeout f =
     (let this = fr_curr_thread f
      in if this = NULL then Some (False, f)
         else let f1 = epoll_prepare now fdlist fd timeout f;
                  (ok, ep) = EpollAdd ctl (th_fdset (fr_threads f1 this)) (fr_ep f1);
                  f2 = f1\<lparr>fr_ep := ep\<rparr>
              in if \<not> ok then Some (False, f2)
                 else do { f3 \<leftarrow> InsertIoWait this f2; f4 \<leftarrow> ThreadSchdule f3; Some (True, f4) })"

definition EpollSchedule_leave :: "'k epoll_ctl \<Rightarrow> ptr \<Rightarrow> 'k mt_frame \<Rightarrow> bool \<times> 'k mt_frame" where
  "EpollSchedule_leave ctl this f =
     (let rcvfds = th_fdset (fr_threads f this);
          rcvnum = length (filter (\<lambda>ob. eo_revents (ep_objs (fr_ep f) ob) \<noteq> 0) rcvfds)
      in (rcvnum \<noteq> 0, f\<lparr>fr_ep := snd (EpollDel ctl rcvfds (fr_ep f))\<rparr>))"

text \<open>The whole call: \<open>others\<close> is what happens until the thread is resumed.\<close>

definition EpollSchedule ::
    "'k epoll_ctl \<Rightarrow> ('k mt_frame \<Rightarrow> 'k mt_frame option) \<Rightarrow> u64 \<Rightarrow> ptr list option \<Rightarrow> ptr \<Rightarrow> int \<Rightarrow> 'k mt_frame \<Rightarrow>
     (bool \<times> 'k mt_frame) option" where
  "EpollSchedule ctl others now fdlist fd timeout f = do {
     (switched, f1) \<leftarrow> EpollSchedule_enter ctl now fdlist fd timeout f;
     if \<not> switched then Some (False, f1)
     else do { f2 \<leftarrow> others f1; Some (EpollSchedule_leave ctl (fr_curr_thread f) f2) }
   }"

text \<open>\<open>EpollerObj::InputNotify\<close> and \<open>OutputNotify\<close>, which have the same body, and \<open>HangupNotify\<close>.\<close>

definition InputNotify :: "ptr \<Rightarrow> 'k mt_frame \<Rightarrow> (int \<times> 'k mt_frame) option" where
  "InputNotify ob f =
     (let thread = eo_thread (ep_objs (fr_ep f) ob)
      in if thread = NULL then Some (- 1, f)
         else if HasFlag IO_LIST (fr_threads f thread)
         then do { f1 \<leftarrow> RemoveIoWait thread f; Some (0, InsertRunable thread f1) }
         else Some (0, f))"

definition OutputNotify :: "ptr \<Rightarrow> 'k mt_frame \<Rightarrow> (int \<times> 'k mt_frame) option" where
  "OutputNotify ob f =
     (let thread = eo_thread (ep_objs (fr_ep f) ob)
      in if thread = NULL then Some (- 1, f)
         else if HasFlag IO_LIST (fr_threads f thread)
         then do { f1 \<leftarrow> RemoveIoWait thread f; Some (0, InsertRunable thread f1) }
         else Some (0, f))"

definition HangupNotify :: "'k epoll_ctl \<Rightarrow> ptr \<Rightarrow> 'k mt_frame \<Rightarrow> 'k mt_frame" where
  "HangupNotify ctl ob f =
     f\<lparr>fr_ep := snd (EpollCtrlDel ctl (eo_fd (ep_objs (fr_ep f) ob)) (eo_events (ep_objs (fr_ep f) ob)) (fr_ep f))\<rparr>"

text \<open>\<open>EpollRcvEventList\<close> on the events \<open>epoll_wait\<close> returned, each a descriptor and its mask.\<close>

definition rcv_event :: "'k epoll_ctl \<Rightarrow> int \<times> u32 \<Rightarrow> 'k mt_frame \<Rightarrow> 'k mt_frame option" where
  "rcv_event ctl ev f =
     (case ev of (osfd, revents) \<Rightarrow>
        case FdRefGet osfd (fr_ep f) of None \<Rightarrow> Some f
        | Some i \<Rightarrow>
          let ob = rf_epobj (ep_refs (fr_ep f) ! i)
          in if ob = NULL
             then Some (f\<lparr>fr_ep := snd (EpollCtrlDel ctl osfd (revents AND (EPOLLIN OR EPOLLOUT)) (fr_ep f))\<rparr>)
             else let f1 = f\<lparr>fr_ep := (fr_ep f)\<lparr>ep_objs := (ep_objs (fr_ep f))(ob := (ep_objs (fr_ep f) ob)\<lparr>eo_revents := revents\<rparr>)\<rparr>\<rparr>
                  in if revents AND (EPOLLERR OR EPOLLHUP) \<noteq> 0 then Some (HangupNotify ctl ob f1)
                     else do {
                       (ret, f2) \<leftarrow> (if revents AND EPOLLIN \<noteq> 0 then InputNotify ob f1 else Some (0, f1));
                       if ret \<noteq> 0 then Some f2
                       else if revents AND EPOLLOUT \<noteq> 0 then do { (ret2, f3) \<leftarrow> OutputNotify ob f2; Some f3 }
                       else Some f2
                     })"

fun EpollRcvEventList :: "'k epoll_ctl \<Rightarrow> (int \<times> u32) list \<Rightarrow> 'k mt_frame \<Rightarrow> 'k mt_frame option" where
  "EpollRcvEventList ctl [] f = Some f"
| "EpollRcvEventList ctl (ev # evs) f = do { f1 \<leftarrow> rcv_event ctl ev f; EpollRcvEventList ctl evs f1 }"

text \<open>\<open>epoll_wait\<close> is the argument \<open>wait\<close>, from the timeout to the events (none on an error).\<close>

definition EpollDispath ::
    "'k epoll_ctl \<Rightarrow> (int \<Rightarrow> (int \<times> u32) list) \<Rightarrow> u64 \<Rightarrow> 'k mt_frame \<Rightarrow> 'k mt_frame option" where
  "EpollDispath ctl wait now f =
     (let evs = wait (EpollGetTimeout now f) in if evs = [] then Some f else EpollRcvEventList ctl evs f)"

text \<open>One turn of the loop of \<open>DaemonRun\<close>: \<open>now\<close> before, \<open>later\<close> after the wait.\<close>

definition daemon_turn ::
    "'k epoll_ctl \<Rightarrow> (int \<Rightarrow> (int \<times> u32) list) \<Rightarrow> (ptr \<Rightarrow> timer_mng \<Rightarrow> timer_mng) \<Rightarrow> u64 \<Rightarrow> u64 \<Rightarrow>
     'k mt_frame \<Rightarrow> 'k mt_frame option" where
  "daemon_turn ctl wait notify now later f = do {
     f1 \<leftarrow> EpollDispath ctl wait now f;
     (woken, f2) \<leftarrow> WakeupTimeout later (f1\<lparr>fr_last_clock := later\<rparr>);
     (recycle, f3) \<leftarrow> CheckExpired notify later f2;
     ThreadSchdule f3
   }"

text \<open>\<open>GetRootThread\<close>: up the parents of a sub-thread. \<^term>\<open>None\<close> when the walk does not end.\<close>

partial_function (option) root_loop :: "'k mt_frame \<Rightarrow> ptr \<Rightarrow> ptr \<Rightarrow> ptr option" where
  "root_loop f thread parent =
     (if th_type (fr_threads f thread) = SUB_THREAD
      then let up = th_parent (fr_threads f thread)
           in if up = NULL then Some parent else root_loop f up up
      else Some parent)"

definition GetRootThread :: "'k mt_frame \<Rightarrow> ptr option" where
  "GetRootThread f = (if fr_curr_thread f = NULL then Some NULL else root_loop f (fr_curr_thread f) (fr_curr_thread f))"

section \<open>Start and end of the framework\<close>

text \<open>
  The constructor sets the members it names; the others (\<open>g\<close>) keep whatever the memory holds.
\<close>

definition MtFrame_init :: "'k mt_frame \<Rightarrow> 'k mt_frame" where
  "MtFrame_init g = g\<lparr>fr_curr_thread := NULL, fr_freelist := [], fr_runlist := [], fr_sleeplist := HeapList_init 100000,
     fr_ep := EpollProxy_init (ep_objs (fr_ep g)) (ep_kernel (fr_ep g))\<rparr>"

text \<open>\<open>Destroy\<close>. The loops that empty the sleep queue and the lists give every thread back to the pool.\<close>

partial_function (option) drain_sleep :: "pool_conf \<Rightarrow> 'k mt_frame \<Rightarrow> 'k mt_frame option" where
  "drain_sleep c f =
     (case HeapPop (wakeup f) (fr_sleeplist f) of (p, h) \<Rightarrow>
        if p = NULL then Some (f\<lparr>fr_sleeplist := h\<rparr>)
        else do { f1 \<leftarrow> FreeThread c p (f\<lparr>fr_sleeplist := h\<rparr>); drain_sleep c f1 })"

definition MtFrame_Destroy :: "pool_conf \<Rightarrow> 'k mt_frame \<Rightarrow> 'k mt_frame option" where
  "MtFrame_Destroy c f = do {
     let f1 = (if fr_primo f \<noteq> NULL then f\<lparr>fr_live := remove1 (fr_primo f) (fr_live f), fr_primo := NULL\<rparr> else f);
     f2 \<leftarrow> (if fr_daemon f1 \<noteq> NULL then do { g \<leftarrow> FreeThread c (fr_daemon f1) f1; Some (g\<lparr>fr_daemon := NULL\<rparr>) } else Some f1);
     f3 \<leftarrow> drain_sleep c (f2\<lparr>fr_iolist := []\<rparr>);
     f4 \<leftarrow> free_subs c (fr_runlist f3) (f3\<lparr>fr_runlist := []\<rparr>);
     f5 \<leftarrow> free_subs c (fr_pend_list f4) (f4\<lparr>fr_pend_list := []\<rparr>);
     let f6 = DestroyPool (f5\<lparr>fr_timer := None\<rparr>);
     Some (f6\<lparr>fr_ep := TermEpoll (fr_ep f6)\<rparr>)
   }"

text \<open>What the system answers during \<open>InitFrame\<close>.\<close>

record init_env =
  ie_epoll_create :: int
  ie_new_refs :: bool
  ie_calloc_evts :: bool
  ie_threads :: "new_thread list"
  ie_malloc_heap :: bool
  ie_new_timer :: bool
  ie_daemon :: new_thread
  ie_primo :: ptr
  ie_now :: u64

definition InitFrame ::
    "pool_conf \<Rightarrow> init_env \<Rightarrow> ptr \<times> ptr \<Rightarrow> int \<Rightarrow> 'k mt_frame \<Rightarrow> (bool \<times> 'k mt_frame) option" where
  \<comment> \<open>\<open>daemon_run\<close>: the addresses of \<open>DaemonRun\<close> and of the framework object\<close>
  "InitFrame c e daemon_run max_thread_num f =
     (let fail = (\<lambda>g. do { g' \<leftarrow> MtFrame_Destroy c g; Some (False, g') });
          (rc, ep) = InitEpoll (ie_epoll_create e) (ie_new_refs e) (ie_calloc_evts e) max_thread_num (fr_ep f);
          f1 = f\<lparr>fr_ep := ep\<rparr>
      in if rc < 0 then fail f1
         else let (ok, f2) = InitialPool c (ie_threads e) max_thread_num f1
      in if \<not> ok then fail f2
         else let (rh, h) = HeapResize (ie_malloc_heap e) (max_thread_num * 2) (fr_sleeplist f2);
                  f3 = f2\<lparr>fr_sleeplist := h\<rparr>
      in if rh < 0 then fail f3
         else let f4 = f3\<lparr>fr_timer := (if ie_new_timer e then Some (CTimerMng_init (word_of_int (max_thread_num * 2))) else None)\<rparr>
      in if \<not> ie_new_timer e then fail f4
         else let (d, f5) = AllocThread c (ie_daemon e) f4;
                  f6 = f5\<lparr>fr_daemon := d\<rparr>
      in if d = NULL then fail f6
         else let f7 = upd d (\<lambda>t. SetSartFunc (fst daemon_run) (snd daemon_run) (SetState RUNABLE (SetType DAEMON t))) f6;
                  p = ie_primo e;
                  f8 = f7\<lparr>fr_primo := p\<rparr>
      in if p = NULL then fail f8
         else Some (True,
           f8\<lparr>fr_threads := (fr_threads f8)(p := SetState RUNNING (MicroThread_init (default_stack_size c) PRIMORDIAL)),
              fr_live := p # fr_live f8, fr_curr_thread := p, fr_last_clock := ie_now e, fr_iolist := [], fr_pend_list := []\<rparr>))"

end
