(* ===== verification/Mt_Lists.thy ===== *)
theory Mt_Lists
  imports Mt_Frame
begin

text \<open>
  What the scheduler keeps: every allocated thread is in exactly one of the run list, the sleep
  queue, the pending list and the free list, or it is the one that runs (or the daemon); its flag
  bits say in which. The invariant is proved for the primitive operations first, with the set of the
  threads that are in none of the lists as a parameter; the theory \<open>Mt_Sched\<close> composes them.
\<close>

section \<open>The invariant of the lists\<close>

abbreviation asleep :: "'k mt_frame \<Rightarrow> ptr set" where
  "asleep f \<equiv> heap_entries (fr_sleeplist f)"
abbreviation flag_of :: "'k mt_frame \<Rightarrow> thread_flag \<Rightarrow> ptr \<Rightarrow> bool" where
  "flag_of f g p \<equiv> HasFlag g (fr_threads f p)"

text \<open>\<open>X\<close> are the threads in none of the lists.\<close>

definition placed :: "ptr set \<Rightarrow> 'k mt_frame \<Rightarrow> ptr \<Rightarrow> bool" where
  "placed X f p \<longleftrightarrow>
     (flag_of f RUN_LIST p \<longleftrightarrow> p \<in> set (fr_runlist f)) \<and> (flag_of f SLEEP_LIST p \<longleftrightarrow> p \<in> asleep f) \<and>
     (flag_of f IO_LIST p \<longleftrightarrow> p \<in> set (fr_iolist f)) \<and> (flag_of f PEND_LIST p \<longleftrightarrow> p \<in> set (fr_pend_list f)) \<and>
     (p \<in> set (fr_live f) \<longrightarrow> (flag_of f FREE_LIST p \<longleftrightarrow> p \<in> set (fr_freelist f))) \<and>
     (p \<in> set (fr_runlist f) \<longrightarrow> p \<notin> asleep f \<and> p \<notin> set (fr_pend_list f) \<and> p \<notin> set (fr_freelist f) \<and> p \<notin> X) \<and>
     (p \<in> asleep f \<longrightarrow> p \<notin> set (fr_pend_list f) \<and> p \<notin> set (fr_freelist f) \<and> p \<notin> X) \<and>
     (p \<in> set (fr_pend_list f) \<longrightarrow> p \<notin> set (fr_freelist f) \<and> p \<notin> X) \<and>
     (p \<in> set (fr_freelist f) \<longrightarrow> p \<notin> X) \<and> (p \<in> set (fr_iolist f) \<longrightarrow> p \<in> asleep f) \<and>
     (p \<in> set (fr_live f) \<longleftrightarrow> p \<in> X \<or> p \<in> set (fr_runlist f) \<or> p \<in> asleep f \<or> p \<in> set (fr_pend_list f) \<or>
        p \<in> set (fr_freelist f))"

definition lists_ok :: "'k mt_frame \<Rightarrow> bool" where
  "lists_ok f \<longleftrightarrow> distinct (fr_live f) \<and> NULL \<notin> set (fr_live f) \<and> heap_wf (fr_sleeplist f) \<and>
     distinct (fr_runlist f) \<and> distinct (fr_iolist f) \<and> distinct (fr_pend_list f) \<and> distinct (fr_freelist f)"

definition counts_ok :: "pool_conf \<Rightarrow> 'k mt_frame \<Rightarrow> bool" where
  "counts_ok c f \<longleftrightarrow> fr_total_num f + 1 = int (length (fr_live f)) \<and>
     fr_use_num f + int (length (fr_freelist f)) = fr_total_num f \<and>
     fr_total_num f \<le> max (fr_max_num f) (int (default_thread_num c)) \<and>
     max (fr_max_num f) (int (default_thread_num c)) < int (hp_max (fr_sleeplist f))"

definition stacks_ok :: "'k mt_frame \<Rightarrow> bool" where
  "stacks_ok f \<longleftrightarrow> fr_primo f \<in> set (fr_live f) \<and> fr_primo f \<notin> set (fr_freelist f) \<and>
     (\<forall>p \<in> set (fr_live f). p \<noteq> fr_primo f \<longrightarrow> th_stack (fr_threads f p) \<noteq> None)"

definition frame_core :: "pool_conf \<Rightarrow> ptr set \<Rightarrow> 'k mt_frame \<Rightarrow> bool" where
  "frame_core c X f \<longleftrightarrow> (\<forall>p. placed X f p) \<and> lists_ok f \<and> counts_ok c f \<and> stacks_ok f"

lemma frame_coreD:
  assumes "frame_core c X f"
  shows "placed X f p" "lists_ok f" "counts_ok c f" "stacks_ok f" "heap_wf (fr_sleeplist f)"
  using assms by (auto simp: frame_core_def lists_ok_def)

lemma upd_fields [simp]:
  "fr_ep (upd p g f) = fr_ep f" "fr_live (upd p g f) = fr_live f" "fr_freelist (upd p g f) = fr_freelist f"
  "fr_total_num (upd p g f) = fr_total_num f" "fr_use_num (upd p g f) = fr_use_num f" "fr_max_num (upd p g f) = fr_max_num f"
  "fr_runlist (upd p g f) = fr_runlist f" "fr_iolist (upd p g f) = fr_iolist f" "fr_pend_list (upd p g f) = fr_pend_list f"
  "fr_sleeplist (upd p g f) = fr_sleeplist f" "fr_daemon (upd p g f) = fr_daemon f" "fr_primo (upd p g f) = fr_primo f"
  "fr_curr_thread (upd p g f) = fr_curr_thread f" "fr_waitnum (upd p g f) = fr_waitnum f" "fr_timer (upd p g f) = fr_timer f"
  "fr_threads (upd p g f) q = (if q = p then g (fr_threads f p) else fr_threads f q)"
  by (simp_all add: upd_def)

text \<open>An update of a thread that leaves its list flags and its stack alone.\<close>

lemma core_upd:
  assumes "frame_core c X f" "\<And>g. g \<noteq> SUB_LIST \<Longrightarrow> HasFlag g (h (fr_threads f p)) = HasFlag g (fr_threads f p)"
    "th_stack (h (fr_threads f p)) = th_stack (fr_threads f p)"
  shows "frame_core c X (upd p h f)"
  using assms unfolding frame_core_def
  by (auto simp: placed_def lists_ok_def counts_ok_def stacks_ok_def)

text \<open>Fields the invariant does not read.\<close>

lemma core_other [simp]:
  "frame_core c X (f\<lparr>fr_ep := a\<rparr>) = frame_core c X f" "frame_core c X (f\<lparr>fr_curr_thread := p\<rparr>) = frame_core c X f"
  "frame_core c X (f\<lparr>fr_last_clock := w\<rparr>) = frame_core c X f" "frame_core c X (f\<lparr>fr_timer := tm\<rparr>) = frame_core c X f"
  "frame_core c X (f\<lparr>fr_check_time := w\<rparr>) = frame_core c X f" "frame_core c X (f\<lparr>fr_waitnum := n\<rparr>) = frame_core c X f"
  by (simp_all add: frame_core_def placed_def lists_ok_def counts_ok_def stacks_ok_def)

text \<open>A thread outside the lists finds room in the sleep queue.\<close>

lemma core_sleep_room:
  assumes core: "frame_core c X f" and p: "p \<in> X"
  shows "\<not> HeapFull (fr_sleeplist f)" "p \<noteq> NULL" "p \<notin> asleep f" "p \<in> set (fr_live f)"
proof -
  note pl = frame_coreD(1) [OF core] and ls = frame_coreD(2) [OF core] and ct = frame_coreD(3) [OF core]
  show p': "p \<notin> asleep f" "p \<in> set (fr_live f)" using pl [of p] p by (auto simp: placed_def)
  then show "p \<noteq> NULL" using ls by (intro notI) (simp add: lists_ok_def)
  have "asleep f \<subseteq> set (fr_live f) - {p}"
  proof
    fix q assume "q \<in> asleep f"
    with pl [of q] p'(1) show "q \<in> set (fr_live f) - {p}" by (auto simp: placed_def)
  qed
  then have "card (asleep f) \<le> card (set (fr_live f) - {p})" by (intro card_mono) auto
  also have "\<dots> = length (fr_live f) - 1"
    using ls p'(2) by (simp add: lists_ok_def distinct_card)
  finally have "hp_count (fr_sleeplist f) \<le> length (fr_live f) - 1"
    using heap_entries_card [OF frame_coreD(5) [OF core]] by simp
  with ct show "\<not> HeapFull (fr_sleeplist f)" by (auto simp: counts_ok_def HeapFull_def)
qed

lemma HeapPush_core:
  assumes core: "frame_core c X f" and p: "p \<in> X"
  shows "heap_wf (snd (HeapPush hv p (fr_sleeplist f)))"
    "heap_entries (snd (HeapPush hv p (fr_sleeplist f))) = insert p (asleep f)"
    "hp_max (snd (HeapPush hv p (fr_sleeplist f))) = hp_max (fr_sleeplist f)"
  using HeapPush_queued [OF frame_coreD(5) [OF core] core_sleep_room(2,3,1) [OF core p], of hv] by simp_all

lemma InsertSleep_core:
  assumes core: "frame_core c X f" and p: "p \<in> X"
  shows "frame_core c (X - {p}) (InsertSleep p f)"
proof -
  note h = HeapPush_core [OF core p, of "wakeup (upd p (\<lambda>t. SetState SLEEPING (SetFlag SLEEP_LIST t)) f)"]
  have pl: "placed X f q" for q by (rule frame_coreD(1) [OF core])
  have "placed (X - {p}) (InsertSleep p f) q" for q
    using pl [of q] pl [of p] p h(2) by (auto simp: placed_def InsertSleep_def Let_def)
  then show ?thesis
    using core h(1,3) by (auto simp: frame_core_def lists_ok_def counts_ok_def stacks_ok_def InsertSleep_def Let_def)
qed

lemma InsertIoWait_core:
  assumes core: "frame_core c X f" and p: "p \<in> X"
  obtains f' where "InsertIoWait p f = Some f'" "frame_core c (X - {p}) f'"
proof -
  let ?g = "(upd p (SetFlag IO_LIST) f)\<lparr>fr_iolist := fr_iolist f @ [p]\<rparr>"
  have pl: "placed X f q" for q by (rule frame_coreD(1) [OF core])
  have out: "p \<notin> set (fr_iolist f)" "p \<notin> set (fr_pend_list f)" using pl [of p] p by (auto simp: placed_def)
  note h = HeapPush_core [OF core p, of "wakeup (upd p (\<lambda>t. SetState SLEEPING (SetFlag SLEEP_LIST t)) ?g)"]
  have "placed (X - {p}) (InsertSleep p ?g) q" for q
    using pl [of q] pl [of p] p h(2) by (auto simp: placed_def InsertSleep_def Let_def)
  then have "frame_core c (X - {p}) (InsertSleep p ?g)"
    using core h(1,3) out by (auto simp: frame_core_def lists_ok_def counts_ok_def stacks_ok_def InsertSleep_def Let_def)
  with out show thesis by (intro that) (simp_all add: InsertIoWait_def)
qed

lemma RemoveSleep_core:
  assumes core: "frame_core c X f" and p: "p \<in> asleep f" "p \<notin> set (fr_iolist f)"
  shows "frame_core c (insert p X) (RemoveSleep p f)"
proof -
  note h = HeapDelete_queued [OF frame_coreD(5) [OF core] p(1), of "wakeup (upd p (UnsetFlag SLEEP_LIST) f)"]
  have pl: "placed X f q" for q by (rule frame_coreD(1) [OF core])
  have "placed (insert p X) (RemoveSleep p f) q" for q
    using pl [of q] pl [of p] p h(3) by (auto simp: placed_def RemoveSleep_def Let_def)
  then show ?thesis
    using core h(2,5) by (auto simp: frame_core_def lists_ok_def counts_ok_def stacks_ok_def RemoveSleep_def Let_def)
qed

lemma RemoveIoWait_core:
  assumes core: "frame_core c X f" and p: "p \<in> set (fr_iolist f)"
  obtains f' where "RemoveIoWait p f = Some f'" "frame_core c (insert p X) f'"
proof -
  let ?g = "(upd p (UnsetFlag IO_LIST) f)\<lparr>fr_iolist := remove1 p (fr_iolist f)\<rparr>"
  have pl: "placed X f q" for q by (rule frame_coreD(1) [OF core])
  have s: "p \<in> asleep f" using pl [of p] p by (simp add: placed_def)
  have d: "distinct (fr_iolist f)" using core by (simp add: frame_core_def lists_ok_def)
  note h = HeapDelete_queued [OF frame_coreD(5) [OF core] s, of "wakeup (upd p (UnsetFlag SLEEP_LIST) ?g)"]
  have "placed (insert p X) (RemoveSleep p ?g) q" for q
    using pl [of q] pl [of p] p s h(3) d by (auto simp: placed_def RemoveSleep_def Let_def)
  then have "frame_core c (insert p X) (RemoveSleep p ?g)"
    using core h(2,5) d by (auto simp: frame_core_def lists_ok_def counts_ok_def stacks_ok_def RemoveSleep_def Let_def)
  with p show thesis by (intro that) (simp_all add: RemoveIoWait_def)
qed

lemma InsertRunable_core:
  assumes core: "frame_core c X f" and p: "p \<in> X"
  shows "frame_core c (X - {p}) (InsertRunable p f)"
proof -
  have pl: "placed X f q" for q by (rule frame_coreD(1) [OF core])
  have "p \<notin> set (fr_runlist f)" using pl [of p] p by (auto simp: placed_def)
  moreover have "placed (X - {p}) (InsertRunable p f) q" for q
    using pl [of q] pl [of p] p by (auto simp: placed_def InsertRunable_def)
  ultimately show ?thesis
    using core by (auto simp: frame_core_def lists_ok_def counts_ok_def stacks_ok_def InsertRunable_def)
qed

lemma RemoveRunable_core:
  assumes core: "frame_core c X f" and p: "fr_runlist f = p # ps"
  obtains f' where "RemoveRunable p f = Some f'" "frame_core c (insert p X) f'" "fr_runlist f' = ps"
proof -
  have pl: "placed X f q" for q by (rule frame_coreD(1) [OF core])
  let ?f' = "(upd p (UnsetFlag RUN_LIST) f)\<lparr>fr_runlist := ps, fr_waitnum := fr_waitnum f - 1\<rparr>"
  have d: "p \<notin> set ps" "distinct ps" using core p by (simp_all add: frame_core_def lists_ok_def)
  then have "placed (insert p X) ?f' q" for q
    using pl [of q] pl [of p] p by (auto simp: placed_def)
  then have "frame_core c (insert p X) ?f'"
    using core d by (auto simp: frame_core_def lists_ok_def counts_ok_def stacks_ok_def)
  with p show thesis by (intro that [of ?f']) (simp_all add: RemoveRunable_def)
qed

lemma InsertPend_core:
  assumes core: "frame_core c X f" and p: "p \<in> X"
  obtains f' where "InsertPend p f = Some f'" "frame_core c (X - {p}) f'" "fr_pend_list f' = fr_pend_list f @ [p]"
proof -
  have pl: "placed X f q" for q by (rule frame_coreD(1) [OF core])
  let ?f' = "(upd p (\<lambda>t. SetState PENDING (SetFlag PEND_LIST t)) f)\<lparr>fr_pend_list := fr_pend_list f @ [p]\<rparr>"
  have out: "p \<notin> set (fr_iolist f)" "p \<notin> set (fr_pend_list f)" using pl [of p] p by (auto simp: placed_def)
  have "placed (X - {p}) ?f' q" for q using pl [of q] pl [of p] p by (auto simp: placed_def)
  then have "frame_core c (X - {p}) ?f'"
    using core out by (auto simp: frame_core_def lists_ok_def counts_ok_def stacks_ok_def)
  with out show thesis by (intro that [of ?f']) (simp_all add: InsertPend_def)
qed

lemma RemovePend_core:
  assumes core: "frame_core c X f" and p: "p \<in> set (fr_pend_list f)"
  obtains f' where "RemovePend p f = Some f'" "frame_core c (insert p X) f'" "set (fr_pend_list f') = set (fr_pend_list f) - {p}"
proof -
  have pl: "placed X f q" for q by (rule frame_coreD(1) [OF core])
  let ?f' = "(upd p (UnsetFlag PEND_LIST) f)\<lparr>fr_pend_list := remove1 p (fr_pend_list f)\<rparr>"
  have d: "distinct (fr_pend_list f)" using core by (simp add: frame_core_def lists_ok_def)
  then have "placed (insert p X) ?f' q" for q using pl [of q] pl [of p] p by (auto simp: placed_def)
  then have "frame_core c (insert p X) ?f'"
    using core d by (auto simp: frame_core_def lists_ok_def counts_ok_def stacks_ok_def)
  with p d show thesis by (intro that [of ?f']) (simp_all add: RemovePend_def)
qed

lemma Thread_Destroy_fields [simp]:
  "HasFlag g (Thread_Destroy t) = HasFlag g t" "th_type (Thread_Destroy t) = th_type t"
  "th_parent (Thread_Destroy t) = th_parent t" "th_sub_list (Thread_Destroy t) = th_sub_list t"
  by (simp_all add: Thread_Destroy_def FreeStack_def HasFlag_def)

text \<open>The oldest free thread is deleted.\<close>

lemma delete_free_core:
  assumes core: "frame_core c X f" and old: "fr_freelist f = old # qs"
  shows "frame_core c X ((upd old Thread_Destroy f)\<lparr>fr_freelist := qs, fr_live := remove1 old (fr_live f),
           fr_total_num := fr_total_num f - 1\<rparr>)" (is "frame_core c X ?f'")
proof -
  have pl: "placed X f q" for q by (rule frame_coreD(1) [OF core])
  have ls: "lists_ok f" and ct: "counts_ok c f" and st: "stacks_ok f" using core by (simp_all add: frame_core_def)
  have o: "old \<in> set (fr_live f)" "old \<notin> set qs" "distinct (fr_live f)" "old \<noteq> fr_primo f"
    using pl [of old] old ls st by (auto simp: placed_def lists_ok_def stacks_ok_def)
  have "placed X ?f' q" for q
  proof (cases "q = old")
    case True
    then show ?thesis using pl [of old] old o by (auto simp: placed_def)
  next
    case False
    then show ?thesis using pl [of q] old o by (simp add: placed_def)
  qed
  moreover have "lists_ok ?f'" using ls old by (auto simp: lists_ok_def)
  moreover have "int (length (remove1 old (fr_live f))) = int (length (fr_live f)) - 1"
    using length_pos_if_in_set [OF o(1)] o(1) by (simp add: length_remove1 of_nat_diff Suc_le_eq)
  then have "counts_ok c ?f'" using ct old by (simp add: counts_ok_def)
  moreover have "stacks_ok ?f'" using st old o by (simp add: stacks_ok_def)
  ultimately show ?thesis by (simp add: frame_core_def)
qed

text \<open>Giving a thread back: it is on the free list, unless the pool is full and an older one is deleted.\<close>

lemma FreeThread_core:
  assumes core: "frame_core c X f" and p: "p \<in> X" "p \<noteq> fr_primo f"
  obtains f' where "FreeThread c p f = Some f'" "frame_core c (X - {p}) f'"
proof -
  have pl: "placed X f q" for q by (rule frame_coreD(1) [OF core])
  have ls: "lists_ok f" and ct: "counts_ok c f" and st: "stacks_ok f" using core by (simp_all add: frame_core_def)
  have live: "p \<in> set (fr_live f)" and nf: "p \<notin> set (fr_freelist f)" using pl [of p] p by (auto simp: placed_def)
  then have "th_stack (fr_threads f p) \<noteq> None" using st p by (simp add: stacks_ok_def)
  then obtain t where t: "Reset (fr_threads f p) = Some t" "th_stack t \<noteq> None" "\<And>g. \<not> HasFlag g t"
    by (rule Reset_Some) (rule that)
  let ?f1 = "f\<lparr>fr_threads := (fr_threads f)(p := SetFlag FREE_LIST t), fr_use_num := fr_use_num f - 1,
                fr_freelist := fr_freelist f @ [p]\<rparr>"
  have "placed (X - {p}) ?f1 q" for q using pl [of q] pl [of p] p t(3) by (auto simp: placed_def)
  then have core1: "frame_core c (X - {p}) ?f1"
    using ls ct st t(2) nf p(2) by (auto simp: frame_core_def lists_ok_def counts_ok_def stacks_ok_def)
  show thesis
  proof (cases "length (fr_freelist ?f1) > default_thread_num c \<and> length (fr_freelist ?f1) > 1")
    case False
    then have "FreeThread c p f = Some ?f1" using t(1) by (auto simp: FreeThread_def Let_def)
    from this core1 show thesis by (rule that)
  next
    case True
    then obtain old qs where old: "fr_freelist f = old # qs" by (cases "fr_freelist f") auto
    let ?f2 = "(upd old Thread_Destroy ?f1)\<lparr>fr_freelist := qs @ [p], fr_live := remove1 old (fr_live f),
               fr_total_num := fr_total_num f - 1\<rparr>"
    have "frame_core c (X - {p}) ?f2"
      using delete_free_core [OF core1, of old "qs @ [p]"] old by simp
    moreover have "FreeThread c p f = Some ?f2" using t(1) True old by (simp add: FreeThread_def Let_def)
    ultimately show thesis by (intro that [of ?f2])
  qed
qed

text \<open>Taking a thread: an old one from the free list, a new one, or none.\<close>

lemma AllocThread_core:
  assumes core: "frame_core c X f" and fresh: "fst e \<notin> set (fr_live f)"
    and res: "AllocThread c e f = (p, f')"
  shows "p = NULL \<Longrightarrow> f' = f" "p \<noteq> NULL \<Longrightarrow> p \<notin> X" "p \<noteq> NULL \<Longrightarrow> frame_core c (insert p X) f'"
proof -
  have pl: "placed X f q" for q by (rule frame_coreD(1) [OF core])
  have ls: "lists_ok f" and ct: "counts_ok c f" and st: "stacks_ok f" using core by (simp_all add: frame_core_def)
  obtain a cl mm where e: "e = (a, cl, mm)" by (cases e)
  have all: "(p = NULL \<longrightarrow> f' = f) \<and> (p \<noteq> NULL \<longrightarrow> p \<notin> X \<and> frame_core c (insert p X) f')"
  proof (cases "fr_freelist f")
    case (Cons q qs)
    then have res': "p = q" "f' = (upd q (UnsetFlag FREE_LIST) f)\<lparr>fr_freelist := qs, fr_use_num := fr_use_num f + 1\<rparr>"
      using res by (auto simp: AllocThread_def)
    have q: "q \<in> set (fr_live f)" "q \<notin> X" "q \<notin> set qs"
      using pl [of q] Cons ls by (auto simp: placed_def lists_ok_def)
    then have q0: "q \<noteq> NULL" using ls by (intro notI) (simp add: lists_ok_def)
    have "placed (insert q X) f' r" for r
      using pl [of r] pl [of q] Cons q res'(2) by (auto simp: placed_def)
    moreover have "lists_ok f'" "counts_ok c f'" "stacks_ok f'"
      using ls ct st Cons res'(2) by (auto simp: lists_ok_def counts_ok_def stacks_ok_def)
    ultimately show ?thesis using q q0 res'(1) by (simp add: frame_core_def)
  next
    case Nil
    show ?thesis
    proof (cases "fr_total_num f \<ge> fr_max_num f \<or> a = NULL \<or>
        \<not> fst (Initial cl mm (MicroThread_init (default_stack_size c) NORMAL))")
      case True
      then have "p = NULL \<and> f' = f" using res Nil e by (auto simp: AllocThread_def split: prod.splits bool.splits if_splits)
      then show ?thesis by simp
    next
      case False
      obtain t where t: "Initial cl mm (MicroThread_init (default_stack_size c) NORMAL) = (True, t)"
        using False by (metis prod.collapse)
      then have fl: "\<not> HasFlag g t" "th_stack t \<noteq> None" for g
        by (auto simp: Initial_def InitStack_def Let_def MicroThread_init_def HasFlag_def split: if_splits option.splits)
      have res': "p = a" "f' = f\<lparr>fr_threads := (fr_threads f)(a := t), fr_live := a # fr_live f,
           fr_total_num := fr_total_num f + 1, fr_use_num := fr_use_num f + 1\<rparr>"
        using res Nil e t False by (auto simp: AllocThread_def)
      have a: "a \<notin> set (fr_live f)" "a \<noteq> NULL" using fresh e False by auto
      have "placed (insert a X) f' r" for r
        using pl [of r] pl [of a] a fl res'(2) by (auto simp: placed_def)
      moreover have "lists_ok f'" "counts_ok c f'" "stacks_ok f'"
        using ls ct st a fl Nil False res'(2) by (auto simp: lists_ok_def counts_ok_def stacks_ok_def)
      moreover have "a \<notin> X" using pl [of a] a by (auto simp: placed_def)
      ultimately show ?thesis using a res'(1) by (simp add: frame_core_def)
    qed
  qed
  then show "p = NULL \<Longrightarrow> f' = f" "p \<noteq> NULL \<Longrightarrow> p \<notin> X" "p \<noteq> NULL \<Longrightarrow> frame_core c (insert p X) f'" by blast+
qed

lemma ThreadSchdule_core:
  assumes core: "frame_core c {fr_daemon f} f"
  obtains f' where "ThreadSchdule f = Some f'" "frame_core c {fr_curr_thread f', fr_daemon f'} f'" "fr_daemon f' = fr_daemon f"
proof (cases "fr_runlist f")
  case Nil
  let ?f' = "upd (fr_daemon f) (SetState RUNNING) (f\<lparr>fr_curr_thread := fr_daemon f\<rparr>)"
  have "frame_core c {fr_daemon f} ?f'" by (rule core_upd) (use core in simp_all)
  moreover have "ThreadSchdule f = Some ?f'" using Nil by (simp add: ThreadSchdule_def)
  ultimately show thesis by (intro that [of ?f']) simp_all
next
  case (Cons p ps)
  obtain f1 where f1: "RemoveRunable p f = Some f1" "frame_core c {p, fr_daemon f} f1"
    using RemoveRunable_core [OF core Cons] by metis
  have d: "fr_daemon f1 = fr_daemon f" using f1(1) Cons by (auto simp: RemoveRunable_def)
  let ?f' = "upd p (SetState RUNNING) (f1\<lparr>fr_curr_thread := p\<rparr>)"
  have "frame_core c {p, fr_daemon f} ?f'" by (rule core_upd) (use f1 in simp_all)
  moreover have "ThreadSchdule f = Some ?f'" using Cons f1 by (simp add: ThreadSchdule_def)
  ultimately show thesis using d by (intro that [of ?f']) simp_all
qed

section \<open>Parents and sub-threads\<close>

text \<open>
  A thread that waits for sub-threads is on the pending list and its sub-threads, and only they,
  point to it. \<open>Y\<close> are sub-threads that are created and not yet started, \<open>Z\<close> the parent that
  has not begun to wait.
\<close>

definition family :: "ptr set \<Rightarrow> ptr set \<Rightarrow> 'k mt_frame \<Rightarrow> ptr \<Rightarrow> bool" where
  "family Y Z f p \<longleftrightarrow>
     (th_type (fr_threads f p) = SUB_THREAD \<and> p \<notin> set (fr_freelist f) \<and> p \<notin> Y \<longrightarrow>
        flag_of f SUB_LIST p \<and> p \<in> set (th_sub_list (fr_threads f (th_parent (fr_threads f p)))) \<and>
        (th_parent (fr_threads f p) \<in> set (fr_pend_list f) \<or> th_parent (fr_threads f p) \<in> Z)) \<and>
     (p \<in> set (fr_freelist f) \<or> p \<in> Y \<longrightarrow> \<not> flag_of f SUB_LIST p) \<and>
     (p \<in> set (fr_freelist f) \<longrightarrow> th_type (fr_threads f p) = NORMAL) \<and>
     (p \<in> Y \<longrightarrow> th_type (fr_threads f p) = SUB_THREAD \<and> p \<notin> set (fr_freelist f)) \<and>
     distinct (th_sub_list (fr_threads f p)) \<and>
     (\<forall>q \<in> set (th_sub_list (fr_threads f p)). q \<in> set (fr_live f) \<and> q \<notin> set (fr_freelist f) \<and> q \<notin> Y \<and>
        th_parent (fr_threads f q) = p \<and> th_type (fr_threads f q) = SUB_THREAD) \<and>
     (th_sub_list (fr_threads f p) \<noteq> [] \<longrightarrow> p \<in> set (fr_pend_list f) \<or> p \<in> Z) \<and>
     (p \<in> set (fr_pend_list f) \<longrightarrow> th_sub_list (fr_threads f p) \<noteq> [])"

definition families :: "ptr set \<Rightarrow> ptr set \<Rightarrow> 'k mt_frame \<Rightarrow> bool" where
  "families Y Z f \<longleftrightarrow> (\<forall>p \<in> set (fr_live f). family Y Z f p)"

text \<open>Most operations change nothing of this.\<close>

definition same_family :: "'k mt_frame \<Rightarrow> 'k mt_frame \<Rightarrow> bool" where
  "same_family f g \<longleftrightarrow> set (fr_live g) = set (fr_live f) \<and> set (fr_freelist g) = set (fr_freelist f) \<and>
     set (fr_pend_list g) = set (fr_pend_list f) \<and>
     (\<forall>p. th_type (fr_threads g p) = th_type (fr_threads f p) \<and> flag_of g SUB_LIST p = flag_of f SUB_LIST p \<and>
        th_parent (fr_threads g p) = th_parent (fr_threads f p) \<and> th_sub_list (fr_threads g p) = th_sub_list (fr_threads f p))"

lemma same_family_families:
  assumes "same_family f g" "families Y Z f"
  shows "families Y Z g"
  using assms by (simp add: same_family_def families_def family_def)

lemma same_family_refl [simp]: "same_family f f"
  by (simp add: same_family_def)

lemma same_family_trans: "same_family f g \<Longrightarrow> same_family g h \<Longrightarrow> same_family f h"
  by (simp add: same_family_def)

lemma same_family_upd:
  assumes "th_type (h (fr_threads f p)) = th_type (fr_threads f p)"
    "HasFlag SUB_LIST (h (fr_threads f p)) = HasFlag SUB_LIST (fr_threads f p)"
    "th_parent (h (fr_threads f p)) = th_parent (fr_threads f p)" "th_sub_list (h (fr_threads f p)) = th_sub_list (fr_threads f p)"
  shows "same_family f (upd p h f)"
  using assms by (simp add: same_family_def)

lemma same_family_lists [simp]:
  "same_family f (InsertSleep p f)" "same_family f (RemoveSleep p f)" "same_family f (InsertRunable p f)"
  "InsertIoWait p f = Some g \<Longrightarrow> same_family f g" "RemoveIoWait p f = Some g \<Longrightarrow> same_family f g"
  "RemoveRunable p f = Some g \<Longrightarrow> same_family f g" "ThreadSchdule f = Some g \<Longrightarrow> same_family f g"
  by (auto simp: same_family_def InsertSleep_def RemoveSleep_def InsertRunable_def InsertIoWait_def RemoveIoWait_def
      RemoveRunable_def ThreadSchdule_def Let_def split: if_splits list.splits)

lemma same_family_other [simp]:
  "same_family f (g\<lparr>fr_ep := a\<rparr>) = same_family f g" "same_family f (g\<lparr>fr_last_clock := w\<rparr>) = same_family f g"
  "same_family f (g\<lparr>fr_timer := tm\<rparr>) = same_family f g" "same_family f (g\<lparr>fr_check_time := w\<rparr>) = same_family f g"
  by (simp_all add: same_family_def)

text \<open>The operations that do.\<close>

lemma families_InsertPend:
  assumes fam: "families Y {p} f" and p: "p \<in> set (fr_live f)" "th_sub_list (fr_threads f p) \<noteq> []"
    and res: "InsertPend p f = Some g"
  shows "families Y {} g"
proof -
  have g: "g = (upd p (\<lambda>t. SetState PENDING (SetFlag PEND_LIST t)) f)\<lparr>fr_pend_list := fr_pend_list f @ [p]\<rparr>"
    using res by (simp add: InsertPend_def split: if_splits)
  have v: "set (fr_live g) = set (fr_live f)" "set (fr_freelist g) = set (fr_freelist f)"
    "set (fr_pend_list g) = insert p (set (fr_pend_list f))" "th_type (fr_threads g q) = th_type (fr_threads f q)"
    "flag_of g SUB_LIST q = flag_of f SUB_LIST q" "th_parent (fr_threads g q) = th_parent (fr_threads f q)"
    "th_sub_list (fr_threads g q) = th_sub_list (fr_threads f q)" for q
    unfolding g by simp_all
  have "family Y {} g q" if "family Y {p} f q" for q
    using that p(2) unfolding family_def v by (elim conjE) (intro conjI; blast)
  then show ?thesis using fam by (simp add: families_def v)
qed

lemma families_RemovePend:
  assumes fam: "families Y Z f" and kids: "th_sub_list (fr_threads f p) = []" and dist: "distinct (fr_pend_list f)"
    and res: "RemovePend p f = Some g"
  shows "families Y Z g"
proof -
  have g: "g = (upd p (UnsetFlag PEND_LIST) f)\<lparr>fr_pend_list := remove1 p (fr_pend_list f)\<rparr>"
    using res by (simp add: RemovePend_def split: if_splits)
  have v: "set (fr_live g) = set (fr_live f)" "set (fr_freelist g) = set (fr_freelist f)"
    "set (fr_pend_list g) = set (fr_pend_list f) - {p}" "th_type (fr_threads g q) = th_type (fr_threads f q)"
    "flag_of g SUB_LIST q = flag_of f SUB_LIST q" "th_parent (fr_threads g q) = th_parent (fr_threads f q)"
    "th_sub_list (fr_threads g q) = th_sub_list (fr_threads f q)" for q
    using dist unfolding g by simp_all
  have "family Y Z g q" if q: "family Y Z f q" for q
  proof -
    have "th_parent (fr_threads f q) \<noteq> p" if "q \<in> set (th_sub_list (fr_threads f (th_parent (fr_threads f q))))"
      using that kids by auto
    moreover have "q \<noteq> p" if "th_sub_list (fr_threads f q) \<noteq> []" using that kids by auto
    ultimately show ?thesis using q unfolding family_def v by (elim conjE) (intro conjI; blast)
  qed
  then show ?thesis using fam by (simp add: families_def v)
qed

lemma families_FreeThread:
  assumes fam: "families Y Z f" and p: "th_type (fr_threads f p) \<noteq> SUB_THREAD \<or> p \<in> Y" "p \<notin> set (fr_pend_list f)" "p \<notin> Z"
    and ls: "distinct (fr_live f)" "distinct (fr_freelist f)" "p \<notin> set (fr_freelist f)" "set (fr_freelist f) \<subseteq> set (fr_live f)"
    and res: "FreeThread c p f = Some g"
  shows "families (Y - {p}) Z g"
proof -
  from res obtain t where t: "Reset (fr_threads f p) = Some t" by (auto simp: FreeThread_def split: bind_splits)
  then have t': "th_type t = NORMAL" "th_parent t = NULL" "th_sub_list t = []" "\<not> HasFlag SUB_LIST t"
    by (auto simp: Reset_def SetPrivate_def CleanState_def HasFlag_def split: option.splits)
  obtain D where D: "D \<subseteq> set (fr_freelist f)" "set (fr_freelist g) = insert p (set (fr_freelist f) - D)"
    "set (fr_live g) = set (fr_live f) - D" "set (fr_pend_list g) = set (fr_pend_list f)"
    and th: "\<And>q. q \<noteq> p \<Longrightarrow> fr_threads g q = fr_threads f q \<or> fr_threads g q = Thread_Destroy (fr_threads f q)"
    "fr_threads g p = SetFlag FREE_LIST t"
  proof (cases "length (fr_freelist f @ [p]) > default_thread_num c \<and> length (fr_freelist f @ [p]) > 1")
    case False
    then have "g = f\<lparr>fr_threads := (fr_threads f)(p := SetFlag FREE_LIST t), fr_use_num := fr_use_num f - 1,
                fr_freelist := fr_freelist f @ [p]\<rparr>"
      using res t by (auto simp: FreeThread_def Let_def)
    then show thesis by (intro that [of "{}"]) auto
  next
    case True
    then obtain old qs where old: "fr_freelist f = old # qs" by (cases "fr_freelist f") auto
    then have "g = (upd old Thread_Destroy (f\<lparr>fr_threads := (fr_threads f)(p := SetFlag FREE_LIST t), fr_use_num := fr_use_num f - 1,
                fr_freelist := fr_freelist f @ [p]\<rparr>))\<lparr>fr_freelist := qs @ [p], fr_live := remove1 old (fr_live f),
               fr_total_num := fr_total_num f - 1\<rparr>"
      using res t True by (simp add: FreeThread_def Let_def)
    then show thesis using old ls by (intro that [of "{old}"]) auto
  qed
  have v: "th_type (fr_threads g q) = (if q = p then NORMAL else th_type (fr_threads f q))"
    "flag_of g SUB_LIST q = (q \<noteq> p \<and> flag_of f SUB_LIST q)"
    "th_parent (fr_threads g q) = (if q = p then NULL else th_parent (fr_threads f q))"
    "th_sub_list (fr_threads g q) = (if q = p then [] else th_sub_list (fr_threads f q))" for q
    using th(1) [of q] th(2) t'
    by (cases "q = p"; auto; fail)+
  have "family (Y - {p}) Z g q" if q: "q \<in> set (fr_live g)" for q
  proof -
    have fq: "family Y Z f q" "q \<notin> D" using fam q D(3) by (simp_all add: families_def)
    show ?thesis
    proof (cases "q = p")
      case True
      then show ?thesis using p(2) by (simp add: family_def v D)
    next
      case False
      have "p \<notin> set (th_sub_list (fr_threads f q))" using fq(1) p(1) unfolding family_def by blast
      moreover have "th_parent (fr_threads f q) \<noteq> p" if "th_parent (fr_threads f q) \<in> set (fr_pend_list f) \<or> th_parent (fr_threads f q) \<in> Z"
        using that p(2,3) by auto
      ultimately show ?thesis
        using fq(1,2) False D(1) unfolding family_def v D(2-4) by (elim conjE) (intro conjI; simp; blast)
    qed
  qed
  then show ?thesis by (simp add: families_def)
qed

lemma families_AllocThread:
  assumes fam: "families Y Z f" and out: "p \<notin> set (fr_pend_list f)" "p \<notin> Z" "p \<notin> Y" "p \<noteq> NULL"
    and fresh: "fst e \<notin> set (fr_live f)" and free: "distinct (fr_freelist f)" "set (fr_freelist f) \<subseteq> set (fr_live f)"
    and res: "AllocThread c e f = (p, g)"
  shows "families Y Z g" "th_type (fr_threads g p) = NORMAL" "th_sub_list (fr_threads g p) = []" "\<not> flag_of g SUB_LIST p"
    "p \<notin> set (fr_freelist g)" "p \<in> set (fr_live g)" "fr_pend_list g = fr_pend_list f"
    "set (fr_live g) = insert p (set (fr_live f))"
proof -
  obtain a cl mm where e: "e = (a, cl, mm)" by (cases e)
  have kid: "p \<notin> set (th_sub_list (fr_threads f q))" if "q \<in> set (fr_live f)" "p \<in> set (fr_freelist f) \<or> p \<notin> set (fr_live f)" for q
    using fam that unfolding families_def family_def by blast
  have all: "set (fr_live g) = insert p (set (fr_live f)) \<and> set (fr_freelist g) = set (fr_freelist f) - {p} \<and>
     fr_pend_list g = fr_pend_list f \<and> (p \<in> set (fr_freelist f) \<or> p \<notin> set (fr_live f)) \<and>
     (\<forall>q. q \<noteq> p \<longrightarrow> fr_threads g q = fr_threads f q) \<and> th_type (fr_threads g p) = NORMAL \<and>
     th_sub_list (fr_threads g p) = [] \<and> \<not> flag_of g SUB_LIST p"
  proof (cases "fr_freelist f")
    case (Cons q qs)
    then have res': "p = q" "g = (upd q (UnsetFlag FREE_LIST) f)\<lparr>fr_freelist := qs, fr_use_num := fr_use_num f + 1\<rparr>"
      using res by (auto simp: AllocThread_def)
    have q: "p \<in> set (fr_freelist f)" "p \<in> set (fr_live f)" using Cons res'(1) free(2) by auto
    then have "family Y Z f p" using fam by (simp add: families_def)
    then have "th_type (fr_threads f p) = NORMAL" "\<not> flag_of f SUB_LIST p" "th_sub_list (fr_threads f p) = []"
      using q(1) out(1,2) unfolding family_def by blast+
    then show ?thesis using q free(1) Cons res' by auto
  next
    case Nil
    obtain t where t: "Initial cl mm (MicroThread_init (default_stack_size c) NORMAL) = (True, t)" and "p = a"
      and g: "g = f\<lparr>fr_threads := (fr_threads f)(a := t), fr_live := a # fr_live f,
           fr_total_num := fr_total_num f + 1, fr_use_num := fr_use_num f + 1\<rparr>"
      using res Nil e out(4) by (auto simp: AllocThread_def split: if_splits prod.splits bool.splits)
    moreover have "th_type t = NORMAL" "th_sub_list t = []" "\<not> HasFlag SUB_LIST t"
      using t by (auto simp: Initial_def InitStack_def Let_def MicroThread_init_def HasFlag_def split: if_splits option.splits)
    ultimately show ?thesis using fresh e Nil by simp
  qed
  note v = all [THEN conjunct1] all [THEN conjunct2, THEN conjunct1] all [THEN conjunct2, THEN conjunct2, THEN conjunct1]
  have same: "fr_threads g q = fr_threads f q" if "q \<noteq> p" for q using all that by blast
  have new: "th_type (fr_threads g p) = NORMAL" "th_sub_list (fr_threads g p) = []" "\<not> flag_of g SUB_LIST p"
    using all by blast+
  have "family Y Z g q" if q: "q \<in> set (fr_live g)" for q
  proof (cases "q = p")
    case True
    then show ?thesis using new out v by (simp add: family_def)
  next
    case False
    then have ql: "q \<in> set (fr_live f)" using q v(1) by simp
    then have fq: "family Y Z f q" using fam by (simp add: families_def)
    have "th_parent (fr_threads f q) \<noteq> p" if "th_parent (fr_threads f q) \<in> set (fr_pend_list f) \<or> th_parent (fr_threads f q) \<in> Z"
      using that out(1,2) by auto
    moreover have kp: "p \<notin> set (th_sub_list (fr_threads f q))" by (rule kid [OF ql]) (use all in blast)
    moreover have "fr_threads g r = fr_threads f r" if "r \<in> set (th_sub_list (fr_threads f q))" for r
      using that kp same [of r] by auto
    ultimately show ?thesis
      using fq False same [of q] same [of "th_parent (fr_threads f q)"] unfolding family_def v
      by (elim conjE) (intro conjI; simp; blast)
  qed
  then show "families Y Z g" by (simp add: families_def)
  show "th_type (fr_threads g p) = NORMAL" "th_sub_list (fr_threads g p) = []" "\<not> flag_of g SUB_LIST p"
    "p \<notin> set (fr_freelist g)" "p \<in> set (fr_live g)" "fr_pend_list g = fr_pend_list f"
    "set (fr_live g) = insert p (set (fr_live f))"
    using all by auto
qed

lemma families_SetType:
  assumes fam: "families Y Z f" and p: "th_type (fr_threads f p) = NORMAL" "\<not> flag_of f SUB_LIST p" "p \<notin> set (fr_freelist f)"
  shows "families (insert p Y) Z (upd p (SetType SUB_THREAD) f)"
proof -
  let ?g = "upd p (SetType SUB_THREAD) f"
  have v: "set (fr_live ?g) = set (fr_live f)" "set (fr_freelist ?g) = set (fr_freelist f)"
    "set (fr_pend_list ?g) = set (fr_pend_list f)" "th_type (fr_threads ?g q) = (if q = p then SUB_THREAD else th_type (fr_threads f q))"
    "flag_of ?g SUB_LIST q = flag_of f SUB_LIST q" "th_parent (fr_threads ?g q) = th_parent (fr_threads f q)"
    "th_sub_list (fr_threads ?g q) = th_sub_list (fr_threads f q)" for q
    by simp_all
  have "family (insert p Y) Z ?g q" if q: "family Y Z f q" for q
  proof -
    have "p \<notin> set (th_sub_list (fr_threads f q))" using q p(1) unfolding family_def by force
    with q p show ?thesis unfolding family_def v by (elim conjE) (intro conjI; simp; blast)
  qed
  then show ?thesis using fam by (simp add: families_def)
qed

lemma families_AddSubThread:
  assumes fam: "families Y Z f" and me: "this \<in> Z" "this \<in> set (fr_live f)"
    and sub: "sub \<in> Y" "sub \<in> set (fr_live f)" "sub \<noteq> this"
  shows "families (Y - {sub}) Z (AddSubThread this sub f)" "th_sub_list (fr_threads (AddSubThread this sub f) this) \<noteq> []"
proof -
  let ?g = "AddSubThread this sub f"
  have fs: "family Y Z f sub" and ft: "family Y Z f this" using fam sub me by (simp_all add: families_def)
  have ns: "\<not> flag_of f SUB_LIST sub" using fs sub(1) by (simp add: family_def)
  have v: "set (fr_live ?g) = set (fr_live f)" "set (fr_freelist ?g) = set (fr_freelist f)"
    "set (fr_pend_list ?g) = set (fr_pend_list f)" "th_type (fr_threads ?g q) = th_type (fr_threads f q)"
    "flag_of ?g SUB_LIST q = (q = sub \<or> flag_of f SUB_LIST q)"
    "th_parent (fr_threads ?g q) = (if q = sub then this else th_parent (fr_threads f q))"
    "th_sub_list (fr_threads ?g q) = (if q = this then th_sub_list (fr_threads f this) @ [sub] else th_sub_list (fr_threads f q))" for q
    using ns sub(3) by (simp_all add: AddSubThread_def Let_def)
  have subt: "th_type (fr_threads f sub) = SUB_THREAD" "sub \<notin> set (fr_freelist f)" using fs sub(1) unfolding family_def by blast+
  have "family (Y - {sub}) Z ?g q" if "q \<in> set (fr_live f)" for q
  proof -
    have fq: "family Y Z f q" using fam that by (simp add: families_def)
    have sq: "sub \<notin> set (th_sub_list (fr_threads f q))" using fq sub(1) unfolding family_def by blast
    show ?thesis
    proof (cases "q = this")
      case True
      then show ?thesis
        using ft sq sub me subt unfolding family_def v by (elim conjE) (intro conjI; auto)
    next
      case False
      then show ?thesis
        using fq sq sub me subt unfolding family_def v by (elim conjE) (intro conjI; simp; blast)
    qed
  qed
  then show "families (Y - {sub}) Z ?g" by (simp add: families_def v)
  show "th_sub_list (fr_threads ?g this) \<noteq> []" by (simp add: v)
qed

lemma AddSubThread_core:
  assumes "frame_core c X f"
  shows "frame_core c X (AddSubThread this sub f)"
proof -
  have 1: "frame_core c X (upd sub (SetFlag SUB_LIST) g)" if "frame_core c X g" for g
    by (rule core_upd [OF that]) auto
  have 2: "frame_core c X (upd q (\<lambda>t. t\<lparr>th_parent := r\<rparr>) g)" if "frame_core c X g" for g q r
    by (rule core_upd [OF that]) auto
  have 3: "frame_core c X (upd q (\<lambda>t. t\<lparr>th_sub_list := h t\<rparr>) g)" if "frame_core c X g" for g q h
    by (rule core_upd [OF that]) auto
  show ?thesis unfolding AddSubThread_def Let_def by (cases "flag_of f SUB_LIST sub") (simp_all add: assms 1 2 3)
qed

text \<open>
  The end of a sub-thread: its parent forgets it and, when it was the last one, becomes runnable.
\<close>

lemma WakeupParent_core:
  assumes core: "frame_core c X f" and fam: "families Y Z f"
    and me: "this \<in> set (fr_live f)" "IsSubThread (fr_threads f this)" "this \<notin> set (fr_freelist f)" "this \<notin> Y"
    and Z: "Z = {}"
  obtains g where "WakeupParent this f = Some g" "frame_core c X g" "families (insert this Y) Z g"
    "fr_daemon g = fr_daemon f" "fr_primo g = fr_primo f" "fr_curr_thread g = fr_curr_thread f"
proof -
  define q0 where "q0 = th_parent (fr_threads f this)"
  have ft: "family Y Z f this" using fam me(1) by (simp add: families_def)
  then have sub: "flag_of f SUB_LIST this" "this \<in> set (th_sub_list (fr_threads f q0))" "q0 \<in> set (fr_pend_list f)"
    using me(2-4) Z unfolding family_def IsSubThread_def q0_def by blast+
  have q0: "q0 \<in> set (fr_live f)" using frame_coreD(1) [OF core, of q0] sub(3) by (simp add: placed_def)
  then have q0n: "q0 \<noteq> NULL" using frame_coreD(2) [OF core] by (intro notI) (simp add: lists_ok_def)
  have fq0: "family Y Z f q0" using fam q0 by (simp add: families_def)
  define g1 where "g1 = upd this (UnsetFlag SUB_LIST) (upd this (\<lambda>t. t\<lparr>th_parent := NULL\<rparr>)
     (upd q0 (\<lambda>t. t\<lparr>th_sub_list := remove1 this (th_sub_list t)\<rparr>) f))"
  have rem: "RemoveSubThread q0 this f = Some g1" using sub by (simp add: RemoveSubThread_def g1_def)
  have core1: "frame_core c X g1"
    unfolding g1_def by (intro core_upd) (use core in auto)
  have pend1: "fr_pend_list g1 = fr_pend_list f" by (simp add: g1_def)
  have d: "distinct (fr_pend_list f)" using core by (simp add: frame_core_def lists_ok_def)
  obtain g where g: "WakeupParent this f = Some g" "frame_core c X g"
    and gv: "fr_live g = fr_live f" "fr_freelist g = fr_freelist f"
      "set (fr_pend_list g) = (if th_sub_list (fr_threads g1 q0) = [] then set (fr_pend_list f) - {q0} else set (fr_pend_list f))"
      "\<And>q. th_type (fr_threads g q) = th_type (fr_threads g1 q) \<and> flag_of g SUB_LIST q = flag_of g1 SUB_LIST q \<and>
         th_parent (fr_threads g q) = th_parent (fr_threads g1 q) \<and> th_sub_list (fr_threads g q) = th_sub_list (fr_threads g1 q)"
      "fr_daemon g = fr_daemon f" "fr_primo g = fr_primo f" "fr_curr_thread g = fr_curr_thread f"
  proof (cases "th_sub_list (fr_threads g1 q0) = []")
    case False
    then have "WakeupParent this f = Some g1"
      using rem q0n by (simp add: WakeupParent_def q0_def [symmetric] HasNoSubThread_def)
    then show thesis using core1 False by (intro that [of g1]) (simp_all add: g1_def)
  next
    case True
    obtain g2 where g2: "RemovePend q0 g1 = Some g2" "frame_core c (insert q0 X) g2"
      using RemovePend_core [OF core1] sub(3) pend1 by metis
    have eq: "g2 = (upd q0 (UnsetFlag PEND_LIST) g1)\<lparr>fr_pend_list := remove1 q0 (fr_pend_list g1)\<rparr>"
      using g2(1) by (simp add: RemovePend_def split: if_splits)
    have w: "WakeupParent this f = Some (InsertRunable q0 g2)"
      using rem q0n True g2(1) by (simp add: WakeupParent_def q0_def [symmetric] HasNoSubThread_def ScheduleUnpend_def)
    have "q0 \<notin> X" using frame_coreD(1) [OF core, of q0] sub(3) by (auto simp: placed_def)
    then have "frame_core c X (InsertRunable q0 g2)"
      using InsertRunable_core [OF g2(2), of q0] by simp
    then show thesis
      by (intro that [OF w]) (use True d in \<open>auto simp: eq InsertRunable_def g1_def\<close>)
  qed
  have v: "th_type (fr_threads g q) = th_type (fr_threads f q)" "flag_of g SUB_LIST q = (q \<noteq> this \<and> flag_of f SUB_LIST q)"
    "th_parent (fr_threads g q) = (if q = this then NULL else th_parent (fr_threads f q))"
    "th_sub_list (fr_threads g q) = (if q = q0 then remove1 this (th_sub_list (fr_threads f q0)) else th_sub_list (fr_threads f q))" for q
    using gv(4) [of q] by (auto simp: g1_def)
  have kids: "th_sub_list (fr_threads g1 q0) = remove1 this (th_sub_list (fr_threads f q0))" by (simp add: g1_def)
  have dq: "set (remove1 this (th_sub_list (fr_threads f q0))) = set (th_sub_list (fr_threads f q0)) - {this}"
    "distinct (remove1 this (th_sub_list (fr_threads f q0)))"
    using fq0 unfolding family_def by simp_all
  have "family (insert this Y) Z g q" if "q \<in> set (fr_live f)" for q
  proof -
    have fq: "family Y Z f q" using fam that by (simp add: families_def)
    have notkid: "this \<notin> set (th_sub_list (fr_threads f q))" if "q \<noteq> q0"
      using fq that by (auto simp: family_def q0_def)
    have par: "q \<noteq> this \<and> q \<in> set (th_sub_list (fr_threads f q0)) \<longrightarrow> remove1 this (th_sub_list (fr_threads f q0)) \<noteq> []"
      using dq(1) by (metis DiffI empty_iff empty_set singletonD)
    show ?thesis
    proof (cases "q = q0")
      case True
      then show ?thesis
        using fq sub me dq par Z unfolding family_def v gv(1,2) gv(3) [unfolded kids] IsSubThread_def
        by (elim conjE) (intro conjI; auto)
    next
      case False
      show ?thesis
        using fq notkid [OF False] False sub me dq(1) par Z unfolding family_def v gv(1,2) gv(3) [unfolded kids] IsSubThread_def
        by (elim conjE) (intro conjI; auto)
    qed
  qed
  then have "families (insert this Y) Z g" by (simp add: families_def gv(1))
  with g gv show thesis by (intro that [of g])
qed

end
