(* ===== verification/Mt_Sched.thy ===== *)
theory Mt_Sched
  imports Mt_Lists
begin

text \<open>
  The scheduler as a whole: the calls a thread can make and the turns of the daemon keep the
  invariant of \<open>Mt_Lists\<close> and never reach undefined behaviour; threads that are due are woken and
  threads that can run do run.
\<close>

unbundle bit_operations_syntax

section \<open>The calls of a thread\<close>

definition frame_inv :: "pool_conf \<Rightarrow> 'k mt_frame \<Rightarrow> bool" where
  "frame_inv c f \<longleftrightarrow> frame_core c {fr_curr_thread f, fr_daemon f} f \<and> families {} {} f"

definition same_ids :: "'k mt_frame \<Rightarrow> 'k mt_frame \<Rightarrow> bool" where
  "same_ids f g \<longleftrightarrow> fr_daemon g = fr_daemon f \<and> fr_primo g = fr_primo f \<and> fr_curr_thread g = fr_curr_thread f"

lemma same_ids_trans: "same_ids f g \<Longrightarrow> same_ids g h \<Longrightarrow> same_ids f h"
  by (simp add: same_ids_def)

lemma same_ids_ops [simp]:
  "same_ids f f" "same_ids f (upd p h g) = same_ids f g" "same_ids f (InsertSleep p g) = same_ids f g"
  "same_ids f (RemoveSleep p g) = same_ids f g" "same_ids f (InsertRunable p g) = same_ids f g"
  "same_ids f (AddSubThread t s g) = same_ids f g"
  by (simp_all add: same_ids_def InsertSleep_def RemoveSleep_def InsertRunable_def AddSubThread_def Let_def)

lemma same_ids_partial:
  "InsertIoWait p g = Some g' \<Longrightarrow> same_ids f g' = same_ids f g" "RemoveIoWait p g = Some g' \<Longrightarrow> same_ids f g' = same_ids f g"
  "InsertPend p g = Some g' \<Longrightarrow> same_ids f g' = same_ids f g"
  by (simp_all add: same_ids_def InsertIoWait_def RemoveIoWait_def InsertPend_def InsertSleep_def RemoveSleep_def Let_def split: if_splits)
    (auto simp: same_ids_def)

lemma same_ids_FreeThread: "FreeThread c p g = Some g' \<Longrightarrow> same_ids f g' = same_ids f g"
  by (auto simp: same_ids_def FreeThread_def Let_def split: if_splits bind_splits)

lemma same_ids_AllocThread: "AllocThread c e g = (p, g') \<Longrightarrow> same_ids f g' = same_ids f g"
  by (auto simp: same_ids_def AllocThread_def split: if_splits list.splits prod.splits bool.splits)

lemma curr_live:
  assumes "frame_inv c f"
  shows "fr_curr_thread f \<in> set (fr_live f)" "fr_curr_thread f \<noteq> NULL" "fr_daemon f \<in> set (fr_live f)"
proof -
  have core: "frame_core c {fr_curr_thread f, fr_daemon f} f" using assms by (simp add: frame_inv_def)
  show "fr_curr_thread f \<in> set (fr_live f)" "fr_curr_thread f \<noteq> NULL" "fr_daemon f \<in> set (fr_live f)"
    using core_sleep_room(2,4) [OF core, of "fr_curr_thread f"] core_sleep_room(4) [OF core, of "fr_daemon f"] by simp_all
qed

text \<open>After the current thread was put on a list, the scheduler picks the next one.\<close>

lemma yield_inv:
  assumes "frame_core c {fr_daemon f} f" "families {} {} f"
  obtains g where "ThreadSchdule f = Some g" "frame_inv c g"
proof -
  obtain g where g: "ThreadSchdule f = Some g" "frame_core c {fr_curr_thread g, fr_daemon g} g"
    using ThreadSchdule_core [OF assms(1)] by metis
  then have "families {} {} g" using same_family_families [OF _ assms(2)] by simp
  with g show thesis by (intro that [of g]) (simp_all add: frame_inv_def)
qed

lemma core_wakeup_time: "frame_core c X f \<Longrightarrow> frame_core c X (upd p (SetWakeupTime w) f)"
  by (rule core_upd) auto

lemma families_wakeup_time: "families Y Z f \<Longrightarrow> families Y Z (upd p (SetWakeupTime w) f)"
  by (rule same_family_families [OF same_family_upd]) auto

lemma MtFrame_sleep_inv:
  assumes "frame_inv c f" "fr_curr_thread f \<noteq> fr_daemon f"
  obtains g where "MtFrame_sleep now ms f = Some g" "frame_inv c g"
proof -
  let ?p = "fr_curr_thread f"
  let ?f1 = "upd ?p (SetWakeupTime (now + word_of_int ms)) f"
  have core: "frame_core c {?p, fr_daemon f} ?f1" and fam: "families {} {} ?f1"
    using assms(1) core_wakeup_time families_wakeup_time by (auto simp: frame_inv_def)
  have "same_ids f (InsertSleep ?p ?f1)" by simp
  then have "fr_daemon (InsertSleep ?p ?f1) = fr_daemon f" by (simp only: same_ids_def)
  then have "frame_core c {fr_daemon (InsertSleep ?p ?f1)} (InsertSleep ?p ?f1)"
    using InsertSleep_core [OF core, of ?p] assms(2) by (simp add: insert_Diff_if)
  moreover have "families {} {} (InsertSleep ?p ?f1)" by (rule same_family_families [OF _ fam]) simp
  ultimately obtain g where "ThreadSchdule (InsertSleep ?p ?f1) = Some g" "frame_inv c g"
    by (rule yield_inv) (rule that)
  then show thesis
    using curr_live(2) [OF assms(1)] by (intro that) (simp_all add: MtFrame_sleep_def Thread_sleep_def ScheduleSleep_def)
qed

lemma io_wait_inv:
  assumes core: "frame_core c {fr_curr_thread f, fr_daemon f} f" and fam: "families {} {} f" and "fr_curr_thread f \<noteq> fr_daemon f"
  obtains g h where "InsertIoWait (fr_curr_thread f) f = Some g" "ThreadSchdule g = Some h" "frame_inv c h"
proof -
  obtain g where g: "InsertIoWait (fr_curr_thread f) f = Some g" "frame_core c ({fr_curr_thread f, fr_daemon f} - {fr_curr_thread f}) g"
    using InsertIoWait_core [OF core, of "fr_curr_thread f"] by auto
  have "same_ids f g" using same_ids_partial(1) [OF g(1)] by simp
  moreover have "families {} {} g" by (rule same_family_families [OF _ fam]) (use g(1) in simp)
  ultimately obtain h where "ThreadSchdule g = Some h" "frame_inv c h"
    using yield_inv [of c g] g(2) assms(3) by (auto simp: same_ids_def insert_Diff_if)
  with g(1) show thesis by (intro that)
qed

lemma WaitNotify_inv:
  assumes "frame_inv c f" "fr_curr_thread f \<noteq> fr_daemon f"
  obtains g where "WaitNotify now timeout f = Some g" "frame_inv c g"
proof -
  let ?f1 = "upd (fr_curr_thread f) (SetWakeupTime (timeout + now)) f"
  have "frame_core c {fr_curr_thread f, fr_daemon f} ?f1" "families {} {} ?f1"
    using assms(1) core_wakeup_time families_wakeup_time by (auto simp: frame_inv_def)
  then obtain g h where "InsertIoWait (fr_curr_thread f) ?f1 = Some g" "ThreadSchdule g = Some h" "frame_inv c h"
    using io_wait_inv [of c ?f1] assms(2) by auto
  then show thesis by (intro that [of h]) (simp_all add: WaitNotify_def)
qed

lemma EpollSchedule_enter_inv:
  assumes "frame_inv c f" "fr_curr_thread f \<noteq> fr_daemon f"
  obtains r g where "EpollSchedule_enter ctl now fdlist fd timeout f = Some (r, g)" "frame_inv c g"
proof -
  let ?p = "fr_curr_thread f"
  let ?P = "\<lambda>g. frame_core c {?p, fr_daemon f} g \<and> families {} {} g \<and> same_ids f g"
  have step: "?P (upd ?p h g)" if "?P g" "h \<in> {ClearAllFd, AddFd fd, SetWakeupTime (word_of_int timeout + now)} \<union> range AddFdList" for g h
  proof (intro conjI)
    show "frame_core c {?p, fr_daemon f} (upd ?p h g)" by (rule core_upd) (use that in auto)
    show "families {} {} (upd ?p h g)" by (rule same_family_families [OF same_family_upd]) (use that in auto)
    show "same_ids f (upd ?p h g)" using that by simp
  qed
  have P: "?P f" using assms(1) by (simp add: frame_inv_def)
  define f1 where "f1 = epoll_prepare now fdlist fd timeout f"
  have "?P f1"
  proof -
    have P1: "?P (upd ?p ClearAllFd f)" by (rule step [OF P]) simp
    have P2: "?P (case fdlist of None \<Rightarrow> upd ?p ClearAllFd f | Some fds \<Rightarrow> upd ?p (AddFdList fds) (upd ?p ClearAllFd f))"
      using P1 step [OF P1] by (cases fdlist) (simp_all only: option.case, blast)
    show ?thesis
      unfolding f1_def epoll_prepare_def Let_def by (rule step) (use P2 step [OF P2, of "AddFd fd"] in \<open>simp_all only: split: if_split\<close>, auto)
  qed
  obtain ok ep where e: "EpollAdd ctl (th_fdset (fr_threads f1 ?p)) (fr_ep f1) = (ok, ep)" by (metis surj_pair)
  let ?f2 = "f1\<lparr>fr_ep := ep\<rparr>"
  have P2: "?P ?f2" using \<open>?P f1\<close> by (auto simp: same_ids_def intro: same_family_families [of f1])
  have eq: "EpollSchedule_enter ctl now fdlist fd timeout f = (if \<not> ok then Some (False, ?f2)
     else do { f3 \<leftarrow> InsertIoWait ?p ?f2; f4 \<leftarrow> ThreadSchdule f3; Some (True, f4) })"
    using curr_live(2) [OF assms(1)] e by (simp add: EpollSchedule_enter_def Let_def f1_def [symmetric])
  show thesis
  proof (cases ok)
    case False
    with eq P2 show thesis by (intro that [of False ?f2]) (simp_all add: frame_inv_def same_ids_def)
  next
    case True
    have ids: "fr_curr_thread ?f2 = ?p" "fr_daemon ?f2 = fr_daemon f" using P2 by (simp_all add: same_ids_def)
    obtain g h where "InsertIoWait ?p ?f2 = Some g" "ThreadSchdule g = Some h" "frame_inv c h"
      using io_wait_inv [of c ?f2] P2 assms(2) unfolding ids by blast
    with eq True show thesis by (intro that [of True h]) simp_all
  qed
qed

lemma EpollSchedule_leave_inv:
  "frame_inv c f \<Longrightarrow> frame_inv c (snd (EpollSchedule_leave ctl p f))"
  by (auto simp: frame_inv_def EpollSchedule_leave_def Let_def intro: same_family_families [of f])

section \<open>Creating and ending threads\<close>

lemma core_free_list:
  assumes "frame_core c X f"
  shows "distinct (fr_freelist f)" "set (fr_freelist f) \<subseteq> set (fr_live f)" "distinct (fr_live f)"
    "\<And>p. p \<in> X \<Longrightarrow> p \<notin> set (fr_freelist f) \<and> p \<notin> set (fr_pend_list f) \<and> p \<in> set (fr_live f)"
proof -
  show "distinct (fr_freelist f)" "distinct (fr_live f)" using assms by (simp_all add: frame_core_def lists_ok_def)
  have pl: "placed X f p" for p by (rule frame_coreD(1) [OF assms])
  show "set (fr_freelist f) \<subseteq> set (fr_live f)"
  proof
    fix p assume "p \<in> set (fr_freelist f)"
    with pl [of p] show "p \<in> set (fr_live f)" by (simp add: placed_def)
  qed
  show "p \<notin> set (fr_freelist f) \<and> p \<notin> set (fr_pend_list f) \<and> p \<in> set (fr_live f)" if "p \<in> X" for p
    using pl [of p] that by (auto simp: placed_def)
qed

text \<open>A thread just taken from the pool, in a frame with threads \<open>X\<close> outside the lists.\<close>

lemma CreateThread_core:
  assumes core: "frame_core c X f" and fam: "families Y Z f" and YZ: "Y \<subseteq> X" "Z \<subseteq> X"
    and fresh: "fst e \<notin> set (fr_live f)" and res: "CreateThread c e entry args False f = (p, g)" and p: "p \<noteq> NULL"
  shows "frame_core c (insert p X) g" "families Y Z g" "p \<notin> X" "th_type (fr_threads g p) = NORMAL" "\<not> flag_of g SUB_LIST p"
    "same_ids f g" "set (fr_live g) = insert p (set (fr_live f))" "p \<noteq> fr_primo f"
proof -
  obtain f1 where a: "AllocThread c e f = (p, f1)" and g: "g = upd p (SetSartFunc entry args) f1"
    using res p by (auto simp: CreateThread_def Let_def split: prod.splits if_splits)
  note core1 = AllocThread_core(2,3) [OF core fresh a p] and fl = core_free_list [OF core]
  have pend: "fr_pend_list f1 = fr_pend_list f" and free: "p \<in> set (fr_freelist f) \<or> p \<notin> set (fr_live f)"
    using a fresh p by (auto simp: AllocThread_def split: list.splits if_splits prod.splits bool.splits)
  have np: "p \<notin> set (fr_pend_list f)" using core_free_list(4) [OF core1(2), of p] pend by simp
  note fam1 = families_AllocThread [OF fam np _ _ p fresh fl(1,2) a]
  have YZ': "p \<notin> Z" "p \<notin> Y" using YZ core1(1) by auto
  show "p \<notin> X" by (rule core1(1))
  show "frame_core c (insert p X) g" unfolding g by (rule core_upd [OF core1(2)]) auto
  show "families Y Z g" unfolding g by (rule same_family_families [OF same_family_upd fam1(1)]) (use YZ' in auto)
  show "th_type (fr_threads g p) = NORMAL" "\<not> flag_of g SUB_LIST p" "set (fr_live g) = insert p (set (fr_live f))"
    using fam1(2,4,8) YZ' by (simp_all add: g)
  show "same_ids f g" using same_ids_AllocThread [OF a] by (simp add: g)
  show "p \<noteq> fr_primo f" using free frame_coreD(4) [OF core] by (auto simp: stacks_ok_def)
qed

lemma CreateThread_inv:
  assumes inv: "frame_inv c f" and fresh: "fst e \<notin> set (fr_live f)" and res: "CreateThread c e entry args True f = (p, g)"
  shows "frame_inv c g"
proof (cases "p = NULL")
  case True
  then have "AllocThread c e f = (NULL, g)"
    using res by (auto simp: CreateThread_def Let_def split: prod.splits if_splits)
  then show ?thesis using AllocThread_core(1) [OF _ fresh] inv by (auto simp: frame_inv_def)
next
  case False
  then obtain h where h: "CreateThread c e entry args False f = (p, h)" "g = InsertRunable p h"
    using res by (auto simp: CreateThread_def Let_def split: prod.splits if_splits)
  have core: "frame_core c {fr_curr_thread f, fr_daemon f} f" and fam: "families {} {} f" using inv by (simp_all add: frame_inv_def)
  note cr = CreateThread_core [OF core fam _ _ fresh h(1) False]
  have "frame_core c (insert p {fr_curr_thread f, fr_daemon f} - {p}) g"
    unfolding h(2) by (rule InsertRunable_core [OF cr(1)]) auto
  moreover have "insert p {fr_curr_thread f, fr_daemon f} - {p} = {fr_curr_thread f, fr_daemon f}" using cr(3) by auto
  moreover have "families {} {} g" unfolding h(2) by (rule same_family_families [OF _ cr(2)]) auto
  moreover have "same_ids f g" using cr(6) by (simp add: h(2))
  ultimately show ?thesis by (simp add: frame_inv_def same_ids_def)
qed

lemma FreeThread_both:
  assumes core: "frame_core c X f" and fam: "families Y {} f" and p: "p \<in> X" "p \<noteq> fr_primo f"
    and kid: "th_type (fr_threads f p) \<noteq> SUB_THREAD \<or> p \<in> Y"
  obtains g where "FreeThread c p f = Some g" "frame_core c (X - {p}) g" "families (Y - {p}) {} g" "same_ids f g"
proof -
  obtain g where g: "FreeThread c p f = Some g" "frame_core c (X - {p}) g"
    using FreeThread_core [OF core p] by metis
  note fl = core_free_list [OF core]
  have "families (Y - {p}) {} g"
    by (rule families_FreeThread [OF fam kid _ _ fl(3,1) _ fl(2) g(1)]) (use fl(4) [OF p(1)] in auto)
  with g same_ids_FreeThread [OF g(1), of f] show thesis by (intro that [of g]) simp_all
qed

lemma Run_end_inv:
  assumes inv: "frame_inv c f" and me: "fr_curr_thread f \<noteq> fr_daemon f" "fr_curr_thread f \<noteq> fr_primo f"
  obtains g where "Run_end c f = Some g" "frame_inv c g"
proof -
  let ?p = "fr_curr_thread f"
  have core: "frame_core c {?p, fr_daemon f} f" and fam: "families {} {} f" using inv by (simp_all add: frame_inv_def)
  note cl = curr_live [OF inv] and fl = core_free_list [OF core]
  define Y where "Y = (if IsSubThread (fr_threads f ?p) then {?p} else {})"
  obtain f1 where f1: "(if IsSubThread (fr_threads f ?p) then WakeupParent ?p f else Some f) = Some f1"
    "frame_core c {?p, fr_daemon f} f1" "families Y {} f1" "same_ids f f1"
    and k: "th_type (fr_threads f1 ?p) \<noteq> SUB_THREAD \<or> ?p \<in> Y"
  proof (cases "IsSubThread (fr_threads f ?p)")
    case True
    show thesis
      by (rule WakeupParent_core [OF core fam cl(1) True]) (use fl(4) [of ?p] True in \<open>auto simp: Y_def same_ids_def intro!: that\<close>)
  next
    case False
    with core fam show thesis by (intro that [of f]) (auto simp: Y_def IsSubThread_def)
  qed
  have ids: "fr_curr_thread f1 = ?p" "fr_daemon f1 = fr_daemon f" "fr_primo f1 = fr_primo f" using f1(4) by (simp_all add: same_ids_def)
  obtain f2 where f2: "FreeThread c ?p f1 = Some f2" "frame_core c ({?p, fr_daemon f} - {?p}) f2" "families (Y - {?p}) {} f2" "same_ids f1 f2"
    using FreeThread_both [OF f1(2,3) _ _ k] me(2) ids(3) by auto
  have "{?p, fr_daemon f} - {?p} = {fr_daemon f2}" using me(1) f2(4) ids by (auto simp: same_ids_def)
  moreover have "Y - {?p} = {}" by (simp add: Y_def)
  ultimately have "frame_core c {fr_daemon f2} f2" "families {} {} f2" using f2(2,3) by (simp_all only:)
  then obtain g where "ThreadSchdule f2 = Some g" "frame_inv c g" by (rule yield_inv) (rule that)
  with f1(1) f2(1) show thesis
    using cl(2) ids(1) by (intro that [of g]) (simp_all add: Run_end_def ScheduleReclaim_def)
qed

text \<open>The sub-threads of \<open>mt_exec_all_task\<close>: created, then started or given back.\<close>

lemma create_subs_core:
  assumes "frame_core c X f" "families Y {} f" "Y \<subseteq> X" "distinct (map (\<lambda>t. fst (snd t)) ts)"
    "\<forall>t \<in> set ts. fst (snd t) \<notin> set (fr_live f)" "create_subs c entry ts f = (ok, subs, g)"
  shows "frame_core c (X \<union> set subs) g \<and> families (Y \<union> set subs) {} g \<and> distinct subs \<and> set subs \<inter> X = {} \<and>
    fr_primo f \<notin> set subs \<and> same_ids f g \<and> (ok \<longrightarrow> length subs = length ts)"
  using assms
proof (induction ts arbitrary: X Y f subs)
  case (Cons t ts)
  obtain task e where t: "t = (task, e)" by (cases t)
  obtain sub f1 where cr: "CreateThread c e entry task False f = (sub, f1)" by (metis surj_pair)
  have fresh: "fst e \<notin> set (fr_live f)" using Cons.prems(5) t by simp
  show ?case
  proof (cases "sub = NULL")
    case True
    then have "AllocThread c e f = (NULL, f1)" using cr by (auto simp: CreateThread_def Let_def split: prod.splits if_splits)
    then have "f1 = f" using AllocThread_core(1) [OF Cons.prems(1) fresh] by blast
    with Cons.prems True cr t show ?thesis by auto
  next
    case False
    note c1 = CreateThread_core [OF Cons.prems(1,2,3) _ fresh cr False]
    let ?f2 = "upd sub (SetType SUB_THREAD) f1"
    have core2: "frame_core c (insert sub X) ?f2" by (rule core_upd) (use c1(1) in auto)
    have nf: "sub \<notin> set (fr_freelist f1)" using core_free_list(4) [of c "insert sub X" f1 sub] c1(1) by simp
    have fam2: "families (insert sub Y) {} ?f2" by (rule families_SetType) (use c1(2,4,5) nf in auto)
    obtain ss where rest: "create_subs c entry ts ?f2 = (ok, ss, g)" and subs: "subs = sub # ss"
      using Cons.prems(6) False cr t by (auto split: prod.splits)
    have used: "sub = fst e \<or> sub \<in> set (fr_live f)"
      using cr False core_free_list(2) [OF Cons.prems(1)]
      by (auto simp: CreateThread_def AllocThread_def Let_def split: prod.splits list.splits if_splits bool.splits)
    have "\<forall>t' \<in> set ts. fst (snd t') \<notin> set (fr_live ?f2)"
    proof
      fix t' assume t': "t' \<in> set ts"
      then have n: "fst (snd t') \<notin> set (fr_live f)" using Cons.prems(5) by simp
      moreover have "fst (snd t') \<noteq> fst e" using Cons.prems(4) t t' by force
      ultimately have "fst (snd t') \<noteq> sub" using used by auto
      then show "fst (snd t') \<notin> set (fr_live ?f2)" using n c1(7) by simp
    qed
    from Cons.IH [OF core2 fam2 _ _ this rest] Cons.prems(3,4)
    have IH: "frame_core c (insert sub X \<union> set ss) g" "families (insert sub Y \<union> set ss) {} g" "distinct ss"
      "set ss \<inter> insert sub X = {}" "fr_primo ?f2 \<notin> set ss" "same_ids ?f2 g" "ok \<longrightarrow> length ss = length ts" by auto
    have "same_ids f ?f2" using c1(6) by simp
    with IH subs c1(3,8) show ?thesis
      by (auto simp: same_ids_def insert_commute Un_commute)
  qed
qed auto

lemma families_waiting: "families Y {} f \<Longrightarrow> families Y Z f"
  unfolding families_def family_def by blast

lemma start_subs_core:
  assumes "frame_core c (X \<union> set subs) f" "families (set subs) {this} f" "distinct subs" "set subs \<inter> X = {}" "this \<in> X"
    "subs \<noteq> [] \<or> th_sub_list (fr_threads f this) \<noteq> []"
  shows "frame_core c X (start_subs this subs f) \<and> families {} {this} (start_subs this subs f) \<and>
    same_ids f (start_subs this subs f) \<and> th_sub_list (fr_threads (start_subs this subs f) this) \<noteq> []"
  using assms
proof (induction subs arbitrary: f)
  case (Cons sub subs)
  let ?f1 = "AddSubThread this sub f"
  let ?f2 = "InsertRunable sub ?f1"
  have live: "this \<in> set (fr_live f)" "sub \<in> set (fr_live f)" "sub \<noteq> this"
    using core_free_list(4) [OF Cons.prems(1)] Cons.prems(4,5) by auto
  note add = families_AddSubThread [OF Cons.prems(2) _ live(1) _ live(2,3)]
  have "frame_core c (X \<union> set (sub # subs)) ?f1" by (rule AddSubThread_core [OF Cons.prems(1)])
  then have "frame_core c (X \<union> set (sub # subs) - {sub}) ?f2" by (rule InsertRunable_core) simp
  moreover have "X \<union> set (sub # subs) - {sub} = X \<union> set subs" using Cons.prems(3,4) by auto
  ultimately have core2: "frame_core c (X \<union> set subs) ?f2" by simp
  have "families (set (sub # subs) - {sub}) {this} ?f1" using add(1) by simp
  moreover have "set (sub # subs) - {sub} = set subs" using Cons.prems(3) by auto
  ultimately have fam2: "families (set subs) {this} ?f2" using same_family_families [of ?f1 ?f2] by simp
  have "th_sub_list (fr_threads ?f2 this) = th_sub_list (fr_threads ?f1 this)"
    by (simp add: InsertRunable_def)
  then have "th_sub_list (fr_threads ?f2 this) \<noteq> []" using add(2) by simp
  from Cons.IH [OF core2 fam2 _ _ Cons.prems(5)] this Cons.prems(3,4)
  show ?case using same_ids_trans [of f ?f2 "start_subs this subs ?f2"] by simp
qed auto

lemma free_subs_core:
  assumes "frame_core c (X \<union> set subs) f" "families (set subs) {} f" "distinct subs" "set subs \<inter> X = {}" "fr_primo f \<notin> set subs"
  obtains g where "free_subs c subs f = Some g" "frame_core c X g" "families {} {} g" "same_ids f g"
  using assms
proof (induction subs arbitrary: f thesis)
  case Nil
  then show ?case by simp
next
  case (Cons sub subs)
  obtain f1 where f1: "FreeThread c sub f = Some f1" "frame_core c (X \<union> set (sub # subs) - {sub}) f1"
    "families (set (sub # subs) - {sub}) {} f1" "same_ids f f1"
    using FreeThread_both [OF Cons.prems(2,3), of sub] Cons.prems(6) by auto
  have eq: "X \<union> set (sub # subs) - {sub} = X \<union> set subs" "set (sub # subs) - {sub} = set subs"
    using Cons.prems(4,5) by auto
  have rest: "distinct subs" "set subs \<inter> X = {}" "fr_primo f1 \<notin> set subs"
    using Cons.prems(4-6) f1(4) by (auto simp: same_ids_def)
  show ?case
  proof (rule Cons.IH [OF _ f1(2) [unfolded eq(1)] f1(3) [unfolded eq(2)] rest])
    fix g assume g: "free_subs c subs f1 = Some g" "frame_core c X g" "families {} {} g" "same_ids f1 g"
    show ?case
      by (rule Cons.prems(1)) (use g f1(1) same_ids_trans [OF f1(4) g(4)] in simp_all)
  qed
qed

lemma mt_exec_all_task_inv:
  assumes inv: "frame_inv c f" and me: "fr_curr_thread f \<noteq> fr_daemon f"
    and fresh: "distinct (map (\<lambda>t. fst (snd t)) tasks)" "\<forall>t \<in> set tasks. fst (snd t) \<notin> set (fr_live f)"
  obtains r g where "mt_exec_all_task c entry tasks f = Some (r, g)" "frame_inv c g"
proof (cases "tasks = []")
  case True
  with inv show thesis by (intro that [of "Some 0" f]) (simp_all add: mt_exec_all_task_def)
next
  case False
  let ?p = "fr_curr_thread f" let ?X = "{fr_curr_thread f, fr_daemon f}"
  have core: "frame_core c ?X f" and fam: "families {} {} f" using inv by (simp_all add: frame_inv_def)
  obtain ok subs f1 where cr: "create_subs c entry tasks f = (ok, subs, f1)" by (metis surj_pair)
  have c1: "frame_core c (?X \<union> set subs) f1" "families (set subs) {} f1" "distinct subs" "set subs \<inter> ?X = {}"
    "fr_primo f \<notin> set subs" "same_ids f f1" "ok \<longrightarrow> length subs = length tasks"
    using create_subs_core [OF core fam _ fresh cr] by simp_all
  show thesis
  proof (cases ok)
    case True
    then have "subs \<noteq> []" using c1(7) False by auto
    let ?f2 = "start_subs ?p subs f1"
    have s: "frame_core c ?X ?f2" "families {} {?p} ?f2" "same_ids f1 ?f2" "th_sub_list (fr_threads ?f2 ?p) \<noteq> []"
      using start_subs_core [OF c1(1) families_waiting [OF c1(2)] c1(3,4)] \<open>subs \<noteq> []\<close> by simp_all
    have ids: "fr_curr_thread ?f2 = ?p" "fr_daemon ?f2 = fr_daemon f" using s(3) c1(6) by (simp_all add: same_ids_def)
    obtain f3 where f3: "InsertPend ?p ?f2 = Some f3" "frame_core c (?X - {?p}) f3"
      using InsertPend_core [OF s(1), of ?p] by auto
    have fam3: "families {} {} f3"
      by (rule families_InsertPend [OF s(2) _ s(4) f3(1)]) (use core_free_list(4) [OF s(1), of ?p] in simp)
    have "fr_daemon f3 = fr_daemon f" using same_ids_partial(3) [OF f3(1), of ?f2] ids by (simp add: same_ids_def)
    moreover have "?X - {?p} = {fr_daemon f}" using me by auto
    ultimately have "frame_core c {fr_daemon f3} f3" using f3(2) by simp
    then obtain g where "ThreadSchdule f3 = Some g" "frame_inv c g" using fam3 by (rule yield_inv) (rule that)
    with f3(1) ids cr True False curr_live(2) [OF inv] show thesis
      by (intro that [of None g]) (simp_all add: mt_exec_all_task_def Thread_Wait_def SchedulePend_def)
  next
    case nok: False
    have "fr_primo f1 \<notin> set subs" using c1(5,6) by (simp add: same_ids_def)
    then obtain g where g: "free_subs c subs f1 = Some g" "frame_core c ?X g" "families {} {} g" "same_ids f1 g"
      using free_subs_core [OF c1(1-4)] by metis
    have "fr_curr_thread g = ?p" "fr_daemon g = fr_daemon f" using g(4) c1(6) by (simp_all add: same_ids_def)
    with g nok cr False show thesis
      by (intro that [of "Some (- 1)" g]) (simp_all add: mt_exec_all_task_def frame_inv_def)
  qed
qed

section \<open>The daemon\<close>

text \<open>What wakes a thread keeps everything, whoever runs.\<close>

definition keeps :: "pool_conf \<Rightarrow> ptr set \<Rightarrow> 'k mt_frame \<Rightarrow> 'k mt_frame \<Rightarrow> bool" where
  "keeps c X f g \<longleftrightarrow> frame_core c X g \<and> same_family f g \<and> same_ids f g \<and> (\<exists>new. fr_runlist g = fr_runlist f @ new)"

lemma keeps_trans: "keeps c X f g \<Longrightarrow> keeps c X g h \<Longrightarrow> keeps c X f h"
  by (auto simp: keeps_def intro: same_family_trans same_ids_trans)

lemma keeps_refl: "frame_core c X f \<Longrightarrow> keeps c X f f"
  by (simp add: keeps_def)

lemma keeps_ep: "frame_core c X f \<Longrightarrow> keeps c X f (f\<lparr>fr_ep := e\<rparr>)"
  by (simp add: keeps_def same_ids_def)

lemma keeps_inv: "frame_inv c f \<Longrightarrow> keeps c {fr_curr_thread f, fr_daemon f} f g \<Longrightarrow> frame_inv c g"
  using same_family_families by (fastforce simp: frame_inv_def keeps_def same_ids_def)

lemma wake_io_keeps:
  assumes core: "frame_core c X f" and io: "flag_of f IO_LIST p"
  obtains g where "RemoveIoWait p f = Some g" "keeps c X f (InsertRunable p g)"
    "fr_sleeplist g = snd (HeapDelete (wakeup f) p (fr_sleeplist f))" "wakeup g = wakeup f" "fr_runlist g = fr_runlist f"
    "p \<in> asleep f"
proof -
  have pl: "placed X f p" by (rule frame_coreD(1) [OF core])
  then have p: "p \<in> set (fr_iolist f)" "p \<in> asleep f" "p \<notin> X" using io by (auto simp: placed_def)
  obtain g where g: "RemoveIoWait p f = Some g" "frame_core c (insert p X) g" using RemoveIoWait_core [OF core p(1)] by metis
  have "frame_core c (insert p X - {p}) (InsertRunable p g)" by (rule InsertRunable_core [OF g(2)]) simp
  then have "frame_core c X (InsertRunable p g)" using p(3) by simp
  moreover have "same_family f (InsertRunable p g)" by (rule same_family_trans [OF same_family_lists(5) [OF g(1)]]) simp
  moreover have "same_ids f (InsertRunable p g)" using same_ids_partial(2) [OF g(1)] by simp
  moreover have eq: "g = RemoveSleep p ((upd p (UnsetFlag IO_LIST) f)\<lparr>fr_iolist := remove1 p (fr_iolist f)\<rparr>)"
    using g(1) p(1) by (simp add: RemoveIoWait_def)
  have w: "wakeup (upd p (UnsetFlag SLEEP_LIST) ((upd p (UnsetFlag IO_LIST) f)\<lparr>fr_iolist := remove1 p (fr_iolist f)\<rparr>)) = wakeup f"
    by (auto simp: fun_eq_iff)
  have v: "fr_runlist g = fr_runlist f" "wakeup g = wakeup f" "fr_sleeplist g = snd (HeapDelete (wakeup f) p (fr_sleeplist f))"
    using w by (auto simp: eq RemoveSleep_def Let_def fun_eq_iff)
  ultimately have "keeps c X f (InsertRunable p g)"
    by (simp add: keeps_def InsertRunable_def)
  with g(1) v p(2) show thesis by (intro that [of g])
qed

lemma wake_sleep_keeps:
  assumes core: "frame_core c X f" and p: "p \<in> asleep f" "\<not> flag_of f IO_LIST p"
  shows "keeps c X f (InsertRunable p (RemoveSleep p f))"
proof -
  have pl: "placed X f p" by (rule frame_coreD(1) [OF core])
  then have n: "p \<notin> set (fr_iolist f)" "p \<notin> X" using p by (auto simp: placed_def)
  have "frame_core c (insert p X - {p}) (InsertRunable p (RemoveSleep p f))"
    by (rule InsertRunable_core [OF RemoveSleep_core [OF core p(1) n(1)]]) simp
  then have "frame_core c X (InsertRunable p (RemoveSleep p f))" using n(2) by simp
  moreover have "same_family f (InsertRunable p (RemoveSleep p f))"
    by (rule same_family_trans [of f "RemoveSleep p f"]) simp_all
  ultimately show ?thesis by (simp add: keeps_def) (simp add: InsertRunable_def RemoveSleep_def Let_def)
qed

text \<open>\<open>WakeupTimeout\<close> ends, whatever the order of the sleep queue.\<close>

lemma wakeup_loop_keeps:
  "frame_core c X f \<Longrightarrow> \<exists>woken g. wakeup_loop now f = Some (woken, g) \<and> keeps c X f g"
proof (induction "card (asleep f)" arbitrary: f rule: less_induct)
  case less
  let ?p = "HeapTop (fr_sleeplist f)"
  note wf = frame_coreD(5) [OF less.prems]
  show ?case
  proof (cases "?p \<noteq> NULL \<and> wakeup f ?p \<le> now")
    case False
    then have "wakeup_loop now f = Some ([], f)" by (subst wakeup_loop.simps) auto
    then show ?thesis using keeps_refl [OF less.prems] by blast
  next
    case True
    then have p: "?p \<in> asleep f" using HeapTop_empty_iff [OF wf] by auto
    obtain g where g: "(if flag_of f IO_LIST ?p then RemoveIoWait ?p f else Some (RemoveSleep ?p f)) = Some g"
      "keeps c X f (InsertRunable ?p g)" "asleep (InsertRunable ?p g) = asleep f - {?p}"
    proof (cases "flag_of f IO_LIST ?p")
      case io: True
      obtain h where h: "RemoveIoWait ?p f = Some h" "keeps c X f (InsertRunable ?p h)"
        "fr_sleeplist h = snd (HeapDelete (wakeup f) ?p (fr_sleeplist f))"
        by (rule wake_io_keeps [OF less.prems io]) (rule that)
      show thesis
        by (rule that [of h]) (use h io HeapDelete_queued(3) [OF wf p] in \<open>simp_all add: InsertRunable_def\<close>)
    next
      case io: False
      show thesis
        by (rule that [of "RemoveSleep ?p f"])
          (use io wake_sleep_keeps [OF less.prems p io] HeapDelete_queued(3) [OF wf p] in \<open>simp_all add: InsertRunable_def RemoveSleep_def Let_def\<close>)
    qed
    have "card (asleep (InsertRunable ?p g)) < card (asleep f)"
      unfolding g(3) using p heap_entries_finite by (intro card_Diff1_less)
    moreover have "frame_core c X (InsertRunable ?p g)" using g(2) by (simp add: keeps_def)
    ultimately obtain w h where "wakeup_loop now (InsertRunable ?p g) = Some (w, h)" "keeps c X (InsertRunable ?p g) h"
      using less.hyps by blast
    moreover from this g(1) True have "wakeup_loop now f = Some (?p # w, h)"
      by (subst wakeup_loop.simps) (simp add: Let_def)
    ultimately show ?thesis using keeps_trans [OF g(2)] by blast
  qed
qed

lemma notify_keeps:
  assumes "frame_core c X f"
  shows "\<exists>r g. InputNotify ob f = Some (r, g) \<and> keeps c X f g" "\<exists>r g. OutputNotify ob f = Some (r, g) \<and> keeps c X f g"
proof -
  let ?t = "eo_thread (ep_objs (fr_ep f) ob)"
  have "\<exists>r g. InputNotify ob f = Some (r, g) \<and> keeps c X f g"
  proof (cases "?t \<noteq> NULL \<and> flag_of f IO_LIST ?t")
    case True
    obtain g where "RemoveIoWait ?t f = Some g" "keeps c X f (InsertRunable ?t g)"
      by (rule wake_io_keeps [OF assms conjunct2 [OF True]]) (rule that)
    with True show ?thesis by (auto simp: InputNotify_def Let_def)
  next
    case False
    then show ?thesis using keeps_refl [OF assms] by (auto simp: InputNotify_def Let_def)
  qed
  then show "\<exists>r g. InputNotify ob f = Some (r, g) \<and> keeps c X f g" "\<exists>r g. OutputNotify ob f = Some (r, g) \<and> keeps c X f g"
    by (simp_all add: InputNotify_def OutputNotify_def)
qed

lemma rcv_event_keeps:
  assumes core: "frame_core c X f"
  shows "\<exists>g. rcv_event ctl ev f = Some g \<and> keeps c X f g"
proof -
  obtain osfd revents where ev: "ev = (osfd, revents)" by (cases ev)
  show ?thesis
  proof (cases "FdRefGet osfd (fr_ep f)")
    case None
    then show ?thesis using keeps_refl [OF core] by (simp add: rcv_event_def ev)
  next
    case (Some i)
    define ob where "ob = rf_epobj (ep_refs (fr_ep f) ! i)"
    define f1 where "f1 = f\<lparr>fr_ep := (fr_ep f)\<lparr>ep_objs := (ep_objs (fr_ep f))(ob := (ep_objs (fr_ep f) ob)\<lparr>eo_revents := revents\<rparr>)\<rparr>\<rparr>"
    have k1: "keeps c X f f1" unfolding f1_def by (rule keeps_ep [OF core])
    then have core1: "frame_core c X f1" by (simp add: keeps_def)
    obtain r2 f2 where f2: "(if revents AND EPOLLIN \<noteq> 0 then InputNotify ob f1 else Some (0, f1)) = Some (r2, f2)" "keeps c X f1 f2"
      using notify_keeps(1) [OF core1, of ob] keeps_refl [OF core1] by (cases "revents AND EPOLLIN \<noteq> 0") auto
    have k2: "keeps c X f f2" by (rule keeps_trans [OF k1 f2(2)])
    then obtain r3 f3 where f3: "OutputNotify ob f2 = Some (r3, f3)" "keeps c X f2 f3"
      using notify_keeps(2) [of c X f2 ob] by (auto simp: keeps_def)
    have k3: "keeps c X f f3" by (rule keeps_trans [OF k2 f3(2)])
    have kd: "keeps c X f (f\<lparr>fr_ep := e\<rparr>)" for e by (rule keeps_ep [OF core])
    have kh: "keeps c X f (HangupNotify ctl ob f1)"
      unfolding HangupNotify_def by (rule keeps_trans [OF k1 keeps_ep [OF core1]])
    have eq: "rcv_event ctl ev f = (if ob = NULL
        then Some (f\<lparr>fr_ep := snd (EpollCtrlDel ctl osfd (revents AND (EPOLLIN OR EPOLLOUT)) (fr_ep f))\<rparr>)
        else if revents AND (EPOLLERR OR EPOLLHUP) \<noteq> 0 then Some (HangupNotify ctl ob f1)
        else if r2 \<noteq> 0 then Some f2 else if revents AND EPOLLOUT \<noteq> 0 then Some f3 else Some f2)"
      using f2(1) f3(1) Some unfolding rcv_event_def ev
      by (simp add: Let_def ob_def [symmetric] f1_def [symmetric] del: not_gr_zero)
    show ?thesis unfolding eq using k2 k3 kh kd by simp
  qed
qed

lemma EpollRcvEventList_keeps:
  "frame_core c X f \<Longrightarrow> \<exists>g. EpollRcvEventList ctl evs f = Some g \<and> keeps c X f g"
proof (induction evs arbitrary: f)
  case (Cons ev evs)
  obtain g where g: "rcv_event ctl ev f = Some g" "keeps c X f g" using rcv_event_keeps [OF Cons.prems] by blast
  then obtain h where "EpollRcvEventList ctl evs g = Some h" "keeps c X g h" using Cons.IH by (auto simp: keeps_def)
  with g keeps_trans [OF g(2)] show ?case by auto
qed (simp add: keeps_refl)

section \<open>The sleep queue\<close>

definition sleep_wf :: "'k mt_frame \<Rightarrow> bool" where
  "sleep_wf f \<longleftrightarrow> heap_wf (fr_sleeplist f) \<and> distinct (fr_iolist f) \<and>
     (\<forall>p. flag_of f IO_LIST p \<longleftrightarrow> p \<in> set (fr_iolist f))"

definition sleep_inv :: "'k mt_frame \<Rightarrow> bool" where
  "sleep_inv f \<longleftrightarrow> sleep_wf f \<and> heap_ord (wakeup f) (fr_sleeplist f)"

definition sleep_remove :: "ptr \<Rightarrow> 'k mt_frame \<Rightarrow> 'k mt_frame" where
  "sleep_remove p f = (if p \<in> set (fr_iolist f)
     then RemoveSleep p ((upd p (UnsetFlag IO_LIST) f)\<lparr>fr_iolist := remove1 p (fr_iolist f)\<rparr>) else RemoveSleep p f)"

lemma sleep_remove_fields:
  "wakeup (sleep_remove p f) = wakeup f" "fr_runlist (sleep_remove p f) = fr_runlist f"
  "fr_sleeplist (sleep_remove p f) = snd (HeapDelete (wakeup f) p (fr_sleeplist f))"
  "fr_iolist (sleep_remove p f) = remove1 p (fr_iolist f)"
  "flag_of (sleep_remove p f) IO_LIST q = (if q = p \<and> p \<in> set (fr_iolist f) then False else flag_of f IO_LIST q)"
proof -
  have w: "wakeup (upd p (UnsetFlag SLEEP_LIST) ((upd p (UnsetFlag IO_LIST) f)\<lparr>fr_iolist := remove1 p (fr_iolist f)\<rparr>)) = wakeup f"
    "wakeup (upd p (UnsetFlag SLEEP_LIST) f) = wakeup f"
    by (auto simp: fun_eq_iff)
  show "wakeup (sleep_remove p f) = wakeup f" by (auto simp: fun_eq_iff sleep_remove_def RemoveSleep_def Let_def)
  show "fr_sleeplist (sleep_remove p f) = snd (HeapDelete (wakeup f) p (fr_sleeplist f))"
    unfolding sleep_remove_def RemoveSleep_def Let_def by (simp add: w del: upd_fields(16))
  show "fr_runlist (sleep_remove p f) = fr_runlist f"
    "fr_iolist (sleep_remove p f) = remove1 p (fr_iolist f)"
    "flag_of (sleep_remove p f) IO_LIST q = (if q = p \<and> p \<in> set (fr_iolist f) then False else flag_of f IO_LIST q)"
    by (simp_all add: sleep_remove_def RemoveSleep_def Let_def remove1_idem)
qed

interpretation sleep_pool: top_queue sleep_wf asleep wakeup "\<lambda>f. HeapTop (fr_sleeplist f)" sleep_remove
proof (unfold_locales, goal_cases)
  case (1 s) show ?case by (rule heap_entries_finite)
next
  case (2 s) then show ?case by (simp add: sleep_wf_def HeapTop_empty_iff(1))
next
  case (3 s) then show ?case by (simp add: sleep_wf_def HeapTop_empty_iff(1,3))
next
  case (4 s)
  then have wf: "heap_wf (fr_sleeplist s)" and d: "distinct (fr_iolist s)" by (simp_all add: sleep_wf_def)
  show ?case
    using HeapDelete_queued [OF wf HeapTop_empty_iff(3) [OF wf 4(2)]] d 4(1) by (auto simp: sleep_wf_def sleep_remove_fields)
next
  case (5 p s) show ?case by (rule sleep_remove_fields(1))
qed

interpretation sleep_queue: min_queue sleep_inv asleep wakeup "\<lambda>f. HeapTop (fr_sleeplist f)" sleep_remove
proof (unfold_locales, goal_cases)
  case (1 s) show ?case by (rule heap_entries_finite)
next
  case (2 s) then show ?case by (simp add: sleep_inv_def sleep_pool.top_empty)
next
  case (3 s) then show ?case by (simp add: sleep_inv_def sleep_pool.top_entry)
next
  case (4 s)
  then have wf: "heap_wf (fr_sleeplist s)" and ord: "heap_ord (wakeup s) (fr_sleeplist s)"
    by (simp_all add: sleep_inv_def sleep_wf_def)
  note top = HeapTop_empty_iff(3) [OF wf 4(2)]
  show ?case
    using HeapDelete_ord [OF wf ord top] HeapTop_index [OF wf 4(2)] sleep_pool.remove_top 4
    by (auto simp: sleep_inv_def sleep_remove_fields)
next
  case (5 p s) show ?case by (rule sleep_remove_fields(1))
next
  case (6 s q) then show ?case using HeapTop_min [of "fr_sleeplist s" "wakeup s" q] by (simp add: sleep_inv_def sleep_wf_def)
qed

lemma InsertRunable_quiet:
  "sleep_pool.quiet now (InsertRunable :: ptr \<Rightarrow> 'k mt_frame \<Rightarrow> 'k mt_frame)"
  "sleep_queue.quiet now (InsertRunable :: ptr \<Rightarrow> 'k mt_frame \<Rightarrow> 'k mt_frame)"
proof -
  have w: "wakeup (InsertRunable p f) q = wakeup f q" "fr_sleeplist (InsertRunable p f) = fr_sleeplist f"
    "fr_iolist (InsertRunable p f) = fr_iolist f" "flag_of (InsertRunable p f) IO_LIST q = flag_of f IO_LIST q"
    for p q and f :: "'k mt_frame" by (auto simp: InsertRunable_def)
  have wf: "sleep_wf (InsertRunable p f)" if "sleep_wf f" for p and f :: "'k mt_frame"
    using that by (simp add: sleep_wf_def w)
  then have "sleep_inv (InsertRunable p f)" if "sleep_inv f" for p and f :: "'k mt_frame"
    using that by (simp add: sleep_inv_def w)
  with wf show "sleep_pool.quiet now (InsertRunable :: ptr \<Rightarrow> 'k mt_frame \<Rightarrow> 'k mt_frame)"
    "sleep_queue.quiet now (InsertRunable :: ptr \<Rightarrow> 'k mt_frame \<Rightarrow> 'k mt_frame)"
    by (simp_all add: sleep_pool.quiet_def sleep_queue.quiet_def sleep_pool.due_def w)
qed

lemma wakeup_loop_eq:
  assumes "sleep_wf f"
  shows "wakeup_loop now f = (if HeapTop (fr_sleeplist f) \<noteq> NULL \<and> wakeup f (HeapTop (fr_sleeplist f)) \<le> now
     then Option.bind (wakeup_loop now (InsertRunable (HeapTop (fr_sleeplist f)) (sleep_remove (HeapTop (fr_sleeplist f)) f)))
       (\<lambda>(w, g). Some (HeapTop (fr_sleeplist f) # w, g))
     else Some ([], f))"
proof -
  have "(if flag_of f IO_LIST p then RemoveIoWait p f else Some (RemoveSleep p f)) = Some (sleep_remove p f)" for p
    using assms by (auto simp: sleep_wf_def sleep_remove_def RemoveIoWait_def)
  then show ?thesis by (subst wakeup_loop.simps) (simp add: Let_def)
qed

lemma frame_inv_sleep:
  assumes "frame_inv c f"
  shows "sleep_wf f"
proof -
  have core: "frame_core c {fr_curr_thread f, fr_daemon f} f" using assms by (simp add: frame_inv_def)
  have "flag_of f IO_LIST p \<longleftrightarrow> p \<in> set (fr_iolist f)" for p using frame_coreD(1) [OF core, of p] by (simp add: placed_def)
  with frame_coreD(5) [OF core] frame_coreD(2) [OF core] show ?thesis by (auto simp: sleep_wf_def lists_ok_def)
qed

section \<open>Steps\<close>

text \<open>
  One step: a call of the thread that runs, or a turn of the daemon. The label says whether the
  control goes to another thread. The allocator returns addresses that are not in use; a thread
  that ends is neither the daemon nor the thread the process began with.
\<close>

inductive sched_step :: "pool_conf \<Rightarrow> 'k epoll_ctl \<Rightarrow> bool \<Rightarrow> 'k mt_frame \<Rightarrow> 'k mt_frame \<Rightarrow> bool" for c ctl where
  sleep: "sched_step c ctl True f g"
  if "fr_curr_thread f \<noteq> fr_daemon f" "MtFrame_sleep now ms f = Some g"
| notify: "sched_step c ctl True f g"
  if "fr_curr_thread f \<noteq> fr_daemon f" "WaitNotify now timeout f = Some g"
| enter: "sched_step c ctl sw f g"
  if "fr_curr_thread f \<noteq> fr_daemon f" "EpollSchedule_enter ctl now fdlist fd tmo f = Some (sw, g)"
| leave: "sched_step c ctl False f g"
  if "EpollSchedule_leave ctl (fr_curr_thread f) f = (r, g)"
| create: "sched_step c ctl False f g"
  if "fst e \<notin> set (fr_live f)" "CreateThread c e entry args True f = (p, g)"
| exec_all: "sched_step c ctl (r = None) f g"
  if "fr_curr_thread f \<noteq> fr_daemon f" "distinct (map (\<lambda>t. fst (snd t)) tasks)"
    "\<forall>t \<in> set tasks. fst (snd t) \<notin> set (fr_live f)" "mt_exec_all_task c entry tasks f = Some (r, g)"
| finish: "sched_step c ctl True f g"
  if "fr_curr_thread f \<noteq> fr_daemon f" "fr_curr_thread f \<noteq> fr_primo f" "Run_end c f = Some g"
| daemon: "sched_step c ctl True f g"
  if "fr_curr_thread f = fr_daemon f" "daemon_turn ctl wait ntf now later f = Some g"

inductive_cases sched_stepE: "sched_step c ctl sw f g"

text \<open>A run, with the threads that got control in order.\<close>

inductive sched_run :: "pool_conf \<Rightarrow> 'k epoll_ctl \<Rightarrow> 'k mt_frame \<Rightarrow> ptr list \<Rightarrow> 'k mt_frame \<Rightarrow> bool" for c ctl where
  stop: "sched_run c ctl f [] f"
| call: "sched_run c ctl f tr h" if "sched_step c ctl False f g" "sched_run c ctl g tr h"
| switch: "sched_run c ctl f (fr_curr_thread g # tr) h" if "sched_step c ctl True f g" "sched_run c ctl g tr h"

lemma daemon_turn_cases:
  assumes inv: "frame_inv c f" and me: "fr_curr_thread f = fr_daemon f"
    and turn: "daemon_turn ctl wait ntf now later f = Some g"
  obtains f3 where "ThreadSchdule f3 = Some g" "frame_core c {fr_daemon f3} f3" "families {} {} f3"
    "\<exists>new. fr_runlist f3 = fr_runlist f @ new"
proof -
  have core: "frame_core c {fr_daemon f} f" and fam: "families {} {} f" using inv me by (simp_all add: frame_inv_def)
  from turn obtain f1 w f2 r f3 where t: "EpollDispath ctl wait now f = Some f1"
    "WakeupTimeout later (f1\<lparr>fr_last_clock := later\<rparr>) = Some (w, f2)" "CheckExpired ntf later f2 = Some (r, f3)" "ThreadSchdule f3 = Some g"
    by (auto simp: daemon_turn_def split: bind_splits)
  have k1: "keeps c {fr_daemon f} f f1"
    using t(1) EpollRcvEventList_keeps [OF core, of ctl "wait (EpollGetTimeout now f)"] keeps_refl [OF core] by (auto simp: EpollDispath_def Let_def split: if_splits)
  then have "frame_core c {fr_daemon f} (f1\<lparr>fr_last_clock := later\<rparr>)" by (simp add: keeps_def)
  with t(2) have k2: "keeps c {fr_daemon f} (f1\<lparr>fr_last_clock := later\<rparr>) f2"
    using wakeup_loop_keeps [of c "{fr_daemon f}" "f1\<lparr>fr_last_clock := later\<rparr>" later] by (simp add: WakeupTimeout_def)
  have "keeps c {fr_daemon f} f1 (f1\<lparr>fr_last_clock := later\<rparr>)" using k1 by (simp add: keeps_def same_ids_def)
  then have k: "keeps c {fr_daemon f} f f2" using keeps_trans [OF k1] keeps_trans k2 by blast
  have "\<exists>tm w. f3 = f2\<lparr>fr_timer := tm, fr_check_time := w\<rparr>"
    using t(3) by (auto simp: CheckExpired_def split: bind_splits option.splits if_splits)
      (metis mt_frame.surjective mt_frame.update_convs(17,18))+
  then obtain tm w where f3: "f3 = f2\<lparr>fr_timer := tm, fr_check_time := w\<rparr>" by blast
  have "families {} {} f2" using same_family_families [OF _ fam] k by (simp add: keeps_def)
  then have "families {} {} f3" using same_family_families [of f2 f3] by (simp add: f3)
  moreover have "frame_core c {fr_daemon f3} f3" using k by (simp add: keeps_def same_ids_def f3)
  moreover have "\<exists>new. fr_runlist f3 = fr_runlist f @ new" using k by (simp add: keeps_def f3)
  ultimately show thesis using t(4) by (intro that [of f3])
qed

lemma sched_step_inv:
  assumes "sched_step c ctl sw f g" "frame_inv c f"
  shows "frame_inv c g"
  using assms(1)
proof cases
  case (sleep now ms)
  then show ?thesis using MtFrame_sleep_inv [OF assms(2)] by (metis option.inject)
next
  case (notify now timeout)
  then show ?thesis using WaitNotify_inv [OF assms(2)] by (metis option.inject)
next
  case (enter now fdlist fd tmo)
  obtain r h where "EpollSchedule_enter ctl now fdlist fd tmo f = Some (r, h)" "frame_inv c h"
    by (rule EpollSchedule_enter_inv [OF assms(2) enter(1)]) (rule that)
  then show ?thesis using enter(2) by simp
next
  case (leave r)
  then show ?thesis using EpollSchedule_leave_inv [OF assms(2), of ctl "fr_curr_thread f"] by simp
next
  case (create e entry args p)
  then show ?thesis using CreateThread_inv [OF assms(2)] by blast
next
  case (exec_all tasks entry r)
  obtain r' h where "mt_exec_all_task c entry tasks f = Some (r', h)" "frame_inv c h"
    by (rule mt_exec_all_task_inv [OF assms(2) exec_all(2,3,4)]) (rule that)
  then show ?thesis using exec_all(5) by simp
next
  case finish
  then show ?thesis using Run_end_inv [OF assms(2)] by (metis option.inject)
next
  case (daemon wait ntf now later)
  obtain f3 where "ThreadSchdule f3 = Some g" "frame_core c {fr_daemon f3} f3" "families {} {} f3"
    by (rule daemon_turn_cases [OF assms(2) daemon(2,3)]) (rule that)
  then show ?thesis using yield_inv [of c f3] by (metis option.inject)
qed

text \<open>The run list: calls append to it, a switch takes its head.\<close>

lemma ThreadSchdule_runlist:
  "ThreadSchdule f = Some g \<Longrightarrow>
   (case fr_runlist f of [] \<Rightarrow> fr_runlist g = [] \<and> fr_curr_thread g = fr_daemon f
    | p # ps \<Rightarrow> fr_runlist g = ps \<and> fr_curr_thread g = p)"
  by (auto simp: ThreadSchdule_def RemoveRunable_def split: list.splits)

lemma run_unchanged:
  "FreeThread c p f = Some g \<Longrightarrow> fr_runlist g = fr_runlist f"
  "AllocThread c e f = (p, g) \<Longrightarrow> fr_runlist g = fr_runlist f"
  "InsertIoWait p f = Some g \<Longrightarrow> fr_runlist g = fr_runlist f" "InsertPend p f = Some g \<Longrightarrow> fr_runlist g = fr_runlist f"
  by (auto simp: FreeThread_def AllocThread_def InsertIoWait_def InsertPend_def InsertSleep_def Let_def
      split: if_splits bind_splits list.splits prod.splits bool.splits)

lemma CreateThread_run:
  "CreateThread c e entry args r f = (p, g) \<Longrightarrow> fr_runlist g = fr_runlist f @ (if r \<and> p \<noteq> NULL then [p] else [])"
  using run_unchanged(2) by (fastforce simp: CreateThread_def InsertRunable_def Let_def split: prod.splits if_splits)

lemma create_subs_run: "create_subs c entry ts f = (ok, subs, g) \<Longrightarrow> fr_runlist g = fr_runlist f"
proof (induction ts arbitrary: f subs)
  case (Cons t ts)
  obtain task e where t: "t = (task, e)" by (cases t)
  obtain sub f1 where cr: "CreateThread c e entry task False f = (sub, f1)" by (metis surj_pair)
  with Cons t CreateThread_run [OF cr] show ?case by (fastforce split: prod.splits if_splits)
qed auto

lemma start_subs_run: "\<exists>new. fr_runlist (start_subs this subs f) = fr_runlist f @ new"
proof (induction subs arbitrary: f)
  case (Cons sub subs)
  have "fr_runlist (InsertRunable sub (AddSubThread this sub f)) = fr_runlist f @ [sub]"
    by (simp add: InsertRunable_def AddSubThread_def Let_def)
  with Cons.IH [of "InsertRunable sub (AddSubThread this sub f)"] show ?case by auto
qed auto

lemma free_subs_run: "free_subs c subs f = Some g \<Longrightarrow> fr_runlist g = fr_runlist f"
  by (induction subs arbitrary: f) (auto simp: run_unchanged(1) split: bind_splits)

lemma WakeupParent_run: "WakeupParent p f = Some g \<Longrightarrow> \<exists>new. fr_runlist g = fr_runlist f @ new"
  by (auto simp: WakeupParent_def RemoveSubThread_def ScheduleUnpend_def RemovePend_def InsertRunable_def Let_def
      split: if_splits bind_splits)

lemma epoll_prepare_run [simp]: "fr_runlist (epoll_prepare now fdlist fd tmo f) = fr_runlist f"
  by (simp add: epoll_prepare_def Let_def split: option.split)

lemma create_subs_ids: "create_subs c entry ts f = (ok, subs, g) \<Longrightarrow> same_ids f g"
proof (induction ts arbitrary: f subs)
  case (Cons t ts)
  obtain task e where t: "t = (task, e)" by (cases t)
  obtain sub f1 where al: "AllocThread c e f = (sub, f1)" by (metis surj_pair)
  have f1: "same_ids f (upd sub (SetType SUB_THREAD) (upd sub (SetSartFunc entry task) f1))" "same_ids f f1"
    using same_ids_AllocThread [OF al] by simp_all
  show ?case
  proof (cases "sub = NULL")
    case True
    then show ?thesis using Cons.prems t al f1 by (simp add: CreateThread_def)
  next
    case False
    then obtain ss where "create_subs c entry ts (upd sub (SetType SUB_THREAD) (upd sub (SetSartFunc entry task) f1)) = (ok, ss, g)"
      using Cons.prems t al by (auto simp: CreateThread_def Let_def split: prod.splits)
    from same_ids_trans [OF f1(1) Cons.IH [OF this]] show ?thesis .
  qed
qed auto

lemma start_subs_ids: "same_ids f g \<Longrightarrow> same_ids f (start_subs this subs g)"
  by (induction subs arbitrary: g) auto

lemma sched_step_run:
  assumes inv: "frame_inv c f" and step: "sched_step c ctl sw f g"
  shows "\<exists>new. if sw then (case fr_runlist f @ new of [] \<Rightarrow> fr_runlist g = [] | p # ps \<Rightarrow> fr_runlist g = ps \<and> fr_curr_thread g = p)
    else fr_runlist g = fr_runlist f @ new" (is ?R)
proof -
  have yes: ?R if "sw" "ThreadSchdule h = Some g" "fr_runlist h = fr_runlist f @ new" for h new
    using ThreadSchdule_runlist [OF that(2)] that(1,3) by (intro exI [of _ new]) (auto split: list.splits)
  have no: ?R if "\<not> sw" "fr_runlist g = fr_runlist f @ new" for new
    using that by (intro exI [of _ new]) simp
  note cn = curr_live(2) [OF inv]
  from step show ?R
  proof cases
    case (sleep now ms)
    then obtain h where "ThreadSchdule h = Some g" "fr_runlist h = fr_runlist f @ []"
      using cn by (auto simp: MtFrame_sleep_def Thread_sleep_def ScheduleSleep_def InsertSleep_def Let_def)
    with sleep(1) [THEN iffD2, OF TrueI] show ?R by (intro yes)
  next
    case (notify now timeout)
    then obtain h where "ThreadSchdule h = Some g" "fr_runlist h = fr_runlist f @ []"
      by (auto simp: WaitNotify_def run_unchanged(3) split: bind_splits)
    with notify(1) [THEN iffD2, OF TrueI] show ?R by (intro yes)
  next
    case (enter now fdlist fd tmo)
    show ?R
    proof (cases sw)
      case True
      then obtain ep h where h: "InsertIoWait (fr_curr_thread f) ((epoll_prepare now fdlist fd tmo f)\<lparr>fr_ep := ep\<rparr>) = Some h"
        "ThreadSchdule h = Some g"
        using enter(2) cn by (auto simp: EpollSchedule_enter_def Let_def split: bind_splits prod.splits if_splits)
      have "fr_runlist h = fr_runlist f @ []" using run_unchanged(3) [OF h(1)] by simp
      with True h(2) show ?R by (intro yes)
    next
      case False
      then have "fr_runlist g = fr_runlist f @ []"
        using enter(2) cn by (auto simp: EpollSchedule_enter_def Let_def split: bind_splits prod.splits if_splits)
      with False show ?R by (rule no)
    qed
  next
    case (leave r)
    then show ?R by (auto simp: EpollSchedule_leave_def Let_def)
  next
    case (create e entry args p)
    show ?R using create(1) CreateThread_run [OF create(3)] by (intro no) simp_all
  next
    case (exec_all tasks entry r)
    obtain ok subs f1 where cr: "create_subs c entry tasks f = (ok, subs, f1)" by (metis surj_pair)
    let ?s = "start_subs (fr_curr_thread f) subs f1"
    obtain new where new: "fr_runlist ?s = fr_runlist f @ new"
      using start_subs_run create_subs_run [OF cr] by metis
    show ?R
    proof (cases "tasks = [] \<or> \<not> ok")
      case True
      then have "\<not> sw" "fr_runlist g = fr_runlist f @ []"
        using exec_all(1,5) cr create_subs_run [OF cr]
        by (auto simp: mt_exec_all_task_def dest: free_subs_run split: if_splits bind_splits)
      then show ?R by (rule no)
    next
      case False
      then have w: "sw" "Thread_Wait ?s = Some g"
        using exec_all(1,5) cr by (auto simp: mt_exec_all_task_def split: bind_splits)
      have "fr_curr_thread ?s = fr_curr_thread f"
        using start_subs_ids [OF create_subs_ids [OF cr]] by (simp add: same_ids_def)
      then obtain h where "ThreadSchdule h = Some g" "fr_runlist h = fr_runlist f @ new"
        using w(2) cn new by (auto simp: Thread_Wait_def SchedulePend_def run_unchanged(4) split: bind_splits)
      with w(1) show ?R by (intro yes)
    qed
  next
    case finish
    then obtain f1 f2 where f1: "(if IsSubThread (fr_threads f (fr_curr_thread f)) then WakeupParent (fr_curr_thread f) f else Some f) = Some f1"
      "ScheduleReclaim c f1 = Some f2" "ThreadSchdule f2 = Some g"
      by (auto simp: Run_end_def split: bind_splits)
    obtain new where "fr_runlist f1 = fr_runlist f @ new" using f1(1) WakeupParent_run by (auto split: if_splits)
    then have "fr_runlist f2 = fr_runlist f @ new" using f1(2) by (auto simp: ScheduleReclaim_def dest: run_unchanged(1) split: if_splits)
    with f1(3) finish(1) [THEN iffD2, OF TrueI] show ?R by (intro yes)
  next
    case (daemon wait ntf now later)
    obtain f3 new where "ThreadSchdule f3 = Some g" "fr_runlist f3 = fr_runlist f @ new"
      by (rule daemon_turn_cases [OF inv daemon(2,3)]) (auto intro: that)
    with daemon(1) [THEN iffD2, OF TrueI] show ?R by (intro yes)
  qed
qed

section \<open>The start of the framework\<close>

text \<open>The addresses of the threads \<open>InitialPool\<close> creates.\<close>

definition pool_new :: "pool_conf \<Rightarrow> new_thread list \<Rightarrow> ptr list" where
  "pool_new c es = map fst (filter (\<lambda>(p, cl, mm). p \<noteq> NULL \<and> fst (Initial cl mm (MicroThread_init (default_stack_size c) NORMAL))) es)"

definition pooled :: "micro_thread \<Rightarrow> bool" where
  "pooled t \<longleftrightarrow> th_stack t \<noteq> None \<and> (\<forall>g. HasFlag g t \<longleftrightarrow> g = FREE_LIST) \<and> th_type t = NORMAL \<and> th_sub_list t = []"

text \<open>
  What \<open>InitFrame\<close> relies on: no thread is allocated, the memory of the heap is clear of flags, and
  \<open>new\<close> returns a fresh object each time. The sleep queue starts with room for 100000 threads.
\<close>

definition boot_ok :: "pool_conf \<Rightarrow> init_env \<Rightarrow> 'k mt_frame \<Rightarrow> bool" where
  "boot_ok c e m \<longleftrightarrow> fr_live m = [] \<and> (\<forall>p g. \<not> HasFlag g (fr_threads m p)) \<and> default_thread_num c < 100000 \<and>
     distinct (ie_primo e # pool_new c (take (default_thread_num c) (ie_threads e)))"

lemma Initial_pooled:
  "Initial cl mm (MicroThread_init n NORMAL) = (True, t) \<Longrightarrow> pooled (SetFlag FREE_LIST t)"
proof -
  assume "Initial cl mm (MicroThread_init n NORMAL) = (True, t)"
  then obtain st where t: "t = (MicroThread_init n NORMAL)\<lparr>th_stack := Some st\<rparr>"
    by (auto simp: Initial_def InitStack_def Let_def MicroThread_init_def split: if_splits option.splits)
  have "\<not> HasFlag g t" for g by (simp add: t HasFlag_def MicroThread_init_def)
  then show ?thesis by (simp add: pooled_def) (simp add: t MicroThread_init_def)
qed

lemma pool_loop_eq:
  "\<exists>th. pool_loop c es f = f\<lparr>fr_threads := th, fr_live := rev (pool_new c es) @ fr_live f, fr_freelist := fr_freelist f @ pool_new c es\<rparr> \<and>
     (\<forall>p. if p \<in> set (pool_new c es) then pooled (th p) else th p = fr_threads f p)"
proof (induction es arbitrary: f)
  case Nil
  then show ?case by (intro exI [of _ "fr_threads f"]) (simp add: pool_new_def)
next
  case (Cons e es)
  obtain p cl mm where e: "e = (p, cl, mm)" by (cases e)
  let ?i = "Initial cl mm (MicroThread_init (default_stack_size c) NORMAL)"
  show ?case
  proof (cases "p \<noteq> NULL \<and> fst ?i")
    case False
    then have "pool_loop c (e # es) f = pool_loop c es f" "pool_new c (e # es) = pool_new c es"
      by (auto simp: e pool_new_def split: prod.splits bool.splits)
    then show ?thesis using Cons.IH [of f] by simp
  next
    case True
    then obtain t where t: "?i = (True, t)" by (metis prod.collapse)
    let ?f = "f\<lparr>fr_threads := (fr_threads f)(p := SetFlag FREE_LIST t), fr_live := p # fr_live f, fr_freelist := fr_freelist f @ [p]\<rparr>"
    have eq: "pool_loop c (e # es) f = pool_loop c es ?f" "pool_new c (e # es) = p # pool_new c es"
      using True t by (auto simp: e pool_new_def)
    obtain th where th: "pool_loop c es ?f = ?f\<lparr>fr_threads := th, fr_live := rev (pool_new c es) @ fr_live ?f,
        fr_freelist := fr_freelist ?f @ pool_new c es\<rparr>"
      "\<forall>q. if q \<in> set (pool_new c es) then pooled (th q) else th q = fr_threads ?f q" using Cons.IH [of ?f] by blast
    have "pooled (th p)" using th(2) [rule_format, of p] Initial_pooled [OF t] by (simp split: if_splits)
    then show ?thesis unfolding eq
      by (intro exI [of _ th]) (use th in \<open>auto split: if_splits\<close>)
  qed
qed

text \<open>The framework that \<open>InitFrame\<close> leaves: the daemon is the first thread of the pool.\<close>

lemma InitFrame_stages:
  assumes ini: "InitFrame c e dr n f0 = Some (True, f)"
  obtains ep f2 h tm d f5 where "InitialPool c (ie_threads e) n (f0\<lparr>fr_ep := ep\<rparr>) = (True, f2)"
    "h = snd (HeapResize (ie_malloc_heap e) (n * 2) (fr_sleeplist f2))" "fst (HeapResize (ie_malloc_heap e) (n * 2) (fr_sleeplist f2)) \<ge> 0"
    "AllocThread c (ie_daemon e) (f2\<lparr>fr_sleeplist := h, fr_timer := tm\<rparr>) = (d, f5)" "d \<noteq> NULL" "ie_primo e \<noteq> NULL"
    "f = (upd d (\<lambda>t. SetSartFunc (fst dr) (snd dr) (SetState RUNABLE (SetType DAEMON t))) (f5\<lparr>fr_daemon := d\<rparr>))
       \<lparr>fr_primo := ie_primo e,
        fr_threads := (fr_threads (upd d (\<lambda>t. SetSartFunc (fst dr) (snd dr) (SetState RUNABLE (SetType DAEMON t))) (f5\<lparr>fr_daemon := d\<rparr>)))
          (ie_primo e := SetState RUNNING (MicroThread_init (default_stack_size c) PRIMORDIAL)),
        fr_live := ie_primo e # fr_live f5, fr_curr_thread := ie_primo e, fr_last_clock := ie_now e, fr_iolist := [], fr_pend_list := []\<rparr>"
proof -
  obtain rc ep where ep: "InitEpoll (ie_epoll_create e) (ie_new_refs e) (ie_calloc_evts e) n (fr_ep f0) = (rc, ep)" by (metis surj_pair)
  obtain ok f2 where f2: "InitialPool c (ie_threads e) n (f0\<lparr>fr_ep := ep\<rparr>) = (ok, f2)" by (metis surj_pair)
  obtain rh h where h: "HeapResize (ie_malloc_heap e) (n * 2) (fr_sleeplist f2) = (rh, h)" by (metis surj_pair)
  let ?tm = "if ie_new_timer e then Some (CTimerMng_init (word_of_int (n * 2))) else None"
  obtain d f5 where d: "AllocThread c (ie_daemon e) (f2\<lparr>fr_sleeplist := h, fr_timer := ?tm\<rparr>) = (d, f5)" by (metis surj_pair)
  note ini' = ini [unfolded InitFrame_def Let_def ep prod.case f2 h d]
  have "\<not> rc < 0" "ok" "\<not> rh < 0" "ie_new_timer e" "d \<noteq> NULL" "ie_primo e \<noteq> NULL"
    using ini' by (simp_all split: if_splits bind_splits)
  with ini' that [of ep f2 h ?tm d f5] f2 h d show thesis by simp
qed

lemma HeapResize_empty:
  assumes "hp_count s = 0" "heap_wf s" "h = snd (HeapResize ok sz s)" "fst (HeapResize ok sz s) \<ge> 0"
  shows "heap_wf h" "heap_entries h = {}" "hp_count h = 0" "hp_max s \<le> hp_max h" "sz \<le> int (hp_max h)"
  using assms HeapResize_wf [OF assms(2), of ok sz] by (auto simp: HeapResize_def heap_entries_def split: if_splits)

text \<open>The framework that \<open>InitFrame\<close> leaves: the daemon is the first thread of the pool.\<close>

lemma InitFrame_inv:
  assumes ini: "InitFrame c e dr n (MtFrame_init m) = Some (True, f)" and boot: "boot_ok c e m"
  shows "frame_inv c f \<and> fr_runlist f = [] \<and> hp_count (fr_sleeplist f) = 0"
proof -
  obtain ep f2 h tm d f5 where st: "InitialPool c (ie_threads e) n ((MtFrame_init m)\<lparr>fr_ep := ep\<rparr>) = (True, f2)"
    "h = snd (HeapResize (ie_malloc_heap e) (n * 2) (fr_sleeplist f2))" "fst (HeapResize (ie_malloc_heap e) (n * 2) (fr_sleeplist f2)) \<ge> 0"
    "AllocThread c (ie_daemon e) (f2\<lparr>fr_sleeplist := h, fr_timer := tm\<rparr>) = (d, f5)" "ie_primo e \<noteq> NULL"
    and f: "f = (upd d (\<lambda>t. SetSartFunc (fst dr) (snd dr) (SetState RUNABLE (SetType DAEMON t))) (f5\<lparr>fr_daemon := d\<rparr>))
       \<lparr>fr_primo := ie_primo e,
        fr_threads := (fr_threads (upd d (\<lambda>t. SetSartFunc (fst dr) (snd dr) (SetState RUNABLE (SetType DAEMON t))) (f5\<lparr>fr_daemon := d\<rparr>)))
          (ie_primo e := SetState RUNNING (MicroThread_init (default_stack_size c) PRIMORDIAL)),
        fr_live := ie_primo e # fr_live f5, fr_curr_thread := ie_primo e, fr_last_clock := ie_now e, fr_iolist := [], fr_pend_list := []\<rparr>"
    by (rule InitFrame_stages [OF ini]) (rule that)
  define new where "new = pool_new c (take (default_thread_num c) (ie_threads e))"
  obtain th where th: "pool_loop c (take (default_thread_num c) (ie_threads e)) ((MtFrame_init m)\<lparr>fr_ep := ep\<rparr>) =
      (MtFrame_init m)\<lparr>fr_ep := ep, fr_threads := th, fr_live := rev new, fr_freelist := new\<rparr>"
    "\<forall>p. if p \<in> set new then pooled (th p) else th p = fr_threads m p"
    using pool_loop_eq [of c "take (default_thread_num c) (ie_threads e)" "(MtFrame_init m)\<lparr>fr_ep := ep\<rparr>"] boot
    by (auto simp: new_def boot_ok_def MtFrame_init_def)
  have f2: "f2 = (MtFrame_init m)\<lparr>fr_ep := ep, fr_threads := th, fr_live := rev new, fr_freelist := new,
      fr_total_num := int (length new), fr_max_num := n, fr_use_num := 0\<rparr>" and "new \<noteq> []"
    using st(1) th(1) by (auto simp: InitialPool_def Let_def)
  then obtain ps where new: "new = d # ps" and f5: "f5 = (upd d (UnsetFlag FREE_LIST) (f2\<lparr>fr_sleeplist := h, fr_timer := tm\<rparr>))\<lparr>fr_freelist := ps, fr_use_num := 1\<rparr>"
    using st(4) by (auto simp: AllocThread_def MtFrame_init_def split: list.splits)
  have s2: "fr_sleeplist f2 = HeapList_init 100000" by (simp add: f2 MtFrame_init_def)
  note h = HeapResize_empty [OF _ _ st(2,3), unfolded s2, OF HeapList_init_fields(1) HeapList_init_wf]
  have "NULL \<notin> set new" "length new \<le> default_thread_num c"
    by (auto simp: new_def pool_new_def intro!: le_trans [OF length_filter_le])
  then have ids: "distinct (ie_primo e # d # ps)" "NULL \<notin> set (d # ps)" "Suc (length ps) \<le> default_thread_num c" "default_thread_num c < 100000"
    using boot new by (simp_all add: boot_ok_def flip: new_def)
  have th': "pooled (th p)" if "p \<in> set (d # ps)" for p using th(2) that by (simp add: new)
  have noflag: "\<not> HasFlag g (th p)" if "p \<notin> set (d # ps)" for p g using th(2) that boot by (simp add: new boot_ok_def)
  have v: "fr_live f = ie_primo e # rev ps @ [d]" "fr_freelist f = ps" "fr_daemon f = d" "fr_primo f = ie_primo e" "fr_curr_thread f = ie_primo e"
    "fr_runlist f = []" "fr_iolist f = []" "fr_pend_list f = []" "fr_sleeplist f = h" "fr_total_num f = int (Suc (length ps))" "fr_use_num f = 1"
    "fr_max_num f = n"
    by (simp_all add: f f5 f2 new MtFrame_init_def)
  have t: "fr_threads f p = (if p = ie_primo e then SetState RUNNING (MicroThread_init (default_stack_size c) PRIMORDIAL)
      else if p = d then SetSartFunc (fst dr) (snd dr) (SetState RUNABLE (SetType DAEMON (UnsetFlag FREE_LIST (th d)))) else th p)" for p
    by (simp add: f f5 f2)
  have "placed {ie_primo e, d} f p" for p
    using th' [of p] noflag [of p] h(2) ids(1) unfolding placed_def v t by (auto simp: pooled_def)
  moreover have "lists_ok f" using ids(1,2) st(5) h(1) by (auto simp: lists_ok_def v)
  moreover have "counts_ok c f" using ids(3,4) h(4,5) by (auto simp: counts_ok_def v HeapList_init_fields)
  moreover have "stacks_ok f" using ids(1) th' by (auto simp: stacks_ok_def v t pooled_def)
  moreover have "families {} {} f"
    using th' ids(1) unfolding families_def family_def v t by (auto simp: pooled_def MicroThread_init_def)
  ultimately show ?thesis using h(3) by (simp add: frame_inv_def frame_core_def v)
qed

lemma sched_run_inv: "sched_run c ctl f tr g \<Longrightarrow> frame_inv c f \<Longrightarrow> frame_inv c g"
  by (induction rule: sched_run.induct) (auto intro: sched_step_inv)

lemma sched_run_append:
  "sched_run c ctl f tr g \<Longrightarrow> sched_run c ctl g us h \<Longrightarrow> sched_run c ctl f (tr @ us) h"
  by (induction rule: sched_run.induct) (auto intro: sched_run.call sched_run.switch)

lemma boot_run_inv:
  assumes "boot_ok c e m" "InitFrame c e dr n (MtFrame_init m) = Some (True, f)" "sched_run c ctl f tr g"
  shows "frame_inv c g"
  using sched_run_inv [OF assms(3)] InitFrame_inv [OF assms(2,1)] by blast

lemma sched_run_order:
  assumes "sched_run c ctl f tr g" "frame_inv c f" "i < length (fr_runlist f)" "i < length tr"
  shows "tr ! i = fr_runlist f ! i"
  using assms
proof (induction arbitrary: i rule: sched_run.induct)
  case (call f g tr h)
  obtain new where "fr_runlist g = fr_runlist f @ new" using sched_step_run [OF call(4,1)] by auto
  with call.IH [OF sched_step_inv [OF call(1,4)], of i] call.prems show ?case by (simp add: nth_append)
next
  case (switch f g tr h)
  obtain new where n: "case fr_runlist f @ new of [] \<Rightarrow> fr_runlist g = [] | p # ps \<Rightarrow> fr_runlist g = ps \<and> fr_curr_thread g = p"
    using sched_step_run [OF switch(4,1)] by auto
  obtain p ps where "fr_runlist f = p # ps" using switch.prems(2) by (cases "fr_runlist f") auto
  with n switch.IH [OF sched_step_inv [OF switch(1,4)], of "i - 1"] switch.prems show ?case
    by (cases i) (simp_all add: nth_append)
qed simp

section \<open>A small framework\<close>

text \<open>
  A pool of two threads. The main thread \<open>20\<close> creates a thread (\<open>demo1\<close>) and sleeps (\<open>demo2\<close>); or it
  runs one task in a sub-thread and waits for it (\<open>demo3\<close>).
\<close>

definition demo_conf :: pool_conf where
  "demo_conf = \<lparr>default_thread_num = 2, default_stack_size = 4096\<rparr>"
definition demo_env :: init_env where
  "demo_env = \<lparr>ie_epoll_create = 3, ie_new_refs = True, ie_calloc_evts = True,
     ie_threads = [(10, True, \<lambda>_. Some 65536), (11, True, \<lambda>_. Some 131072)], ie_malloc_heap = True, ie_new_timer = True,
     ie_daemon = (12, True, \<lambda>_. None), ie_primo = 20, ie_now = 1000\<rparr>"
definition demo_mem :: "unit mt_frame" where
  "demo_mem = \<lparr>fr_ep = EpollProxy_init (\<lambda>_. EpollerObj_init 0) (), fr_threads = (\<lambda>_. MicroThread_init 0 NORMAL), fr_live = [],
     fr_freelist = [], fr_total_num = 0, fr_use_num = 0, fr_max_num = 0, fr_runlist = [], fr_iolist = [], fr_pend_list = [],
     fr_sleeplist = HeapList_init 100000, fr_daemon = NULL, fr_primo = NULL, fr_curr_thread = NULL, fr_last_clock = 0, fr_waitnum = 0,
     fr_timer = None, fr_check_time = 0\<rparr>"
definition demo_ctl :: "unit epoll_ctl" where
  "demo_ctl op fd evs k = ((0, 0), ())"
definition demo0 :: "unit mt_frame" where
  "demo0 = snd (the (InitFrame demo_conf demo_env (1, 2) 4 (MtFrame_init demo_mem)))"
definition demo1 :: "unit mt_frame" where
  "demo1 = snd (CreateThread demo_conf (12, True, \<lambda>_. None) 5 6 True demo0)"
definition demo2 :: "unit mt_frame" where
  "demo2 = the (MtFrame_sleep 1000 5 demo1)"

definition demo3 :: "unit mt_frame" where
  "demo3 = snd (the (mt_exec_all_task demo_conf 5 [(6, 12, True, \<lambda>_. None)] demo0))"

lemma demo_boot: "boot_ok demo_conf demo_env demo_mem"
  by (simp add: boot_ok_def demo_conf_def demo_env_def demo_mem_def pool_new_def Initial_def InitStack_def MicroThread_init_def HasFlag_def Let_def)

lemma demo_start: "InitFrame demo_conf demo_env (1, 2) 4 (MtFrame_init demo_mem) = Some (True, demo0)"
  unfolding demo0_def
  by (simp add: InitFrame_def demo_conf_def demo_env_def MtFrame_init_def InitEpoll_def InitialPool_def HeapResize_def HeapList_init_fields
      Initial_def InitStack_def MicroThread_init_def AllocThread_def Let_def)

lemma demo0_view: "fr_freelist demo0 = [11]" "fr_runlist demo0 = []" "fr_curr_thread demo0 = 20" "fr_daemon demo0 = 10" "fr_live demo0 = [20, 11, 10]"
  "fr_sleeplist demo0 = HeapList_init 100000" "fr_pend_list demo0 = []" "fr_iolist demo0 = []"
  unfolding demo0_def
  by (simp_all add: InitFrame_def demo_conf_def demo_env_def MtFrame_init_def InitEpoll_def InitialPool_def HeapResize_def HeapList_init_fields
      Initial_def InitStack_def MicroThread_init_def AllocThread_def demo_mem_def Let_def)

lemma demo1_view: "fr_runlist demo1 = [11]" "fr_curr_thread demo1 = 20" "fr_daemon demo1 = 10" "CreateThread demo_conf (12, True, \<lambda>_. None) 5 6 True demo0 = (11, demo1)"
  "fr_sleeplist demo1 = HeapList_init 100000"
  unfolding demo1_def by (simp_all add: CreateThread_def AllocThread_def demo0_view InsertRunable_def Let_def)

lemma demo_runs: "sched_run demo_conf demo_ctl demo0 [] demo1" "sched_run demo_conf demo_ctl demo1 [11] demo2" "fr_curr_thread demo2 = 11"
proof -
  have "sched_step demo_conf demo_ctl False demo0 demo1"
    by (rule sched_step.create [OF _ demo1_view(4)]) (simp add: demo0_view)
  then show "sched_run demo_conf demo_ctl demo0 [] demo1" by (intro sched_run.call [OF _ sched_run.stop])
  have m: "MtFrame_sleep 1000 5 demo1 = Some demo2"
    unfolding demo2_def by (simp add: MtFrame_sleep_def Thread_sleep_def ScheduleSleep_def demo1_view ThreadSchdule_def RemoveRunable_def InsertSleep_def Let_def)
  then have "ThreadSchdule (InsertSleep 20 (upd 20 (SetWakeupTime (1000 + word_of_int 5)) demo1)) = Some demo2"
    by (simp add: MtFrame_sleep_def Thread_sleep_def ScheduleSleep_def demo1_view)
  from ThreadSchdule_runlist [OF this] show c: "fr_curr_thread demo2 = 11" by (simp add: InsertSleep_def Let_def demo1_view)
  have "sched_step demo_conf demo_ctl True demo1 demo2" by (rule sched_step.sleep [OF _ m]) (simp add: demo1_view)
  from sched_run.switch [OF this sched_run.stop] show "sched_run demo_conf demo_ctl demo1 [11] demo2" by (simp add: c)
qed

lemma demo3_view: "mt_exec_all_task demo_conf 5 [(6, 12, True, \<lambda>_. None)] demo0 = Some (None, demo3)"
  "fr_pend_list demo3 = [20]" "fr_curr_thread demo3 = 11" "fr_live demo3 = [20, 11, 10]"
  unfolding demo3_def
  by (simp_all add: mt_exec_all_task_def CreateThread_def AllocThread_def demo0_view InsertRunable_def AddSubThread_def
      Thread_Wait_def SchedulePend_def InsertPend_def ThreadSchdule_def RemoveRunable_def Let_def)

lemma demo3_run: "sched_run demo_conf demo_ctl demo0 [11] demo3"
proof -
  have "sched_step demo_conf demo_ctl True demo0 demo3"
    using sched_step.exec_all [of demo0 "[(6, 12, True, \<lambda>_. None)]" demo_conf 5 None demo3 demo_ctl] demo3_view(1)
    by (simp add: demo0_view)
  from sched_run.switch [OF this sched_run.stop] show ?thesis by (simp add: demo3_view)
qed

lemma demo2_sleep: "asleep demo2 = {20}" "heap_ord (wakeup demo2) (fr_sleeplist demo2)" "wakeup demo2 20 = 1005" "fr_runlist demo2 = []"
proof -
  let ?f = "upd 20 (SetWakeupTime (1000 + word_of_int 5)) demo1"
  have d: "demo2 = the (ThreadSchdule (InsertSleep 20 ?f))"
    by (simp add: demo2_def MtFrame_sleep_def Thread_sleep_def ScheduleSleep_def demo1_view)
  obtain w where h: "fr_sleeplist demo2 = snd (HeapPush w 20 (HeapList_init 100000))"
    by (auto simp: d ThreadSchdule_def RemoveRunable_def InsertSleep_def Let_def demo1_view)
  note q = HeapPush_queued [OF HeapList_init_wf, of 20 100000, unfolded HeapList_init_entries HeapFull_def HeapList_init_fields, of w]
  show "asleep demo2 = {20}" using q(3) by (simp add: h)
  have "hp_count (fr_sleeplist demo2) = 1" using q(4) by (simp add: h)
  then show "heap_ord (wakeup demo2) (fr_sleeplist demo2)" by (auto simp: heap_ord_def tree_ord_def)
  show "wakeup demo2 20 = 1005" "fr_runlist demo2 = []"
    by (simp_all add: d ThreadSchdule_def RemoveRunable_def InsertSleep_def Let_def demo1_view)
qed

section \<open>Properties\<close>

text \<open>
  C2: from the start of the framework, whatever the threads do (sleep, wait for descriptors or a
  notification, create threads, wait for sub-threads, end) and whatever epoll reports, every
  allocated thread is in exactly one of the run list, the sleep queue, the pending list and the
  free list, or it is the running thread or the daemon; nothing else is in a list; a thread that
  waits for a descriptor is also in the sleep queue; the flag bits of every allocated thread say
  which lists it is in; the counters of the pool are the sizes of its lists.
\<close>

theorem sched_lists_partition:
  assumes "boot_ok c e m" "InitFrame c e dr n (MtFrame_init m) = Some (True, f)" "sched_run c ctl f tr g"
  shows "length (filter (\<lambda>S. p \<in> S) [set (fr_runlist g), asleep g, set (fr_pend_list g), set (fr_freelist g), {fr_curr_thread g, fr_daemon g}])
      = (if p \<in> set (fr_live g) then 1 else 0) \<and>
    (p \<in> set (fr_iolist g) \<longrightarrow> p \<in> asleep g) \<and>
    (p \<in> set (fr_live g) \<longrightarrow>
      (flag_of g RUN_LIST p \<longleftrightarrow> p \<in> set (fr_runlist g)) \<and> (flag_of g SLEEP_LIST p \<longleftrightarrow> p \<in> asleep g) \<and>
      (flag_of g IO_LIST p \<longleftrightarrow> p \<in> set (fr_iolist g)) \<and> (flag_of g PEND_LIST p \<longleftrightarrow> p \<in> set (fr_pend_list g)) \<and>
      (flag_of g FREE_LIST p \<longleftrightarrow> p \<in> set (fr_freelist g))) \<and>
    fr_total_num g + 1 = int (length (fr_live g)) \<and> fr_use_num g = fr_total_num g - int (length (fr_freelist g)) \<and>
    distinct (fr_live g) \<and> distinct (fr_runlist g) \<and> distinct (fr_pend_list g) \<and> distinct (fr_freelist g)"
proof -
  have "frame_core c {fr_curr_thread g, fr_daemon g} g" using boot_run_inv [OF assms] by (simp add: frame_inv_def)
  note pl = frame_coreD(1) [OF this, of p] and rest = frame_coreD(2,3) [OF this]
  have "length (filter (\<lambda>S. p \<in> S) [set (fr_runlist g), asleep g, set (fr_pend_list g), set (fr_freelist g), {fr_curr_thread g, fr_daemon g}])
      = (if p \<in> set (fr_live g) then 1 else 0)"
    using pl by (auto simp: placed_def)
  with pl rest show ?thesis by (simp add: placed_def counts_ok_def lists_ok_def)
qed

theorem sched_lists_partition_witness:
  "length (filter (\<lambda>S. 11 \<in> S) [set (fr_runlist demo1), asleep demo1, set (fr_pend_list demo1), set (fr_freelist demo1),
     {fr_curr_thread demo1, fr_daemon demo1}]) = (if 11 \<in> set (fr_live demo1) then 1 else 0) \<and> fr_runlist demo1 = [11]"
  using sched_lists_partition [OF demo_boot demo_start demo_runs(1), of 11] demo1_view(1) by blast

text \<open>
  C4: in the same runs the framework never runs into undefined behaviour: a thread other than the
  daemon can always sleep, wait for a notification, wait for descriptors, run sub-threads and (the
  main thread apart) end; the daemon's dispatch of any events and its \<open>WakeupTimeout\<close> always return.
\<close>

theorem sched_no_fault:
  assumes "boot_ok c e m" "InitFrame c e dr n (MtFrame_init m) = Some (True, f)" "sched_run c ctl f tr g"
  shows "(fr_curr_thread g \<noteq> fr_daemon g \<longrightarrow>
      MtFrame_sleep now ms g \<noteq> None \<and> WaitNotify now tmo g \<noteq> None \<and> EpollSchedule_enter ctl now fdlist fd ms g \<noteq> None \<and>
      (distinct (map (\<lambda>t. fst (snd t)) tasks) \<and> (\<forall>t \<in> set tasks. fst (snd t) \<notin> set (fr_live g)) \<longrightarrow> mt_exec_all_task c entry tasks g \<noteq> None) \<and>
      (fr_curr_thread g \<noteq> fr_primo g \<longrightarrow> Run_end c g \<noteq> None)) \<and>
    EpollDispath ctl wait now g \<noteq> None \<and> WakeupTimeout now g \<noteq> None"
proof -
  have inv: "frame_inv c g" by (rule boot_run_inv [OF assms])
  then have core: "frame_core c {fr_curr_thread g, fr_daemon g} g" by (simp add: frame_inv_def)
  have "MtFrame_sleep now ms g \<noteq> None \<and> WaitNotify now tmo g \<noteq> None \<and> EpollSchedule_enter ctl now fdlist fd ms g \<noteq> None" if "fr_curr_thread g \<noteq> fr_daemon g"
    using MtFrame_sleep_inv [OF inv that] WaitNotify_inv [OF inv that] EpollSchedule_enter_inv [OF inv that] by (metis option.distinct(1))
  moreover have "mt_exec_all_task c entry tasks g \<noteq> None"
    if "fr_curr_thread g \<noteq> fr_daemon g" "distinct (map (\<lambda>t. fst (snd t)) tasks)" "\<forall>t \<in> set tasks. fst (snd t) \<notin> set (fr_live g)"
    by (rule mt_exec_all_task_inv [OF inv that, of entry]) simp
  moreover have "Run_end c g \<noteq> None" if "fr_curr_thread g \<noteq> fr_daemon g" "fr_curr_thread g \<noteq> fr_primo g"
    by (rule Run_end_inv [OF inv that]) simp
  moreover have "EpollDispath ctl wait now g \<noteq> None"
    using EpollRcvEventList_keeps [OF core, of ctl] by (auto simp: EpollDispath_def Let_def)
  moreover have "WakeupTimeout now g \<noteq> None"
    using wakeup_loop_keeps [OF core, of now] by (auto simp: WakeupTimeout_def)
  ultimately show ?thesis by blast
qed

theorem sched_no_fault_witness:
  "MtFrame_sleep 1000 5 demo1 \<noteq> None \<and> WakeupTimeout 7 demo1 \<noteq> None"
  using sched_no_fault [OF demo_boot demo_start demo_runs(1), of 1000 5 0 None 0 "[]" 0 "\<lambda>_. []"]
    sched_no_fault [OF demo_boot demo_start demo_runs(1), of 7 5 0 None 0 "[]" 0 "\<lambda>_. []"] demo1_view(2,3) by simp

text \<open>
  C11: the run list is served in order and without overtaking: in any run of the scheduler from a
  reachable state, the thread at position \<open>i\<close> of the run list is the one that gets control at the
  switch number \<open>i\<close>, whatever is made runnable in the meantime.
\<close>

theorem sched_fifo:
  assumes "boot_ok c e m" "InitFrame c e dr n (MtFrame_init m) = Some (True, f)" "sched_run c ctl f tr0 g"
    "sched_run c ctl g tr h" "i < length (fr_runlist g)" "i < length tr"
  shows "tr ! i = fr_runlist g ! i"
  by (rule sched_run_order [OF assms(4) boot_run_inv [OF assms(1-3)] assms(5,6)])

theorem sched_fifo_witness:
  "sched_run demo_conf demo_ctl demo1 [11] demo2 \<and> [11] ! 0 = fr_runlist demo1 ! 0"
  using sched_fifo [OF demo_boot demo_start demo_runs(1,2), of 0] demo_runs(2) demo1_view(1) by simp

text \<open>
  C12: a thread waits in the pending list as long as, and only while, it has sub-threads: in a
  reachable state the allocated threads with sub-threads are exactly the pending ones (so no thread
  that runs or is runnable has any), and every sub-thread of such a thread is allocated, is not in the
  free list and has it as its parent.
\<close>

theorem sched_join:
  assumes "boot_ok c e m" "InitFrame c e dr n (MtFrame_init m) = Some (True, f)" "sched_run c ctl f tr g"
    "p \<in> set (fr_live g)"
  shows "(p \<in> set (fr_pend_list g) \<longleftrightarrow> th_sub_list (fr_threads g p) \<noteq> []) \<and>
    (p \<in> set (fr_runlist g) \<or> p = fr_curr_thread g \<longrightarrow> th_sub_list (fr_threads g p) = []) \<and>
    (\<forall>q \<in> set (th_sub_list (fr_threads g p)). q \<in> set (fr_live g) \<and> q \<notin> set (fr_freelist g) \<and> th_parent (fr_threads g q) = p)"
proof -
  have inv: "frame_inv c g" by (rule boot_run_inv [OF assms(1-3)])
  then have "placed {fr_curr_thread g, fr_daemon g} g p" by (simp add: frame_inv_def frame_core_def)
  moreover have "family {} {} g p" using inv assms(4) by (simp add: frame_inv_def families_def)
  ultimately show ?thesis by (auto simp: placed_def family_def)
qed

theorem sched_join_witness:
  "20 \<in> set (fr_pend_list demo3) \<and> th_sub_list (fr_threads demo3 20) \<noteq> [] \<and> th_sub_list (fr_threads demo3 11) = []"
  using sched_join [OF demo_boot demo_start demo3_run, of 20] sched_join [OF demo_boot demo_start demo3_run, of 11]
    demo3_view by simp

text \<open>
  C7: in every state reached from the start of the framework, \<open>WakeupTimeout\<close> ends. It makes runnable
  only sleeping threads whose wake-up time is not after the clock, each once, and appends them to the
  run list in the order in which it takes them off the sleep queue; the others stay asleep, and the
  thread at the top of the queue is then not due. If the sleep queue is in heap order, which
  \<open>RemoveIoWait\<close> of a thread in its middle can break, the threads it wakes are exactly the ones that
  are due, by increasing wake-up time.
\<close>

theorem wakeup_timeout_correct:
  assumes "boot_ok c e m" "InitFrame c e dr n (MtFrame_init m) = Some (True, f0)" "sched_run c ctl f0 tr f"
  shows "\<exists>woken g. WakeupTimeout now f = Some (woken, g) \<and> set woken \<subseteq> {p \<in> asleep f. wakeup f p \<le> now} \<and>
    distinct woken \<and> fr_runlist g = fr_runlist f @ woken \<and> asleep g = asleep f - set woken \<and>
    (asleep g \<noteq> {} \<longrightarrow> now < wakeup f (HeapTop (fr_sleeplist g))) \<and>
    (heap_ord (wakeup f) (fr_sleeplist f) \<longrightarrow>
       set woken = {p \<in> asleep f. wakeup f p \<le> now} \<and> sorted (map (wakeup f) woken))"
proof -
  have wf: "sleep_wf f" by (rule frame_inv_sleep [OF boot_run_inv [OF assms]])
  obtain woken g where w: "wakeup_loop now f = Some (woken, g)" "set woken \<subseteq> sleep_pool.due now f" "distinct woken"
    "sleep_wf g" "HeapTop (fr_sleeplist g) = NULL \<or> now < wakeup g (HeapTop (fr_sleeplist g))"
    using sleep_pool.drain_sound [OF wakeup_loop_eq InsertRunable_quiet(1) wf] by blast
  have tr: "fr_runlist g = fr_runlist f @ woken \<and> asleep g = asleep f - set woken \<and> wakeup g = wakeup f"
    by (rule sleep_pool.drain_trace [where log = fr_runlist, OF wakeup_loop_eq InsertRunable_quiet(1) _ _ _ wf w(1)])
      (auto simp: fun_eq_iff InsertRunable_def sleep_remove_fields)
  have top: "now < wakeup f (HeapTop (fr_sleeplist g))" if "asleep g \<noteq> {}"
    using w(5) sleep_pool.top_entry [OF w(4) that] fun_cong [OF conjunct2 [OF conjunct2 [OF tr]]] by simp
  have "set woken = sleep_queue.due now f \<and> sorted (map (wakeup f) woken)" if "heap_ord (wakeup f) (fr_sleeplist f)"
  proof -
    have "sleep_inv f" using wf that by (simp add: sleep_inv_def)
    from sleep_queue.drain_correct [OF wakeup_loop_eq InsertRunable_quiet(2) this, of now] w(1)
    show ?thesis by (auto simp: sleep_inv_def)
  qed
  with w tr top show ?thesis unfolding WakeupTimeout_def sleep_pool.due_def by blast
qed

theorem wakeup_timeout_correct_witness:
  "\<exists>woken g. WakeupTimeout 1005 demo2 = Some (woken, g) \<and> set woken = {20} \<and> fr_runlist g = woken \<and> asleep g = {}"
proof -
  have run: "sched_run demo_conf demo_ctl demo0 [11] demo2" using sched_run_append [OF demo_runs(1,2)] by simp
  have due: "{p \<in> asleep demo2. wakeup demo2 p \<le> 1005} = {20}" by (auto simp: demo2_sleep)
  from wakeup_timeout_correct [OF demo_boot demo_start run, of 1005] demo2_sleep show ?thesis
    unfolding due by auto
qed

end
