(* ===== verification/Mt_Io.thy ===== *)
theory Mt_Io
  imports Mt_Sched
begin

text \<open>
  The input and output calls of \<open>MtFrame\<close> (\<open>micro_thread.cpp\<close>): a non-blocking system call that
  would block lets the thread wait for its descriptor and is then repeated.
\<close>

section \<open>Environment\<close>

text \<open>
  \<open>io_clock\<close> is \<open>GetLastClock\<close>, \<open>io_others\<close> what all other threads do until the thread is resumed, \<open>io_obj\<close>
  the address of the local variable \<open>epfd\<close>. The type \<open>'o\<close> is the state of the world outside the
  framework. A system call returns its result and \<open>errno\<close>.
\<close>

record ('k, 'o) io_env =
  io_ctl :: "'k epoll_ctl"
  io_clock :: "'o \<Rightarrow> u64 \<times> 'o"
  io_others :: "'k mt_frame \<Rightarrow> 'o \<Rightarrow> ('k mt_frame \<times> 'o) option"
  io_obj :: ptr

type_synonym 'o syscall = "'o \<Rightarrow> (int \<times> int) \<times> 'o"
type_synonym ('k, 'o) io_result = "(int \<times> 'k mt_frame \<times> 'o) option"

definition EINTR :: int where "EINTR = 4"
definition IO_EAGAIN :: int where "IO_EAGAIN = 11"
definition IO_EINPROGRESS :: int where "IO_EINPROGRESS = 115"
definition EISCONN :: int where "EISCONN = 106"

text \<open>\<open>(int)(now - start) > timeout\<close>.\<close>

definition io_expired :: "u64 \<Rightarrow> u64 \<Rightarrow> int \<Rightarrow> bool" where
  "io_expired start now timeout \<longleftrightarrow> sint (ucast (now - start) :: u32) > timeout"

text \<open>
  The part the loops share: a local \<open>EpollerObj\<close> for the descriptor and the thread, and
  \<open>EpollSchedule\<close> on it.
\<close>

definition io_wait ::
    "('k, 'o) io_env \<Rightarrow> (epoller_obj \<Rightarrow> epoller_obj) \<Rightarrow> int \<Rightarrow> ptr \<Rightarrow> int \<Rightarrow> 'k mt_frame \<Rightarrow> 'o \<Rightarrow> (bool \<times> 'k mt_frame \<times> 'o) option" where
  "io_wait env enable fd this timeout f w =
     (let epfd = (enable (EpollerObj_init fd))\<lparr>eo_thread := this\<rparr>;
          f0 = f\<lparr>fr_ep := (fr_ep f)\<lparr>ep_objs := (ep_objs (fr_ep f))(io_obj env := epfd)\<rparr>\<rparr>;
          (now, w1) = io_clock env w
      in do {
        (switched, f1) \<leftarrow> EpollSchedule_enter (io_ctl env) now None (io_obj env) timeout f0;
        if \<not> switched then Some (False, f1, w1)
        else do {
          (f2, w2) \<leftarrow> io_others env f1 w1;
          let (r, f3) = EpollSchedule_leave (io_ctl env) this f2;
          Some (r, f3, w2)
        }
      })"

section \<open>The calls\<close>

text \<open>The loops of \<open>sendto\<close>, \<open>accept\<close> and \<open>read\<close>: first the call, then the wait.\<close>

partial_function (option) call_loop ::
    "('k, 'o) io_env \<Rightarrow> (epoller_obj \<Rightarrow> epoller_obj) \<Rightarrow> int \<Rightarrow> ptr \<Rightarrow> u64 \<Rightarrow> int \<Rightarrow> 'o syscall \<Rightarrow> 'k mt_frame \<Rightarrow> 'o \<Rightarrow> ('k, 'o) io_result" where
  "call_loop env enable fd this start timeout sys f w =
     (let ((n, errno), w1) = sys w
      in if \<not> n < 0 then Some (n, f, w1)
         else let (now, w2) = io_clock env w1
              in if io_expired start now timeout then Some (- 1, f, w2)
                 else if errno = EINTR then call_loop env enable fd this start timeout sys f w2
                 else if errno \<noteq> IO_EAGAIN then Some (- 2, f, w2)
                 else do {
                   (ok, f3, w3) \<leftarrow> io_wait env enable fd this timeout f w2;
                   if \<not> ok then Some (- 3, f3, w3)
                   else call_loop env enable fd this start timeout sys f3 w3
                 })"

definition mt_sendto ::
    "('k, 'o) io_env \<Rightarrow> int \<Rightarrow> ptr \<Rightarrow> int \<Rightarrow> int \<Rightarrow> 'o syscall \<Rightarrow> 'k mt_frame \<Rightarrow> 'o \<Rightarrow> ('k, 'o) io_result" where
  "mt_sendto env fd msg len timeout sys f w =
     (let (start, w1) = io_clock env w; thread = fr_curr_thread f
      in if fd < 0 \<or> msg = NULL \<or> len < 1 then Some (- 10, f, w1)
         else call_loop env EnableOutput fd thread start timeout sys f w1)"

definition mt_accept ::
    "('k, 'o) io_env \<Rightarrow> int \<Rightarrow> int \<Rightarrow> 'o syscall \<Rightarrow> 'k mt_frame \<Rightarrow> 'o \<Rightarrow> ('k, 'o) io_result" where
  "mt_accept env fd timeout sys f w =
     (let (start, w1) = io_clock env w; thread = fr_curr_thread f
      in if fd < 0 then Some (- 10, f, w1)
         else call_loop env EnableInput fd thread start timeout sys f w1)"

definition mt_read ::
    "('k, 'o) io_env \<Rightarrow> int \<Rightarrow> ptr \<Rightarrow> nat \<Rightarrow> int \<Rightarrow> 'o syscall \<Rightarrow> 'k mt_frame \<Rightarrow> 'o \<Rightarrow> ('k, 'o) io_result" where
  "mt_read env fd buf nbyte timeout sys f w =
     (let (start, w1) = io_clock env w; thread = fr_curr_thread f
      in if fd < 0 \<or> buf = NULL \<or> nbyte < 1 then Some (- 10, f, w1)
         else call_loop env EnableInput fd thread start timeout sys f w1)"

partial_function (option) connect_loop ::
    "('k, 'o) io_env \<Rightarrow> int \<Rightarrow> ptr \<Rightarrow> u64 \<Rightarrow> int \<Rightarrow> 'o syscall \<Rightarrow> 'k mt_frame \<Rightarrow> 'o \<Rightarrow> ('k, 'o) io_result" where
  "connect_loop env fd this start timeout sys f w =
     (let ((n, errno), w1) = sys w
      in if \<not> n < 0 then Some (n, f, w1)
         else let (now, w2) = io_clock env w1
              in if io_expired start now timeout then Some (- 1, f, w2)
                 else if errno = EISCONN then Some (0, f, w2)
                 else if errno = EINTR then connect_loop env fd this start timeout sys f w2
                 else if errno \<noteq> IO_EINPROGRESS then Some (- 2, f, w2)
                 else do {
                   (ok, f3, w3) \<leftarrow> io_wait env EnableOutput fd this timeout f w2;
                   if \<not> ok then Some (- 3, f3, w3)
                   else connect_loop env fd this start timeout sys f3 w3
                 })"

definition mt_connect ::
    "('k, 'o) io_env \<Rightarrow> int \<Rightarrow> ptr \<Rightarrow> int \<Rightarrow> int \<Rightarrow> 'o syscall \<Rightarrow> 'k mt_frame \<Rightarrow> 'o \<Rightarrow> ('k, 'o) io_result" where
  "mt_connect env fd addr addrlen timeout sys f w =
     (let (start, w1) = io_clock env w; thread = fr_curr_thread f
      in if fd < 0 \<or> addr = NULL \<or> addrlen < 1 then Some (- 10, f, w1)
         else connect_loop env fd thread start timeout sys f w1)"

text \<open>The loops of \<open>recvfrom\<close> and \<open>recv\<close>: first the wait, then the call.\<close>

partial_function (option) recv_loop ::
    "('k, 'o) io_env \<Rightarrow> int \<Rightarrow> ptr \<Rightarrow> u64 \<Rightarrow> int \<Rightarrow> 'o syscall \<Rightarrow> 'k mt_frame \<Rightarrow> 'o \<Rightarrow> ('k, 'o) io_result" where
  "recv_loop env fd this start timeout sys f w =
     (let (now, w1) = io_clock env w
      in if io_expired start now timeout then Some (- 1, f, w1)
         else do {
           (ok, f2, w2) \<leftarrow> io_wait env EnableInput fd this timeout f w1;
           if \<not> ok then Some (- 2, f2, w2)
           else let ((n, errno), w3) = sys w2
                in if n < 0
                   then if errno = EINTR then recv_loop env fd this start timeout sys f2 w3
                        else if errno \<noteq> IO_EAGAIN then Some (- 3, f2, w3)
                        else recv_loop env fd this start timeout sys f2 w3
                   else Some (n, f2, w3)
         })"

definition mt_recvfrom ::
    "('k, 'o) io_env \<Rightarrow> int \<Rightarrow> ptr \<Rightarrow> int \<Rightarrow> int \<Rightarrow> 'o syscall \<Rightarrow> 'k mt_frame \<Rightarrow> 'o \<Rightarrow> ('k, 'o) io_result" where
  "mt_recvfrom env fd buf len timeout sys f w =
     (let (start, w1) = io_clock env w; thread = fr_curr_thread f
      in if fd < 0 \<or> buf = NULL \<or> len < 1 then Some (- 10, f, w1)
         else recv_loop env fd thread start (if timeout \<le> - 1 then 0x7fffffff else timeout) sys f w1)"

definition mt_recv ::
    "('k, 'o) io_env \<Rightarrow> int \<Rightarrow> ptr \<Rightarrow> int \<Rightarrow> int \<Rightarrow> 'o syscall \<Rightarrow> 'k mt_frame \<Rightarrow> 'o \<Rightarrow> ('k, 'o) io_result" where
  "mt_recv env fd buf len timeout sys f w =
     (let (start, w1) = io_clock env w; thread = fr_curr_thread f
      in if fd < 0 \<or> buf = NULL \<or> len < 1 then Some (- 10, f, w1)
         else recv_loop env fd thread start (if timeout \<le> - 1 then 0x7fffffff else timeout) sys f w1)"

text \<open>The loops of \<open>write\<close> and \<open>send\<close>: \<open>data\<close> is what is left to send after \<open>send_len\<close> bytes.\<close>

partial_function (option) send_loop ::
    "('k, 'o) io_env \<Rightarrow> int \<Rightarrow> ptr \<Rightarrow> u64 \<Rightarrow> int \<Rightarrow> (byte list \<Rightarrow> 'o syscall) \<Rightarrow> byte list \<Rightarrow> nat \<Rightarrow> 'k mt_frame \<Rightarrow> 'o \<Rightarrow> ('k, 'o) io_result" where
  "send_loop env fd this start timeout sys buf send_len f w =
     (if \<not> send_len < length buf then Some (int (length buf), f, w)
      else let (now, w1) = io_clock env w
           in if io_expired start now timeout then Some (- 1, f, w1)
              else let ((n, errno), w2) = sys (drop send_len buf) w1;
                       send_len' = (if n < 0 then send_len else send_len + nat n)
                   in if n < 0 \<and> errno = EINTR then send_loop env fd this start timeout sys buf send_len f w2
                      else if n < 0 \<and> errno \<noteq> IO_EAGAIN then Some (- 2, f, w2)
                      else if \<not> n < 0 \<and> send_len' \<ge> length buf then Some (int (length buf), f, w2)
                      else do {
                        (ok, f3, w3) \<leftarrow> io_wait env EnableOutput fd this timeout f w2;
                        if \<not> ok then Some (- 3, f3, w3)
                        else send_loop env fd this start timeout sys buf send_len' f3 w3
                      })"

definition mt_write ::
    "('k, 'o) io_env \<Rightarrow> int \<Rightarrow> ptr \<Rightarrow> int \<Rightarrow> (byte list \<Rightarrow> 'o syscall) \<Rightarrow> byte list \<Rightarrow> 'k mt_frame \<Rightarrow> 'o \<Rightarrow> ('k, 'o) io_result" where
  "mt_write env fd buf timeout sys data f w =
     (let (start, w1) = io_clock env w; thread = fr_curr_thread f
      in if fd < 0 \<or> buf = NULL \<or> length data < 1 then Some (- 10, f, w1)
         else send_loop env fd thread start timeout sys data 0 f w1)"

definition mt_send ::
    "('k, 'o) io_env \<Rightarrow> int \<Rightarrow> ptr \<Rightarrow> int \<Rightarrow> (byte list \<Rightarrow> 'o syscall) \<Rightarrow> byte list \<Rightarrow> 'k mt_frame \<Rightarrow> 'o \<Rightarrow> ('k, 'o) io_result" where
  "mt_send env fd buf timeout sys data f w =
     (let (start, w1) = io_clock env w; thread = fr_curr_thread f
      in if fd < 0 \<or> buf = NULL \<or> length data < 1 then Some (- 10, f, w1)
         else send_loop env fd thread start timeout sys data 0 f w1)"

text \<open>The loop of \<open>WaitEvents\<close> always leaves in its first turn.\<close>

definition WaitEvents ::
    "('k, 'o) io_env \<Rightarrow> int \<Rightarrow> u32 \<Rightarrow> int \<Rightarrow> 'k mt_frame \<Rightarrow> 'o \<Rightarrow> ('k, 'o) io_result" where
  "WaitEvents env fd events timeout0 f w =
     (let (start, w1) = io_clock env w; thread = fr_curr_thread f;
          timeout = (if timeout0 \<le> - 1 then 0x7fffffff else timeout0);
          (now, w2) = io_clock env w1
      in if io_expired start now timeout then Some (0, f, w2)
         else let enable = (\<lambda>o0. let o1 = (if and events EPOLLIN \<noteq> 0 then EnableInput o0 else o0)
                                 in if and events EPOLLOUT \<noteq> 0 then EnableOutput o1 else o1)
              in do {
                (ok, f3, w3) \<leftarrow> io_wait env enable fd thread timeout f w2;
                if \<not> ok then Some (0, f3, w3)
                else Some (sint (eo_revents (ep_objs (fr_ep f3) (io_obj env))), f3, w3)
              })"

section \<open>What the calls rely on\<close>

text \<open>
  The thread that calls is the current one and not the daemon. The other threads keep the invariant
  of the scheduler, which every run of it does (\<open>sched_run_inv\<close>), and give control back.
\<close>

definition io_ready :: "pool_conf \<Rightarrow> ptr \<Rightarrow> 'k mt_frame \<Rightarrow> bool" where
  "io_ready c this f \<longleftrightarrow> frame_inv c f \<and> fr_curr_thread f = this \<and> fr_daemon f \<noteq> this"

definition others_ok :: "pool_conf \<Rightarrow> ('k, 'o) io_env \<Rightarrow> ptr \<Rightarrow> bool" where
  "others_ok c env this \<longleftrightarrow>
     (\<forall>f w. frame_inv c f \<longrightarrow> (\<exists>f' w'. io_others env f w = Some (f', w') \<and> io_ready c this f'))"

text \<open>A quantity of the outside world that neither the clock nor the other threads change.\<close>

definition unmoved :: "('k, 'o) io_env \<Rightarrow> ('o \<Rightarrow> 'v) \<Rightarrow> bool" where
  "unmoved env m \<longleftrightarrow> (\<forall>w. m (snd (io_clock env w)) = m w) \<and>
     (\<forall>f w f' w'. io_others env f w = Some (f', w') \<longrightarrow> m w' = m w)"

text \<open>
  A system call that writes: it takes a prefix of the data it is given. \<open>taken\<close> is what the
  kernel has taken of this descriptor, \<open>stall\<close> bounds how often it will still take nothing.
\<close>

definition writer_ok :: "('o \<Rightarrow> byte list) \<Rightarrow> ('o \<Rightarrow> nat) \<Rightarrow> (byte list \<Rightarrow> 'o syscall) \<Rightarrow> bool" where
  "writer_ok taken stall sys \<longleftrightarrow>
     (\<forall>b w. b \<noteq> [] \<longrightarrow> (case sys b w of ((n, e), w') \<Rightarrow> n \<le> int (length b) \<and> taken w' = taken w @ take (nat n) b \<and>
        stall w' \<le> stall w \<and> (n \<le> 0 \<longrightarrow> stall w' < stall w)))"

text \<open>A system call with one result: \<open>results\<close> are the results it has given so far.\<close>

definition caller_ok :: "('o \<Rightarrow> int list) \<Rightarrow> ('o \<Rightarrow> nat) \<Rightarrow> 'o syscall \<Rightarrow> bool" where
  "caller_ok results stall sys \<longleftrightarrow>
     (\<forall>w. case sys w of ((n, e), w') \<Rightarrow> results w' = results w @ [n] \<and> stall w' \<le> stall w \<and> (n < 0 \<longrightarrow> stall w' < stall w))"

lemma unmoved_pair: "unmoved env m \<Longrightarrow> unmoved env m' \<Longrightarrow> unmoved env (\<lambda>w. (m w, m' w))"
  by (simp add: unmoved_def)

lemma EpollSchedule_enter_stays:
  "EpollSchedule_enter ctl now fdlist fd tmo f = Some (False, g) \<Longrightarrow> fr_curr_thread g = fr_curr_thread f \<and> fr_daemon g = fr_daemon f"
  by (auto simp: EpollSchedule_enter_def epoll_prepare_def Let_def split: if_splits bind_splits prod.splits option.splits)

lemma io_wait_ready:
  assumes ready: "io_ready c this f" and oth: "others_ok c env this"
    and unm: "unmoved env m"
  obtains ok f' w' where "io_wait env enable fd this timeout f w = Some (ok, f', w')" "io_ready c this f'" "m w' = m w"
proof -
  define f0 where "f0 = f\<lparr>fr_ep := (fr_ep f)\<lparr>ep_objs := (ep_objs (fr_ep f))(io_obj env := (enable (EpollerObj_init fd))\<lparr>eo_thread := this\<rparr>)\<rparr>\<rparr>"
  obtain now w1 where clk: "io_clock env w = (now, w1)" by (cases "io_clock env w")
  have cm: "m w1 = m w"
    using unm clk unfolding unmoved_def by (metis snd_conv)
  have f0: "frame_inv c f0" "fr_curr_thread f0 = this" "fr_daemon f0 \<noteq> this"
    using ready same_family_families [of f f0] by (auto simp: io_ready_def frame_inv_def f0_def)
  then have nd: "fr_curr_thread f0 \<noteq> fr_daemon f0" by simp
  obtain sw f1 where e: "EpollSchedule_enter (io_ctl env) now None (io_obj env) timeout f0 = Some (sw, f1)" "frame_inv c f1"
    by (rule EpollSchedule_enter_inv [OF f0(1) nd]) (rule that)
  show thesis
  proof (cases sw)
    case False
    then have "io_ready c this f1" using e f0 by (auto simp: io_ready_def dest: EpollSchedule_enter_stays)
    moreover have "io_wait env enable fd this timeout f w = Some (False, f1, w1)"
      using False e clk by (simp add: io_wait_def Let_def f0_def)
    ultimately show thesis using that cm by blast
  next
    case True
    obtain f2 w2 where o2: "io_others env f1 w1 = Some (f2, w2)" "io_ready c this f2" using oth e(2) unfolding others_ok_def by blast
    define f3 where "f3 = snd (EpollSchedule_leave (io_ctl env) this f2)"
    have "frame_inv c f3" using o2(2) by (auto simp: io_ready_def f3_def intro: EpollSchedule_leave_inv)
    then have "io_ready c this f3" using o2(2) by (simp add: io_ready_def f3_def EpollSchedule_leave_def Let_def)
    moreover have "io_wait env enable fd this timeout f w = Some (fst (EpollSchedule_leave (io_ctl env) this f2), f3, w2)"
      using True e clk o2(1) by (simp add: io_wait_def Let_def f0_def f3_def split: prod.splits)
    moreover have "m w2 = m w" using cm unm o2(1) by (metis unmoved_def)
    ultimately show thesis using that by blast
  qed
qed

section \<open>The loops end\<close>

text \<open>
  The measure is the number of fruitless calls that are left, for the writers together with the
  bytes that are left.
\<close>

text \<open>The result of a writer that has \<open>k0\<close> bytes behind it, and how one turn passes it on.\<close>

definition sent_from ::
    "pool_conf \<Rightarrow> ptr \<Rightarrow> ('o \<Rightarrow> byte list) \<Rightarrow> byte list \<Rightarrow> nat \<Rightarrow> 'o \<Rightarrow> ('k, 'o) io_result \<Rightarrow> bool" where
  "sent_from c this taken buf k0 w res \<longleftrightarrow>
     (\<exists>r f' w' k. res = Some (r, f', w') \<and> io_ready c this f' \<and> k0 \<le> k \<and> k \<le> length buf \<and>
        taken w' = taken w @ take (k - k0) (drop k0 buf) \<and> (if k = length buf then r = int (length buf) else r \<in> {- 1, - 2, - 3}))"

lemma sent_from_turn:
  assumes "sent_from c this taken buf k1 w1 res" "taken w1 = taken w @ take (k1 - k0) (drop k0 buf)" "k0 \<le> k1"
  shows "sent_from c this taken buf k0 w res"
proof -
  obtain r f' w' k where k: "res = Some (r, f', w')" "io_ready c this f'" "k1 \<le> k" "k \<le> length buf"
    "taken w' = taken w1 @ take (k - k1) (drop k1 buf)" "if k = length buf then r = int (length buf) else r \<in> {- 1, - 2, - 3}"
    using assms(1) unfolding sent_from_def by blast
  have "take (k - k0) (drop k0 buf) = take (k1 - k0) (drop k0 buf) @ take (k - k1) (drop k1 buf)"
    using take_add [of "k1 - k0" "k - k1" "drop k0 buf"] assms(3) k(3) by simp
  with k assms show ?thesis unfolding sent_from_def by (intro exI [of _ r] exI [of _ f'] exI [of _ w'] exI [of _ k]) simp
qed

lemma sent_from_stop:
  "io_ready c this f' \<Longrightarrow> k0 \<le> k \<Longrightarrow> k < length buf \<Longrightarrow> r \<in> {- 1, - 2, - 3} \<Longrightarrow>
   taken w' = taken w @ take (k - k0) (drop k0 buf) \<Longrightarrow> sent_from c this taken buf k0 w (Some (r, f', w'))"
  unfolding sent_from_def by (intro exI [of _ r] exI [of _ f'] exI [of _ w'] exI [of _ k]) simp

lemma sent_from_done:
  "io_ready c this f' \<Longrightarrow> k0 \<le> length buf \<Longrightarrow> taken w' = taken w @ drop k0 buf \<Longrightarrow>
   sent_from c this taken buf k0 w (Some (int (length buf), f', w'))"
  unfolding sent_from_def by (intro exI [of _ "int (length buf)"] exI [of _ f'] exI [of _ w'] exI [of _ "length buf"]) simp

lemma send_loop_ok:
  assumes oth: "others_ok c env this" and unm: "unmoved env taken" "unmoved env stall" and wr: "writer_ok taken stall sys"
    and ready: "io_ready c this f" and len: "k0 \<le> length buf"
  shows "sent_from c this taken buf k0 w (send_loop env fd this start timeout sys buf k0 f w)"
  using ready len
proof (induction "stall w + (length buf - k0)" arbitrary: f w k0 rule: less_induct)
  case less
  show ?case
  proof (cases "k0 < length buf")
    case False
    then show ?thesis using less.prems by (subst send_loop.simps) (auto intro: sent_from_done)
  next
    case k0: True
    obtain now w1 where clk: "io_clock env w = (now, w1)" by (cases "io_clock env w")
    have w1: "taken w1 = taken w" "stall w1 = stall w" using unm clk unfolding unmoved_def by (metis snd_conv)+
    obtain n e w2 where sys: "sys (drop k0 buf) w1 = ((n, e), w2)" by (metis surj_pair)
    have n: "n \<le> int (length buf - k0)" "taken w2 = taken w @ take (nat n) (drop k0 buf)" "stall w2 \<le> stall w" "n \<le> 0 \<Longrightarrow> stall w2 < stall w"
      using wr [unfolded writer_ok_def, rule_format, of "drop k0 buf" w1] k0 sys w1 by auto
    define k1 where "k1 = k0 + nat n"
    have k1: "(if n < 0 then k0 else k0 + nat n) = k1" "k0 \<le> k1" "k1 \<le> length buf" "taken w2 = taken w @ take (k1 - k0) (drop k0 buf)"
      using n k0 by (auto simp: k1_def)
    have loop: "sent_from c this taken buf k0 w (send_loop env fd this start timeout sys buf k1 f3 w3)"
      if "io_ready c this f3" "taken w3 = taken w2" "stall w3 = stall w2" for f3 w3
    proof (rule sent_from_turn)
      have "stall w3 + (length buf - k1) < stall w + (length buf - k0)"
        using n(3,4) that(3) k0 k1(3) by (cases "n \<le> 0") (auto simp: k1_def)
      then show "sent_from c this taken buf k1 w3 (send_loop env fd this start timeout sys buf k1 f3 w3)"
        using less.hyps [of w3 k1] that(1) k1(3) by blast
    qed (use that k1 in simp_all)
    obtain ok f3 w3 where io: "io_wait env EnableOutput fd this timeout f w2 = Some (ok, f3, w3)" "io_ready c this f3"
      "taken w3 = taken w2" "stall w3 = stall w2"
      by (rule io_wait_ready [OF less.prems(1) oth unmoved_pair [OF unm], of EnableOutput fd timeout w2]) (use that in simp)
    have turn: "send_loop env fd this start timeout sys buf k0 f w =
      (if io_expired start now timeout then Some (- 1, f, w1)
       else if n < 0 \<and> e = EINTR then send_loop env fd this start timeout sys buf k1 f w2
       else if n < 0 \<and> e \<noteq> IO_EAGAIN then Some (- 2, f, w2)
       else if \<not> n < 0 \<and> k1 \<ge> length buf then Some (int (length buf), f, w2)
       else if \<not> ok then Some (- 3, f3, w3) else send_loop env fd this start timeout sys buf k1 f3 w3)"
      by (subst send_loop.simps) (simp add: k0 clk sys io(1) Let_def k1_def)
    have "sent_from c this taken buf k0 w (Some (- 1, f, w1))"
      by (rule sent_from_stop [where k = k0]) (use less.prems k0 w1 in simp_all)
    moreover have "sent_from c this taken buf k0 w (Some (- 2, f, w2))" if "n < 0"
      by (rule sent_from_stop [where k = k0]) (use less.prems k0 n that in simp_all)
    moreover have "sent_from c this taken buf k0 w (Some (int (length buf), f, w2))" if "k1 \<ge> length buf"
      by (rule sent_from_done) (use less.prems k1 that in simp_all)
    moreover have "sent_from c this taken buf k0 w (Some (- 3, f3, w3))" if "k1 < length buf"
      by (rule sent_from_stop [where k = k1]) (use io k1 that in simp_all)
    moreover have "k1 < length buf" if "n < 0" using that k0 by (simp add: k1_def)
    ultimately show ?thesis unfolding turn using loop [OF less.prems(1) refl refl] loop [OF io(2-4)] by (simp add: not_le)
  qed
qed

text \<open>The calls with one result: the failed attempts, then the result itself when there is one.\<close>

definition one_result :: "pool_conf \<Rightarrow> ptr \<Rightarrow> ('o \<Rightarrow> int list) \<Rightarrow> 'o \<Rightarrow> ('k, 'o) io_result \<Rightarrow> bool" where
  "one_result c this results w res \<longleftrightarrow>
     (\<exists>r f' w' ns. res = Some (r, f', w') \<and> io_ready c this f' \<and> (\<forall>n \<in> set ns. n < 0) \<and>
        (if r \<ge> 0 then results w' = results w @ ns @ [r] else results w' = results w @ ns \<and> r \<in> {- 1, - 2, - 3}))"

lemma one_result_turn:
  assumes "one_result c this results w1 res" "results w1 = results w @ ns" "\<forall>n \<in> set ns. n < 0"
  shows "one_result c this results w res"
proof -
  obtain r f' w' ms where r: "res = Some (r, f', w')" "io_ready c this f'" "\<forall>n \<in> set ms. n < 0"
    "if r \<ge> 0 then results w' = results w1 @ ms @ [r] else results w' = results w1 @ ms \<and> r \<in> {- 1, - 2, - 3}"
    using assms(1) unfolding one_result_def by blast
  with assms(2,3) show ?thesis unfolding one_result_def
    by (intro exI [of _ r] exI [of _ f'] exI [of _ w'] exI [of _ "ns @ ms"]) auto
qed

lemma one_result_done:
  "io_ready c this f \<Longrightarrow> 0 \<le> r \<Longrightarrow> results w' = results w @ [r] \<Longrightarrow> one_result c this results w (Some (r, f, w'))"
  unfolding one_result_def by (intro exI [of _ r] exI [of _ f] exI [of _ w'] exI [of _ "[]"]) simp

lemma one_result_stop:
  "io_ready c this f \<Longrightarrow> r \<in> {- 1, - 2, - 3} \<Longrightarrow> results w' = results w @ ns \<Longrightarrow> \<forall>n \<in> set ns. n < 0 \<Longrightarrow>
   one_result c this results w (Some (r, f, w'))"
  unfolding one_result_def by (intro exI [of _ r] exI [of _ f] exI [of _ w'] exI [of _ ns]) auto

lemma call_loop_ok:
  assumes oth: "others_ok c env this" and unm: "unmoved env results" "unmoved env stall" and sys_ok: "caller_ok results stall sys"
    and ready: "io_ready c this f"
  shows "one_result c this results w (call_loop env enable fd this start timeout sys f w)"
  using ready
proof (induction "stall w" arbitrary: f w rule: less_induct)
  case less
  obtain n e w1 where sys: "sys w = ((n, e), w1)" by (metis surj_pair)
  have n: "results w1 = results w @ [n]" "n < 0 \<Longrightarrow> stall w1 < stall w"
    using sys_ok [unfolded caller_ok_def, rule_format, of w] sys by auto
  obtain now w2 where clk: "io_clock env w1 = (now, w2)" by (cases "io_clock env w1")
  have w2: "results w2 = results w1" "stall w2 = stall w1" using unm clk unfolding unmoved_def by (metis snd_conv)+
  obtain ok f3 w3 where io: "io_wait env enable fd this timeout f w2 = Some (ok, f3, w3)" "io_ready c this f3"
    "results w3 = results w2" "stall w3 = stall w2"
    by (rule io_wait_ready [OF less.prems oth unmoved_pair [OF unm], of enable fd timeout w2]) (use that in simp)
  have turn: "call_loop env enable fd this start timeout sys f w =
    (if \<not> n < 0 then Some (n, f, w1) else if io_expired start now timeout then Some (- 1, f, w2)
     else if e = EINTR then call_loop env enable fd this start timeout sys f w2
     else if e \<noteq> IO_EAGAIN then Some (- 2, f, w2)
     else if \<not> ok then Some (- 3, f3, w3) else call_loop env enable fd this start timeout sys f3 w3)"
    by (subst call_loop.simps) (simp add: sys clk io(1))
  have loop: "one_result c this results w (call_loop env enable fd this start timeout sys g v)"
    if "n < 0" "io_ready c this g" "results v = results w1" "stall v = stall w1" for g v
    by (rule one_result_turn [where ns = "[n]", OF less.hyps]) (use that n in simp_all)
  have stop: "one_result c this results w (Some (r, g, v))"
    if "n < 0" "io_ready c this g" "results v = results w1" "r \<in> {- 1, - 2, - 3}" for r g v
    by (rule one_result_stop [where ns = "[n]"]) (use that n in simp_all)
  have "one_result c this results w (Some (n, f, w1))" if "\<not> n < 0"
    by (rule one_result_done) (use that n(1) less.prems in simp_all)
  then show ?case
    unfolding turn using stop [of f w2 "- 1"] stop [of f w2 "- 2"] stop [of f3 w3 "- 3"] loop less.prems io(2-4) w2 by simp
qed

lemma recv_loop_ok:
  assumes oth: "others_ok c env this" and unm: "unmoved env results" "unmoved env stall" and sys_ok: "caller_ok results stall sys"
    and ready: "io_ready c this f"
  shows "one_result c this results w (recv_loop env fd this start timeout sys f w)"
  using ready
proof (induction "stall w" arbitrary: f w rule: less_induct)
  case less
  obtain now w1 where clk: "io_clock env w = (now, w1)" by (cases "io_clock env w")
  have w1: "results w1 = results w" "stall w1 = stall w" using unm clk unfolding unmoved_def by (metis snd_conv)+
  obtain ok f2 w2 where io: "io_wait env EnableInput fd this timeout f w1 = Some (ok, f2, w2)" "io_ready c this f2"
    "results w2 = results w1" "stall w2 = stall w1"
    by (rule io_wait_ready [OF less.prems oth unmoved_pair [OF unm], of EnableInput fd timeout w1]) (use that in simp)
  obtain n e w3 where sys: "sys w2 = ((n, e), w3)" by (metis surj_pair)
  have n: "results w3 = results w @ [n]" "n < 0 \<Longrightarrow> stall w3 < stall w"
    using sys_ok [unfolded caller_ok_def, rule_format, of w2] sys io w1 by auto
  have turn: "recv_loop env fd this start timeout sys f w =
    (if io_expired start now timeout then Some (- 1, f, w1) else if \<not> ok then Some (- 2, f2, w2)
     else if \<not> n < 0 then Some (n, f2, w3) else if e \<noteq> EINTR \<and> e \<noteq> IO_EAGAIN then Some (- 3, f2, w3)
     else recv_loop env fd this start timeout sys f2 w3)"
    by (subst recv_loop.simps) (simp add: sys clk io(1))
  have "one_result c this results w (recv_loop env fd this start timeout sys f2 w3)" if "n < 0"
    by (rule one_result_turn [where ns = "[n]", OF less.hyps]) (use that n io(2) in simp_all)
  moreover have "one_result c this results w (Some (r, g, v))"
    if "io_ready c this g" "results v = results w" "r \<in> {- 1, - 2}" for r g v
    by (rule one_result_stop [where ns = "[]"]) (use that in auto)
  note stop = this [of f w1 "- 1"] this [of f2 w2 "- 2"]
  moreover have "one_result c this results w (Some (- 3, f2, w3))" if "n < 0"
    by (rule one_result_stop [where ns = "[n]"]) (use that n io(2) in simp_all)
  moreover have "one_result c this results w (Some (n, f2, w3))" if "\<not> n < 0"
    by (rule one_result_done) (use that n(1) io(2) in simp_all)
  ultimately show ?case unfolding turn using stop less.prems io w1 by simp
qed

lemma connect_loop_ok:
  assumes oth: "others_ok c env this" and unm: "unmoved env results" "unmoved env stall" and sys_ok: "caller_ok results stall sys"
    and ready: "io_ready c this f"
  shows "\<exists>r f' w'. connect_loop env fd this start timeout sys f w = Some (r, f', w') \<and> io_ready c this f' \<and> (r < 0 \<longrightarrow> r \<in> {- 1, - 2, - 3})"
  using ready
proof (induction "stall w" arbitrary: f w rule: less_induct)
  case less
  obtain n e w1 where sys: "sys w = ((n, e), w1)" by (metis surj_pair)
  have n: "n < 0 \<Longrightarrow> stall w1 < stall w"
    using sys_ok [unfolded caller_ok_def, rule_format, of w] sys by auto
  obtain now w2 where clk: "io_clock env w1 = (now, w2)" by (cases "io_clock env w1")
  have w2: "stall w2 = stall w1" using unm clk unfolding unmoved_def by (metis snd_conv)
  obtain ok f3 w3 where io: "io_wait env EnableOutput fd this timeout f w2 = Some (ok, f3, w3)" "io_ready c this f3" "stall w3 = stall w2"
    by (rule io_wait_ready [OF less.prems oth unm(2), of EnableOutput fd timeout w2]) (use that in simp)
  have turn: "connect_loop env fd this start timeout sys f w =
    (if \<not> n < 0 then Some (n, f, w1) else if io_expired start now timeout then Some (- 1, f, w2)
     else if e = EISCONN then Some (0, f, w2) else if e = EINTR then connect_loop env fd this start timeout sys f w2
     else if e \<noteq> IO_EINPROGRESS then Some (- 2, f, w2)
     else if \<not> ok then Some (- 3, f3, w3) else connect_loop env fd this start timeout sys f3 w3)"
    by (subst connect_loop.simps) (simp add: sys clk io(1))
  show ?case unfolding turn using less.hyps [of w2 f] less.hyps [of w3 f3] less.prems io(2,3) w2 n by simp
qed

section \<open>Properties\<close>

text \<open>
  C26: \<open>send\<close> and \<open>write\<close> hand the data to the kernel in order, without gap or repetition, across
  partial writes, interrupted calls and waits: they return (provided the kernel refuses only finitely
  often), what the kernel has taken is a prefix of the data, the result is the full length exactly when it
  is all of it and one of the error codes otherwise, and the scheduler is left with its invariant and the caller running.
\<close>

theorem send_stream:
  assumes "others_ok c env (fr_curr_thread f)" "unmoved env taken" "unmoved env stall" "writer_ok taken stall sys"
    "frame_inv c f" "fr_curr_thread f \<noteq> fr_daemon f" "0 \<le> fd" "buf \<noteq> NULL" "data \<noteq> []"
    and res: "res \<in> {mt_send env fd buf timeout sys data f w, mt_write env fd buf timeout sys data f w}"
  shows "\<exists>r f' w' k. res = Some (r, f', w') \<and> k \<le> length data \<and> taken w' = taken w @ take k data \<and>
    (if k = length data then r = int (length data) else r \<in> {- 1, - 2, - 3}) \<and>
    frame_inv c f' \<and> fr_curr_thread f' = fr_curr_thread f"
proof -
  obtain start w1 where clk: "io_clock env w = (start, w1)" by (cases "io_clock env w")
  have w1: "taken w1 = taken w" using assms(2) clk unfolding unmoved_def by (metis snd_conv)
  have ready: "io_ready c (fr_curr_thread f) f" using assms(5,6) by (simp add: io_ready_def)
  have "res = send_loop env fd (fr_curr_thread f) start timeout sys data 0 f w1"
    using res assms(7-9) clk by (auto simp: mt_send_def mt_write_def Suc_le_eq)
  with send_loop_ok [OF assms(1-4) ready, of 0 data w1 fd start timeout, unfolded sent_from_def]
  obtain r f' w' k where "res = Some (r, f', w')" "io_ready c (fr_curr_thread f) f'" "k \<le> length data" "taken w' = taken w @ take k data"
    "if k = length data then r = int (length data) else r \<in> {- 1, - 2, - 3}"
    using w1 by auto
  then show ?thesis by (intro exI [of _ r] exI [of _ f'] exI [of _ w'] exI [of _ k]) (simp add: io_ready_def)
qed

text \<open>
  A small world: the main thread of \<open>demo0\<close>; the kernel's answers are a script, each entry the
  number of bytes it takes (0: it would block), and after the script it takes everything.
\<close>

definition toy_env :: "(unit, byte list \<times> nat list) io_env" where
  "toy_env = \<lparr>io_ctl = demo_ctl, io_clock = (\<lambda>w. (1000, w)), io_others = (\<lambda>f w. Some (demo0, w)), io_obj = 900\<rparr>"
fun toy_write :: "byte list \<Rightarrow> (byte list \<times> nat list) syscall" where
  "toy_write b (t, []) = ((int (length b), 0), (t @ b, []))"
| "toy_write b (t, k # ks) = (if k = 0 then ((- 1, 11), (t, ks)) else ((int (min k (length b)), 0), (t @ take k b, ks)))"

lemma toy_world:
  "others_ok demo_conf toy_env 20" "unmoved toy_env fst" "unmoved toy_env (\<lambda>w. length (snd w))"
  "writer_ok fst (\<lambda>w. length (snd w)) toy_write" "frame_inv demo_conf demo0" "fr_curr_thread demo0 = 20" "fr_daemon demo0 = 10"
proof -
  show inv: "frame_inv demo_conf demo0" using boot_run_inv [OF demo_boot demo_start sched_run.stop] .
  show "fr_curr_thread demo0 = 20" "fr_daemon demo0 = 10" by (simp_all add: demo0_view)
  then show "others_ok demo_conf toy_env 20" using inv by (simp add: others_ok_def toy_env_def io_ready_def)
  show "unmoved toy_env fst" "unmoved toy_env (\<lambda>w. length (snd w))" by (simp_all add: unmoved_def toy_env_def)
  show "writer_ok fst (\<lambda>w. length (snd w)) toy_write"
    unfolding writer_ok_def
  proof (intro allI impI)
    fix b :: "byte list" and w :: "byte list \<times> nat list" assume "b \<noteq> []"
    then show "case toy_write b w of ((n, e), w') \<Rightarrow> n \<le> int (length b) \<and> fst w' = fst w @ take (nat n) b \<and>
        length (snd w') \<le> length (snd w) \<and> (n \<le> 0 \<longrightarrow> length (snd w') < length (snd w))"
      by (cases "(b, w)" rule: toy_write.cases) (auto simp: min_def)
  qed
qed

theorem send_stream_witness:
  "\<exists>r f' w' k. mt_send toy_env 5 8 100 toy_write [1, 2, 3] demo0 ([], [0, 2, 0]) = Some (r, f', w') \<and> k \<le> 3 \<and>
     fst w' = take k [1, 2, 3] \<and> fr_curr_thread f' = 20"
proof -
  have "\<exists>r f' w' k. mt_send toy_env 5 8 100 toy_write [1, 2, 3] demo0 ([], [0, 2, 0]) = Some (r, f', w') \<and> k \<le> length [1 :: byte, 2, 3] \<and>
      fst w' = fst ([] :: byte list, [0, 2, 0 :: nat]) @ take k [1, 2, 3] \<and>
      (if k = length [1 :: byte, 2, 3] then r = int (length [1 :: byte, 2, 3]) else r \<in> {- 1, - 2, - 3}) \<and>
      frame_inv demo_conf f' \<and> fr_curr_thread f' = fr_curr_thread demo0"
    by (rule send_stream [where stall = "\<lambda>w. length (snd w)" and fd = 5 and buf = 8 and timeout = 100, OF _ _ _ _ _ _ _ _ _ insertI1]) (use toy_world in simp_all)
  then obtain r f' w' k where "mt_send toy_env 5 8 100 toy_write [1, 2, 3] demo0 ([], [0, 2, 0]) = Some (r, f', w')" "k \<le> 3"
    "fst w' = take k [1, 2, 3]" "fr_curr_thread f' = 20" by (auto simp: toy_world(6))
  then show ?thesis by blast
qed

text \<open>
  C27: \<open>recv\<close>, \<open>recvfrom\<close>, \<open>read\<close>, \<open>accept\<close> and \<open>sendto\<close> lose nothing: they return (under the same proviso), every
  system call before the last has failed, a result that is not negative is the result of the last
  one, and when an error is returned no system call has succeeded; \<open>connect\<close> returns too. The scheduler is
  left with its invariant and the caller running.
\<close>

theorem io_one_result:
  assumes "others_ok c env (fr_curr_thread f)" "unmoved env results" "unmoved env stall" "caller_ok results stall sys"
    "frame_inv c f" "fr_curr_thread f \<noteq> fr_daemon f" "0 \<le> fd" "buf \<noteq> NULL" "1 \<le> len"
    and res: "res \<in> {mt_recv env fd buf len timeout sys f w, mt_recvfrom env fd buf len timeout sys f w, mt_read env fd buf (nat len) timeout sys f w,
      mt_accept env fd timeout sys f w, mt_sendto env fd buf len timeout sys f w}"
  shows "(\<exists>r f' w' ns. res = Some (r, f', w') \<and> (\<forall>n \<in> set ns. n < 0) \<and>
      (if r \<ge> 0 then results w' = results w @ ns @ [r] else results w' = results w @ ns \<and> r \<in> {- 1, - 2, - 3}) \<and>
      frame_inv c f' \<and> fr_curr_thread f' = fr_curr_thread f) \<and>
    (\<exists>r f' w'. mt_connect env fd buf len timeout sys f w = Some (r, f', w') \<and> frame_inv c f' \<and> fr_curr_thread f' = fr_curr_thread f)"
proof -
  obtain start w1 where clk: "io_clock env w = (start, w1)" by (cases "io_clock env w")
  have w1: "results w1 = results w" using assms(2) clk unfolding unmoved_def by (metis snd_conv)
  have ready: "io_ready c (fr_curr_thread f) f" using assms(5,6) by (simp add: io_ready_def)
  let ?t = "if timeout \<le> - 1 then 0x7fffffff else timeout"
  have "res \<in> {recv_loop env fd (fr_curr_thread f) start ?t sys f w1, call_loop env EnableInput fd (fr_curr_thread f) start timeout sys f w1,
      call_loop env EnableOutput fd (fr_curr_thread f) start timeout sys f w1}"
    using res assms(7-9) clk by (auto simp: mt_recv_def mt_recvfrom_def mt_read_def mt_accept_def mt_sendto_def)
  then have "one_result c (fr_curr_thread f) results w1 res"
    using recv_loop_ok [OF assms(1-4) ready, of w1 fd start ?t] call_loop_ok [OF assms(1-4) ready, of w1 _ fd start timeout] by blast
  moreover have "\<exists>r f' w'. mt_connect env fd buf len timeout sys f w = Some (r, f', w') \<and> io_ready c (fr_curr_thread f) f'"
    using connect_loop_ok [OF assms(1-4) ready, of fd start timeout w1] assms(7-9) clk by (auto simp: mt_connect_def)
  ultimately show ?thesis unfolding one_result_def io_ready_def w1 by fast
qed

text \<open>The results of a script, and 7 when it is used up.\<close>

definition toy_call :: "(int list \<times> int list) syscall" where
  "toy_call w = (case snd w of [] \<Rightarrow> ((7, 0), (fst w @ [7], [])) | k # ks \<Rightarrow> ((k, 11), (fst w @ [k], ks)))"
definition call_env :: "(unit, int list \<times> int list) io_env" where
  "call_env = \<lparr>io_ctl = demo_ctl, io_clock = (\<lambda>w. (1000, w)), io_others = (\<lambda>f w. Some (demo0, w)), io_obj = 900\<rparr>"

lemma call_world:
  "others_ok demo_conf call_env 20" "unmoved call_env fst" "unmoved call_env (\<lambda>w. length (snd w))" "caller_ok fst (\<lambda>w. length (snd w)) toy_call"
  by (use toy_world(5-7) in \<open>simp_all add: others_ok_def call_env_def io_ready_def unmoved_def caller_ok_def toy_call_def split: list.split\<close>)

theorem io_one_result_witness:
  "(\<exists>r f' w'. mt_read call_env 5 8 4 100 toy_call demo0 ([], [- 1]) = Some (r, f', w') \<and> fr_curr_thread f' = 20) \<and>
   (\<exists>r f' w'. mt_connect call_env 5 8 4 100 toy_call demo0 ([], [- 1]) = Some (r, f', w') \<and> fr_curr_thread f' = 20)"
proof -
  have "(\<exists>r f' w' ns. mt_read call_env 5 8 (nat 4) 100 toy_call demo0 ([], [- 1]) = Some (r, f', w') \<and> (\<forall>n \<in> set ns. n < 0) \<and>
      (if r \<ge> 0 then fst w' = fst ([] :: int list, [- 1 :: int]) @ ns @ [r] else fst w' = fst ([] :: int list, [- 1 :: int]) @ ns \<and> r \<in> {- 1, - 2, - 3}) \<and>
      frame_inv demo_conf f' \<and> fr_curr_thread f' = fr_curr_thread demo0) \<and>
    (\<exists>r f' w'. mt_connect call_env 5 8 4 100 toy_call demo0 ([], [- 1]) = Some (r, f', w') \<and> frame_inv demo_conf f' \<and> fr_curr_thread f' = fr_curr_thread demo0)"
    by (rule io_one_result [where stall = "\<lambda>w. length (snd w)" and fd = 5 and buf = 8 and len = 4 and timeout = 100, OF _ _ _ _ _ _ _ _ _ insertI2 [OF insertI2 [OF insertI1]]]) (use toy_world(5-7) call_world in simp_all)
  then show ?thesis by (auto simp: toy_world(6))
qed

text \<open>
  With a negative timeout, which \<open>recv\<close>, \<open>recvfrom\<close> and \<open>WaitEvents\<close> take as no limit, the other calls
  fail at once: \<open>read\<close>, \<open>accept\<close>, \<open>sendto\<close> and \<open>connect\<close> time out after one attempt that would block
  (or be interrupted) without waiting, and \<open>send\<close> and \<open>write\<close> without any attempt.
\<close>

theorem negative_timeout:
  assumes "timeout < 0" "0 \<le> fd" "buf \<noteq> NULL" "1 \<le> len" "data \<noteq> []"
    "io_clock env w = (t, w1)" "sys w1 = ((n, e), w2)" "n < 0" "io_clock env w2 = (t, w3)" "io_clock env w1 = (t, w4)"
  shows "mt_read env fd buf (nat len) timeout sys f w = Some (- 1, f, w3) \<and> mt_accept env fd timeout sys f w = Some (- 1, f, w3) \<and>
    mt_sendto env fd buf len timeout sys f w = Some (- 1, f, w3) \<and> mt_connect env fd buf len timeout sys f w = Some (- 1, f, w3) \<and>
    mt_send env fd buf timeout wsys data f w = Some (- 1, f, w4) \<and> mt_write env fd buf timeout wsys data f w = Some (- 1, f, w4)"
proof -
  have ex: "io_expired t t timeout" using assms(1) by (simp add: io_expired_def)
  have "call_loop env en fd this t timeout sys f w1 = Some (- 1, f, w3)" for en this
    by (subst call_loop.simps) (use assms ex in simp)
  moreover have "connect_loop env fd this t timeout sys f w1 = Some (- 1, f, w3)" for this
    by (subst connect_loop.simps) (use assms ex in simp)
  moreover have "send_loop env fd this t timeout wsys data 0 f w1 = Some (- 1, f, w4)" for this
    by (subst send_loop.simps) (use assms ex in simp)
  ultimately show ?thesis
    using assms by (simp add: mt_read_def mt_accept_def mt_sendto_def mt_connect_def mt_send_def mt_write_def Suc_le_eq)
qed

theorem negative_timeout_witness:
  "mt_read call_env 5 8 4 (- 1) toy_call demo0 ([], [- 1]) = Some (- 1, demo0, ([- 1], []))"
  using negative_timeout [of "- 1" 5 8 4 "[1]" call_env "([], [- 1])" 1000 "([], [- 1])" toy_call "- 1" 11 "([- 1], [])" "([- 1], [])" "([], [- 1])" demo0]
  by (simp add: call_env_def toy_call_def)

end
