(* ===== verification/Sk_Cache.thy ===== *)
theory Sk_Cache
  imports Prelude
begin

text \<open>
  The socket buffers of \<open>sync_frame/micro_thread/mt_cache.cpp\<close>: blocks of memory, a pool that keeps
  free blocks, and caches that hold a byte stream in a list of blocks. A block is in one list at a
  time (of a cache, or of the pool), so the lists hold the blocks themselves; \<open>head\<close>, \<open>end\<close> and
  \<open>data\<close> are offsets in the block. A cache argument is an object: the tests of its pointer against
  \<open>NULL\<close> are left out. A copy out of a block is \<^term>\<open>None\<close>, and so is a loop that does not end.
\<close>

section \<open>State\<close>

record sk_buffer =
  sk_mem :: "byte list"
  sk_last_time :: nat
  sk_size :: nat
  sk_data :: nat
  sk_data_len :: nat

text \<open>\<open>mg_world\<close> is the state of everything the code calls: the allocator, the clock, the socket.\<close>

record 'h sk_mng =
  mg_free_list :: "sk_buffer list"
  mg_expired :: nat
  mg_size :: nat
  mg_count :: nat
  mg_world :: 'h

record rw_cache =
  rw_list :: "sk_buffer list"
  rw_len :: nat
  rw_count :: nat
  rw_pool :: ptr

text \<open>
  \<open>malloc\<close>, \<open>mt_time_ms\<close>, \<open>recv\<close> (also \<open>recvfrom\<close>: the result, \<open>errno\<close> and the bytes) and \<open>send\<close>.
\<close>

record 'h sk_env =
  se_malloc :: "nat \<Rightarrow> 'h \<Rightarrow> byte list option \<times> 'h"
  se_time :: "'h \<Rightarrow> nat \<times> 'h"
  se_recv :: "nat \<Rightarrow> 'h \<Rightarrow> (int \<times> int \<times> byte list) \<times> 'h"
  se_send :: "byte list \<Rightarrow> 'h \<Rightarrow> (int \<times> int) \<times> 'h"

section \<open>Blocks and the pool\<close>

definition SK_DFLT_ALIGN_SIZE :: nat where "SK_DFLT_ALIGN_SIZE = 8"
definition SK_ERR_NEED_CLOSE :: int where "SK_ERR_NEED_CLOSE = 10000"
definition SK_EAGAIN :: int where "SK_EAGAIN = 11"

text \<open>\<open>sizeof(TSkBuffer)\<close> and the offset of \<open>buff\<close> in it, on 64-bit platforms.\<close>

definition SK_BUFFER_SIZEOF :: nat where "SK_BUFFER_SIZEOF = 56"
definition SK_BUFF_OFFSET :: nat where "SK_BUFF_OFFSET = 52"

definition new_sk_buffer :: "'h sk_env \<Rightarrow> nat \<Rightarrow> 'h \<Rightarrow> sk_buffer option \<times> 'h" where
  "new_sk_buffer env sz h =
     (let total0 = u32_add SK_BUFFER_SIZEOF sz;
          tot = u32_sub (u32_add total0 SK_DFLT_ALIGN_SIZE) 1 div SK_DFLT_ALIGN_SIZE * SK_DFLT_ALIGN_SIZE
      in case se_malloc env tot h of
           (None, h1) \<Rightarrow> (None, h1)
         | (Some m, h1) \<Rightarrow>
             (Some \<lparr>sk_mem = drop SK_BUFF_OFFSET m, sk_last_time = 0, sk_size = sz, sk_data = 0, sk_data_len = 0\<rparr>, h1))"

text \<open>\<open>reserve_sk_buffer\<close>; when there is no memory the old block is returned.\<close>

definition reserve_sk_buffer :: "'h sk_env \<Rightarrow> sk_buffer option \<Rightarrow> nat \<Rightarrow> 'h \<Rightarrow> (sk_buffer option \<times> 'h) option" where
  "reserve_sk_buffer env buff sz h =
     (case buff of
        None \<Rightarrow> Some (new_sk_buffer env sz h)
      | Some b \<Rightarrow>
          if sk_size b \<ge> sz then Some (Some b, h)
          else (case new_sk_buffer env sz h of
                  (None, h1) \<Rightarrow> Some (Some b, h1)
                | (Some n, h1) \<Rightarrow> do {
                    d \<leftarrow> mem_rd (sk_mem b) (sk_data b) (sk_data_len b);
                    m \<leftarrow> mem_wr (sk_mem n) (sk_data n) d;
                    Some (Some (n\<lparr>sk_mem := m, sk_data_len := sk_data_len b\<rparr>), h1)
                  }))"

definition sk_buffer_mng_init :: "nat \<Rightarrow> nat \<Rightarrow> 'h \<Rightarrow> 'h sk_mng" where
  "sk_buffer_mng_init expired sz h =
     \<lparr>mg_free_list = [], mg_expired = expired, mg_size = sz, mg_count = 0, mg_world = h\<rparr>"

definition sk_buffer_mng_destroy :: "'h sk_mng \<Rightarrow> 'h sk_mng" where
  "sk_buffer_mng_destroy mng = mng\<lparr>mg_free_list := [], mg_count := 0\<rparr>"

definition alloc_sk_buffer :: "'h sk_env \<Rightarrow> 'h sk_mng \<Rightarrow> sk_buffer option \<times> 'h sk_mng" where
  "alloc_sk_buffer env mng =
     (case mg_free_list mng of
        item # rest \<Rightarrow> (Some item, mng\<lparr>mg_free_list := rest, mg_count := u32_sub (mg_count mng) 1\<rparr>)
      | [] \<Rightarrow> (case new_sk_buffer env (mg_size mng) (mg_world mng) of (item, h) \<Rightarrow> (item, mng\<lparr>mg_world := h\<rparr>)))"

definition free_sk_buffer :: "'h sk_env \<Rightarrow> sk_buffer \<Rightarrow> 'h sk_mng \<Rightarrow> 'h sk_mng" where
  "free_sk_buffer env buff mng =
     (case se_time env (mg_world mng) of (ms, h) \<Rightarrow>
        mng\<lparr>mg_free_list := mg_free_list mng @ [buff\<lparr>sk_last_time := ms div 1000 mod u32_max, sk_data := 0, sk_data_len := 0\<rparr>],
            mg_count := u32_add (mg_count mng) 1, mg_world := h\<rparr>)"

fun recycle_loop :: "nat \<Rightarrow> nat \<Rightarrow> sk_buffer list \<Rightarrow> nat \<Rightarrow> sk_buffer list \<times> nat" where
  "recycle_loop now expired [] cnt = ([], cnt)"
| "recycle_loop now expired (item # rest) cnt =
     (if u32_sub now (sk_last_time item) < expired then (item # rest, cnt)
      else recycle_loop now expired rest (u32_sub cnt 1))"

definition recycle_sk_buffer :: "nat \<Rightarrow> 'h sk_mng \<Rightarrow> 'h sk_mng" where
  "recycle_sk_buffer now mng =
     (case recycle_loop now (mg_expired mng) (mg_free_list mng) (mg_count mng) of (l, n) \<Rightarrow>
        mng\<lparr>mg_free_list := l, mg_count := n\<rparr>)"

section \<open>Caches\<close>

definition rw_cache_init :: "ptr \<Rightarrow> rw_cache" where
  "rw_cache_init pool = \<lparr>rw_list = [], rw_len = 0, rw_count = 0, rw_pool = pool\<rparr>"

definition rw_cache_destroy :: "'h sk_env \<Rightarrow> rw_cache \<Rightarrow> 'h sk_mng \<Rightarrow> rw_cache \<times> 'h sk_mng" where
  "rw_cache_destroy env c mng =
     (if rw_pool c = NULL then (c, mng)
      else (\<lparr>rw_list = [], rw_len = 0, rw_count = 0, rw_pool = NULL\<rparr>,
            fold (free_sk_buffer env) (rw_list c) mng))"

text \<open>The loop of \<open>cache_copy_out\<close>; \<open>out\<close> is the destination, if there is one, and \<open>pos\<close> the position in it.\<close>

fun copy_out_loop ::
    "'h sk_env \<Rightarrow> sk_buffer list \<Rightarrow> byte list option \<Rightarrow> nat \<Rightarrow> nat \<Rightarrow> nat \<Rightarrow> 'h sk_mng \<Rightarrow>
     (sk_buffer list \<times> byte list option \<times> nat \<times> nat \<times> 'h sk_mng) option" where
  "copy_out_loop env [] out pos left cnt mng = Some ([], out, left, cnt, mng)"
| "copy_out_loop env (item # rest) out pos left cnt mng =
     (let skip_len = (if sk_data_len item > left then left else sk_data_len item)
      in do {
        out1 \<leftarrow> (case out of None \<Rightarrow> Some None
                 | Some o1 \<Rightarrow> do { d \<leftarrow> mem_rd (sk_mem item) (sk_data item) skip_len; o2 \<leftarrow> mem_wr o1 pos d; Some (Some o2) });
        let left1 = u32_sub left skip_len;
        let item1 = item\<lparr>sk_data_len := u32_sub (sk_data_len item) skip_len, sk_data := sk_data item + skip_len\<rparr>;
        if sk_data_len item1 > 0 then Some (item1 # rest, out1, left1, cnt, mng)
        else do {
          let cnt1 = (if cnt > 0 then cnt - 1 else cnt);
          let mng1 = free_sk_buffer env item1 mng;
          if left1 = 0 then Some (rest, out1, left1, cnt1, mng1)
          else copy_out_loop env rest out1 (pos + skip_len) left1 cnt1 mng1
        }
      })"

definition cache_copy_out ::
    "'h sk_env \<Rightarrow> byte list option \<Rightarrow> nat \<Rightarrow> rw_cache \<Rightarrow> 'h sk_mng \<Rightarrow> (nat \<times> byte list option \<times> rw_cache \<times> 'h sk_mng) option" where
  "cache_copy_out env out len c mng =
     (if rw_pool c = NULL then Some (0, out, c, mng)
      else do {
        (l, out1, left, cnt, mng1) \<leftarrow> copy_out_loop env (rw_list c) out 0 len (rw_count c) mng;
        let skip_len = u32_sub len left;
        let n = (if rw_len c > skip_len then u32_sub (rw_len c) skip_len else 0);
        Some (skip_len, out1, c\<lparr>rw_list := l, rw_count := cnt, rw_len := n\<rparr>, mng1)
      })"

definition cache_skip_data :: "'h sk_env \<Rightarrow> nat \<Rightarrow> rw_cache \<Rightarrow> 'h sk_mng \<Rightarrow> (rw_cache \<times> 'h sk_mng) option" where
  "cache_skip_data env len c mng = do { (n, out, c1, mng1) \<leftarrow> cache_copy_out env None len c mng; Some (c1, mng1) }"

definition cache_append_buffer :: "sk_buffer \<Rightarrow> rw_cache \<Rightarrow> rw_cache" where
  "cache_append_buffer buff c =
     c\<lparr>rw_list := rw_list c @ [buff], rw_len := u32_add (rw_len c) (sk_data_len buff), rw_count := u32_add (rw_count c) 1\<rparr>"

definition cache_skip_first_buffer :: "rw_cache \<Rightarrow> sk_buffer option \<times> rw_cache" where
  "cache_skip_first_buffer c =
     (case rw_list c of [] \<Rightarrow> (None, c)
      | buff # rest \<Rightarrow>
          (Some buff, c\<lparr>rw_list := rest, rw_len := (if rw_len c \<ge> sk_data_len buff then u32_sub (rw_len c) (sk_data_len buff) else rw_len c),
             rw_count := (if rw_count c > 0 then rw_count c - 1 else rw_count c)\<rparr>))"

text \<open>
  \<open>cache_append_data\<close>: what does not fit behind the last block goes to new blocks, which are filled
  before the last block is touched, so that a failed allocation changes nothing. \<open>keep\<close> is \<open>keep_list\<close>.
\<close>

partial_function (option) append_loop ::
    "'h sk_env \<Rightarrow> byte list \<Rightarrow> nat \<Rightarrow> nat \<Rightarrow> sk_buffer list \<Rightarrow> 'h sk_mng \<Rightarrow> (bool \<times> sk_buffer list \<times> 'h sk_mng) option" where
  "append_loop env data len left keep mng =
     (if left = 0 then Some (True, keep, mng)
      else case alloc_sk_buffer env mng of
        (None, mng1) \<Rightarrow> Some (False, keep, mng1)
      | (Some item, mng1) \<Rightarrow>
          if left \<le> sk_size item then do {
            d \<leftarrow> mem_rd data (len - left) left;
            m \<leftarrow> mem_wr (sk_mem item) 0 d;
            Some (True, keep @ [item\<lparr>sk_mem := m, sk_data_len := left\<rparr>], mng1)
          }
          else do {
            d \<leftarrow> mem_rd data (len - left) (sk_size item);
            m \<leftarrow> mem_wr (sk_mem item) 0 d;
            append_loop env data len (left - sk_size item) (keep @ [item\<lparr>sk_mem := m, sk_data_len := sk_size item\<rparr>]) mng1
          })"

text \<open>The bytes free behind the data of the last block, and writing there.\<close>

definition tail_remain :: "rw_cache \<Rightarrow> nat" where
  "tail_remain c =
     (if rw_list c = [] then 0
      else let tail = last (rw_list c)
           in if sk_size tail > sk_data tail + sk_data_len tail then sk_size tail - sk_data tail - sk_data_len tail else 0)"

definition tail_put :: "byte list \<Rightarrow> sk_buffer list \<Rightarrow> sk_buffer list option" where
  "tail_put d l =
     (let tail = last l
      in do {
        m \<leftarrow> mem_wr (sk_mem tail) (sk_data tail + sk_data_len tail) d;
        Some (butlast l @ [tail\<lparr>sk_mem := m, sk_data_len := u32_add (sk_data_len tail) (length d)\<rparr>])
      })"

definition cache_append_data ::
    "'h sk_env \<Rightarrow> byte list option \<Rightarrow> nat \<Rightarrow> rw_cache \<Rightarrow> 'h sk_mng \<Rightarrow> (int \<times> rw_cache \<times> 'h sk_mng) option" where
  "cache_append_data env data len c mng =
     (case data of None \<Rightarrow> Some (- 1, c, mng)
      | Some bs \<Rightarrow>
        if rw_pool c = NULL then Some (- 1, c, mng)
        else if len = 0 then Some (0, c, mng)
        else let remain = tail_remain c
        in if rw_list c \<noteq> [] \<and> remain \<ge> len then do {
             d \<leftarrow> mem_rd bs 0 len;
             l \<leftarrow> tail_put d (rw_list c);
             Some (sint (word_of_nat len :: u32), c\<lparr>rw_list := l, rw_len := u32_add (rw_len c) len\<rparr>, mng)
           }
           else do {
             (ok, keep, mng1) \<leftarrow> append_loop env bs len (u32_sub len remain) [] mng;
             if \<not> ok then Some (- 2, c, fold (free_sk_buffer env) keep mng1)
             else do {
               l \<leftarrow> (if rw_list c \<noteq> [] \<and> remain > 0
                     then do { d \<leftarrow> mem_rd bs 0 remain; tail_put d (rw_list c) } else Some (rw_list c));
               Some (sint (word_of_nat len :: u32),
                 c\<lparr>rw_list := l @ keep, rw_len := u32_add (rw_len c) len, rw_count := u32_add (rw_count c) (length keep)\<rparr>, mng1)
             }
           })"

text \<open>
  \<open>cache_udp_recv\<close> and \<open>cache_tcp_recv\<close>: at most 100 turns. The total is an \<open>int32_t\<close>. A \<open>recv\<close> or
  \<open>send\<close> moves at most \<open>0x7ffff000\<close> bytes, so its result fits the \<open>int32_t\<close> it is assigned to.
\<close>

fun udp_recv_loop :: "'h sk_env \<Rightarrow> nat \<Rightarrow> int \<Rightarrow> rw_cache \<Rightarrow> 'h sk_mng \<Rightarrow> (int \<times> rw_cache \<times> 'h sk_mng) option" where
  "udp_recv_loop env 0 tot c mng = Some (tot, c, mng)"
| "udp_recv_loop env (Suc i) tot c mng =
     (case alloc_sk_buffer env mng of
        (None, mng1) \<Rightarrow> Some (- 2, c, mng1)
      | (Some item, mng1) \<Rightarrow>
          (case se_recv env (sk_size item) (mg_world mng1) of ((rc, errno, bs), h) \<Rightarrow>
             if rc \<le> 0
             then let mng2 = free_sk_buffer env item (mng1\<lparr>mg_world := h\<rparr>)
                  in if errno = SK_EAGAIN then Some (tot, c, mng2) else Some (- 3, c, mng2)
             else do {
               m \<leftarrow> mem_wr (sk_mem item) (sk_data item) bs;
               udp_recv_loop env i (i32_wrap (tot + rc))
                 (cache_append_buffer (item\<lparr>sk_mem := m, sk_data_len := u32_add (sk_data_len item) (nat rc)\<rparr>) c) (mng1\<lparr>mg_world := h\<rparr>)
             }))"

definition cache_udp_recv :: "'h sk_env \<Rightarrow> rw_cache \<Rightarrow> 'h sk_mng \<Rightarrow> (int \<times> rw_cache \<times> 'h sk_mng) option" where
  "cache_udp_recv env c mng = udp_recv_loop env 100 0 c mng"

text \<open>The block \<open>cache_tcp_recv\<close> receives into: the last one when it has room, otherwise a new one.\<close>

definition tcp_recv_block :: "'h sk_env \<Rightarrow> rw_cache \<Rightarrow> 'h sk_mng \<Rightarrow> (bool \<times> rw_cache \<times> 'h sk_mng)" where
  "tcp_recv_block env c mng =
     (if rw_list c = [] \<or> sk_data_len (last (rw_list c)) + sk_data (last (rw_list c)) \<ge> sk_size (last (rw_list c))
      then (case alloc_sk_buffer env mng of
              (None, mng1) \<Rightarrow> (False, c, mng1)
            | (Some item, mng1) \<Rightarrow> (True, cache_append_buffer item c, mng1))
      else (True, c, mng))"

fun tcp_recv_loop :: "'h sk_env \<Rightarrow> nat \<Rightarrow> int \<Rightarrow> rw_cache \<Rightarrow> 'h sk_mng \<Rightarrow> (int \<times> rw_cache \<times> 'h sk_mng) option" where
  "tcp_recv_loop env 0 tot c mng = Some (tot, c, mng)"
| "tcp_recv_loop env (Suc i) tot c mng =
     (case tcp_recv_block env c mng of
        (False, c1, mng1) \<Rightarrow> Some (- 2, c1, mng1)
      | (True, c1, mng1) \<Rightarrow>
          let item = last (rw_list c1); remain = sk_size item - sk_data item - sk_data_len item
          in (case se_recv env remain (mg_world mng1) of ((n, errno, bs), h) \<Rightarrow>
                let mng2 = mng1\<lparr>mg_world := h\<rparr>
                in if n = 0 then Some (- SK_ERR_NEED_CLOSE, c1, mng2)
                   else if n < 0 then (if errno = SK_EAGAIN then Some (tot, c1, mng2) else Some (- 2, c1, mng2))
                   else do {
                     l \<leftarrow> tail_put bs (rw_list c1);
                     let c2 = c1\<lparr>rw_list := l, rw_len := u32_add (rw_len c1) (nat n)\<rparr>;
                     if n < i32_wrap (int remain) then Some (i32_wrap (tot + n), c2, mng2)
                     else tcp_recv_loop env i (i32_wrap (tot + n)) c2 mng2
                   }))"

definition cache_tcp_recv :: "'h sk_env \<Rightarrow> rw_cache \<Rightarrow> 'h sk_mng \<Rightarrow> (int \<times> rw_cache \<times> 'h sk_mng) option" where
  "cache_tcp_recv env c mng = tcp_recv_loop env 100 0 c mng"

text \<open>The loop of \<open>cache_tcp_send\<close>: the last result, its \<open>errno\<close> and the number of bytes sent.\<close>

fun send_blocks :: "'h sk_env \<Rightarrow> sk_buffer list \<Rightarrow> int \<Rightarrow> int \<Rightarrow> int \<Rightarrow> 'h \<Rightarrow> (int \<times> int \<times> int \<times> 'h) option" where
  "send_blocks env [] ret errno tot h = Some (ret, errno, tot, h)"
| "send_blocks env (item # rest) ret errno tot h = do {
     d \<leftarrow> mem_rd (sk_mem item) (sk_data item) (sk_data_len item);
     (case se_send env d h of ((r, e), h1) \<Rightarrow>
        if r < 0 then Some (r, e, tot, h1)
        else if r < i32_wrap (int (sk_data_len item)) then Some (r, e, i32_wrap (tot + r), h1)
        else send_blocks env rest r e (i32_wrap (tot + r)) h1)
   }"

definition cache_tcp_send :: "'h sk_env \<Rightarrow> rw_cache \<Rightarrow> 'h sk_mng \<Rightarrow> (int \<times> rw_cache \<times> 'h sk_mng) option" where
  "cache_tcp_send env c mng =
     (if rw_pool c = NULL then Some (- 1, c, mng)
      else if rw_len c = 0 then Some (0, c, mng)
      else do {
        (ret, errno, tot, h) \<leftarrow> send_blocks env (rw_list c) 0 0 0 (mg_world mng);
        (c1, mng1) \<leftarrow> cache_skip_data env (nat (tot mod 2 ^ 32)) c (mng\<lparr>mg_world := h\<rparr>);
        if ret < 0 \<and> errno \<noteq> SK_EAGAIN then Some (- 2, c1, mng1) else Some (tot, c1, mng1)
      })"

definition cache_tcp_send_buff ::
    "'h sk_env \<Rightarrow> byte list option \<Rightarrow> nat \<Rightarrow> rw_cache \<Rightarrow> 'h sk_mng \<Rightarrow> (int \<times> rw_cache \<times> 'h sk_mng) option" where
  "cache_tcp_send_buff env data len c mng =
     (case data of None \<Rightarrow> Some (- 1, c, mng)
      | Some bs \<Rightarrow> do {
          (ret, c1, mng1) \<leftarrow> cache_tcp_send env c mng;
          if ret < 0 then Some (ret, c1, mng1)
          else do {
            d \<leftarrow> mem_rd bs 0 len;
            let ((r, e), h) = (if rw_len c1 = 0 then se_send env d (mg_world mng1) else ((0, 0), mg_world mng1));
            let mng2 = mng1\<lparr>mg_world := h\<rparr>;
            if r < 0 \<and> e \<noteq> SK_EAGAIN then Some (- 2, c1, mng2)
            else do {
              let send_len = (if r \<ge> 0 then nat r else 0);
              (rc, c2, mng3) \<leftarrow> cache_append_data env (Some (drop send_len bs)) (u32_sub len send_len) c1 mng2;
              if rc < 0 then Some (- 3, c2, mng3) else Some (int send_len, c2, mng3)
            }
          }
        })"

section \<open>Reading a cache\<close>

definition get_data_len :: "rw_cache \<Rightarrow> nat" where "get_data_len c = rw_len c"
definition get_block_count :: "rw_cache \<Rightarrow> nat" where "get_block_count c = rw_count c"

text \<open>A block is named by its position in the list.\<close>

definition get_first_block :: "rw_cache \<Rightarrow> nat option" where
  "get_first_block c = (if rw_list c = [] then None else Some 0)"
definition get_next_block :: "rw_cache \<Rightarrow> nat \<Rightarrow> nat option" where
  "get_next_block c i = (if i + 1 < length (rw_list c) then Some (i + 1) else None)"
definition get_block_data :: "rw_cache \<Rightarrow> nat \<Rightarrow> byte list option" where
  "get_block_data c i =
     (if i < length (rw_list c) then let b = rw_list c ! i in mem_rd (sk_mem b) (sk_data b) (sk_data_len b) else None)"

fun read_loop :: "sk_buffer list \<Rightarrow> byte list option \<Rightarrow> nat \<Rightarrow> nat \<Rightarrow> (nat \<times> byte list option) option" where
  "read_loop [] out offset left_len = Some (offset, out)"
| "read_loop (item # rest) out offset left_len =
     (let copy_len = (if left_len \<le> sk_data_len item then left_len else sk_data_len item)
      in do {
        out1 \<leftarrow> (case out of None \<Rightarrow> Some None
                 | Some o1 \<Rightarrow> do { d \<leftarrow> mem_rd (sk_mem item) (sk_data item) copy_len; o2 \<leftarrow> mem_wr o1 offset d; Some (Some o2) });
        if left_len - copy_len = 0 then Some (offset + copy_len, out1)
        else read_loop rest out1 (offset + copy_len) (left_len - copy_len)
      })"

definition read_cache_data :: "rw_cache \<Rightarrow> byte list option \<Rightarrow> nat \<Rightarrow> (nat \<times> byte list option) option" where
  "read_cache_data c data len = read_loop (rw_list c) data 0 len"

fun begin_loop :: "sk_buffer list \<Rightarrow> byte list option \<Rightarrow> nat \<Rightarrow> nat \<Rightarrow> nat \<Rightarrow> (nat \<times> byte list option) option" where
  "begin_loop [] out pos_left offset copy_left = Some (offset, out)"
| "begin_loop (item # rest) out pos_left offset copy_left =
     (let skip_len = (if pos_left > 0 then (if pos_left > sk_data_len item then sk_data_len item else pos_left) else 0);
          real_left = sk_data_len item - skip_len
      in if real_left = 0 then begin_loop rest out (pos_left - skip_len) offset copy_left
         else let copy_len = (if copy_left > real_left then real_left else copy_left)
         in do {
           out1 \<leftarrow> (case out of None \<Rightarrow> Some None
                    | Some o1 \<Rightarrow> do { d \<leftarrow> mem_rd (sk_mem item) (sk_data item + skip_len) copy_len; o2 \<leftarrow> mem_wr o1 offset d; Some (Some o2) });
           if copy_left - copy_len = 0 then Some (offset + copy_len, out1)
           else begin_loop rest out1 (pos_left - skip_len) (offset + copy_len) (copy_left - copy_len)
         })"

definition read_cache_begin :: "rw_cache \<Rightarrow> nat \<Rightarrow> byte list option \<Rightarrow> nat \<Rightarrow> (nat \<times> byte list option) option" where
  "read_cache_begin c start data len =
     (if start \<ge> rw_len c then Some (0, data) else begin_loop (rw_list c) data start 0 len)"

end
