(* ===== verification/Byte_Fifo.thy ===== *)
theory Byte_Fifo
  imports Prelude
begin

text \<open>
  What the users of a cache rely on: bytes put at one end come out at the other, in order, once.
  Both caches of the program, the blocks of a connection of the proxy (\<open>comm/tbase/tsockcommu/tcache.cpp\<close>) and
  the lists of blocks of the micro-thread sockets (\<open>mt_cache.cpp\<close>), promise it.
\<close>

datatype fifo_op = Put "byte list" | Get nat

fun puts :: "fifo_op list \<Rightarrow> nat" where
  "puts [] = 0"
| "puts (Put d # ops) = length d + puts ops"
| "puts (Get n # ops) = puts ops"

text \<open>A sequence of operations; the result has the bytes accepted, the bytes delivered and the cache.\<close>

fun fifo_run ::
    "(byte list \<Rightarrow> 's \<Rightarrow> (bool \<times> 's) option) \<Rightarrow> (nat \<Rightarrow> 's \<Rightarrow> (byte list \<times> 's) option) \<Rightarrow> fifo_op list \<Rightarrow> 's \<Rightarrow>
     (byte list \<times> byte list \<times> 's) option" where
  "fifo_run put get [] s = Some ([], [], s)"
| "fifo_run put get (Put d # ops) s = do {
     (ok, s1) \<leftarrow> put d s;
     (a, r, s2) \<leftarrow> fifo_run put get ops s1;
     Some ((if ok then d else []) @ a, r, s2)
   }"
| "fifo_run put get (Get n # ops) s = do {
     (d, s1) \<leftarrow> get n s;
     (a, r, s2) \<leftarrow> fifo_run put get ops s1;
     Some (a, d @ r, s2)
   }"

text \<open>\<open>fits n s\<close>: the sizes of \<open>s\<close> do not wrap around when \<open>n\<close> more bytes are put.\<close>

locale byte_fifo =
  fixes invar :: "'s \<Rightarrow> bool"
    and bytes :: "'s \<Rightarrow> byte list"
    and fits :: "nat \<Rightarrow> 's \<Rightarrow> bool"
    and put :: "byte list \<Rightarrow> 's \<Rightarrow> (bool \<times> 's) option"
    and get :: "nat \<Rightarrow> 's \<Rightarrow> (byte list \<times> 's) option"
  assumes put_law: "\<lbrakk>invar s; fits (length d + n) s\<rbrakk> \<Longrightarrow>
      \<exists>ok s1. put d s = Some (ok, s1) \<and> invar s1 \<and> bytes s1 = bytes s @ (if ok then d else []) \<and> fits n s1"
    and get_law: "\<lbrakk>invar s; fits n s; k < u32_max\<rbrakk> \<Longrightarrow>
      \<exists>s1. get k s = Some (take k (bytes s), s1) \<and> invar s1 \<and> bytes s1 = drop k (bytes s) \<and> fits n s1"
begin

lemma run_stream:
  "\<lbrakk>invar s; fits (puts ops) s; \<forall>k. Get k \<in> set ops \<longrightarrow> k < u32_max\<rbrakk> \<Longrightarrow>
   \<exists>a r s1. fifo_run put get ops s = Some (a, r, s1) \<and> invar s1 \<and> bytes s @ a = r @ bytes s1"
proof (induction ops arbitrary: s)
  case Nil
  then show ?case by simp
next
  case (Cons x ops)
  show ?case
  proof (cases x)
    case (Put d)
    then obtain ok s1 where p: "put d s = Some (ok, s1)" "invar s1" "bytes s1 = bytes s @ (if ok then d else [])" "fits (puts ops) s1"
      using put_law [of s d "puts ops"] Cons.prems by auto
    obtain a r s2 where "fifo_run put get ops s1 = Some (a, r, s2)" "invar s2" "bytes s1 @ a = r @ bytes s2"
      using Cons.IH [OF p(2,4)] Cons.prems(3) by auto
    with p Put show ?thesis by auto
  next
    case (Get k)
    then obtain s1 where g: "get k s = Some (take k (bytes s), s1)" "invar s1" "bytes s1 = drop k (bytes s)" "fits (puts ops) s1"
      using get_law [of s "puts ops" k] Cons.prems by auto
    obtain a r s2 where r: "fifo_run put get ops s1 = Some (a, r, s2)" "invar s2" "bytes s1 @ a = r @ bytes s2"
      using Cons.IH [OF g(2,4)] Cons.prems(3) by auto
    have "bytes s @ a = take k (bytes s) @ bytes s1 @ a" using g(3) by simp
    with g Get r show ?thesis by auto
  qed
qed

end

end
