(* ===== verification/Sk_Stream.thy ===== *)
theory Sk_Stream
  imports Sk_Cache Byte_Fifo
begin

text \<open>
  A cache of socket buffers is a byte string: appending concatenates, copying out takes a prefix,
  sending moves a prefix to the socket, receiving appends what the socket gave.
\<close>

section \<open>Invariants\<close>

definition blk_ok :: "sk_buffer \<Rightarrow> bool" where
  "blk_ok b \<longleftrightarrow> sk_size b \<le> length (sk_mem b) \<and> sk_data b + sk_data_len b \<le> sk_size b \<and> 0 < sk_size b \<and> sk_size b < u32_max"

definition blk_bytes :: "sk_buffer \<Rightarrow> byte list" where
  "blk_bytes b = take (sk_data_len b) (drop (sk_data b) (sk_mem b))"

abbreviation list_bytes :: "sk_buffer list \<Rightarrow> byte list" where
  "list_bytes l \<equiv> concat (map blk_bytes l)"

definition cache_bytes :: "rw_cache \<Rightarrow> byte list" where
  "cache_bytes c = list_bytes (rw_list c)"

definition cache_ok :: "rw_cache \<Rightarrow> bool" where
  "cache_ok c \<longleftrightarrow> rw_pool c \<noteq> NULL \<and> (\<forall>b \<in> set (rw_list c). blk_ok b) \<and> rw_len c = length (cache_bytes c) \<and>
     rw_len c < u32_max \<and> rw_count c = length (rw_list c) \<and> length (rw_list c) < u32_max"

definition clean :: "sk_buffer \<Rightarrow> bool" where
  "clean b \<longleftrightarrow> blk_ok b \<and> sk_data b = 0 \<and> sk_data_len b = 0"

definition pool_ok :: "'h sk_mng \<Rightarrow> bool" where
  "pool_ok mng \<longleftrightarrow> (\<forall>b \<in> set (mg_free_list mng). clean b) \<and> 0 < mg_size mng \<and> mg_size mng + 64 < u32_max \<and>
     mg_count mng = length (mg_free_list mng) mod u32_max"

text \<open>
  What the code relies on: \<open>malloc\<close> returns a block of the size asked for, \<open>send\<close> takes a prefix of
  what it is given, \<open>recv\<close> gives at most the number of bytes asked for. \<open>taken\<close> and \<open>given\<close> are the
  bytes that went to and came from the socket; the other calls leave them alone.
\<close>

definition sk_env_ok :: "'h sk_env \<Rightarrow> ('h \<Rightarrow> byte list) \<Rightarrow> ('h \<Rightarrow> byte list) \<Rightarrow> bool" where
  "sk_env_ok env taken given \<longleftrightarrow>
     (\<forall>n h m h'. se_malloc env n h = (m, h') \<longrightarrow> (\<forall>bs. m = Some bs \<longrightarrow> length bs = n) \<and> taken h' = taken h \<and> given h' = given h) \<and>
     (\<forall>h t h'. se_time env h = (t, h') \<longrightarrow> taken h' = taken h \<and> given h' = given h) \<and>
     (\<forall>d h r e h'. se_send env d h = ((r, e), h') \<longrightarrow> r \<le> int (length d) \<and> taken h' = taken h @ take (nat r) d \<and> given h' = given h) \<and>
     (\<forall>n h r e bs h'. se_recv env n h = ((r, e, bs), h') \<longrightarrow> r \<le> int n \<and> length bs = nat r \<and> given h' = given h @ bs \<and> taken h' = taken h)"

lemma sk_env_okD:
  assumes "sk_env_ok env taken given"
  shows "se_malloc env n h = (m, h1) \<Longrightarrow> (\<forall>bs. m = Some bs \<longrightarrow> length bs = n) \<and> taken h1 = taken h \<and> given h1 = given h"
    "se_time env h = (t, h1) \<Longrightarrow> taken h1 = taken h \<and> given h1 = given h"
    "se_send env d h = ((r, e), h1) \<Longrightarrow> r \<le> int (length d) \<and> taken h1 = taken h @ take (nat r) d \<and> given h1 = given h"
    "se_recv env n h = ((r, e, bs), h1) \<Longrightarrow> r \<le> int n \<and> length bs = nat r \<and> given h1 = given h @ bs \<and> taken h1 = taken h"
  using assms unfolding sk_env_ok_def by blast+

text \<open>What an operation on the pool leaves alone.\<close>

definition quiet :: "('h \<Rightarrow> byte list) \<Rightarrow> ('h \<Rightarrow> byte list) \<Rightarrow> 'h sk_mng \<Rightarrow> 'h sk_mng \<Rightarrow> bool" where
  "quiet taken given m m' \<longleftrightarrow> pool_ok m' \<and> taken (mg_world m') = taken (mg_world m) \<and> given (mg_world m') = given (mg_world m)"

lemma quiet_trans: "quiet t g a b \<Longrightarrow> quiet t g b c \<Longrightarrow> quiet t g a c"
  by (simp add: quiet_def)

section \<open>The pool\<close>

lemma u32_mod_step:
  "u32_add (n mod u32_max) 1 = Suc n mod u32_max" "u32_sub (Suc n mod u32_max) 1 = n mod u32_max"
proof -
  show "u32_add (n mod u32_max) 1 = Suc n mod u32_max" by (simp add: u32_add_def mod_simps)
  have "u32_sub (Suc n mod u32_max) 1 = (Suc n mod u32_max + (u32_max - 1)) mod u32_max"
    by (simp add: u32_sub_def u32_max_def)
  also have "\<dots> = (Suc n + (u32_max - 1)) mod u32_max" by (simp only: mod_add_left_eq)
  also have "Suc n + (u32_max - 1) = n + u32_max" by (simp add: u32_max_def)
  finally show "u32_sub (Suc n mod u32_max) 1 = n mod u32_max" by simp
qed

lemma new_sk_buffer_ok:
  assumes env: "sk_env_ok env taken given" and sz: "0 < n" "n + 64 < u32_max" and res: "new_sk_buffer env n h = (b, h1)"
  shows "(\<forall>x. b = Some x \<longrightarrow> clean x \<and> sk_size x = n) \<and> taken h1 = taken h \<and> given h1 = given h"
proof -
  define total where "total = (n + 63) div 8 * 8"
  have "n + 63 = total + (n + 63) mod 8" by (simp add: total_def)
  then have le: "n + 56 \<le> total" using mod_less_divisor [of 8 "n + 63"] by linarith
  have t: "u32_sub (u32_add (u32_add SK_BUFFER_SIZEOF n) SK_DFLT_ALIGN_SIZE) 1 div SK_DFLT_ALIGN_SIZE * SK_DFLT_ALIGN_SIZE = total"
    using sz by (simp add: u32_add_exact u32_sub_exact SK_BUFFER_SIZEOF_def SK_DFLT_ALIGN_SIZE_def total_def add.commute)
  obtain m h2 where m: "se_malloc env total h = (m, h2)" by (cases "se_malloc env total h")
  note r = res [unfolded new_sk_buffer_def Let_def t m]
  show ?thesis
    using r sk_env_okD(1) [OF env m] le sz by (auto simp: clean_def blk_ok_def SK_BUFF_OFFSET_def split: option.splits)
qed

lemma alloc_sk_buffer_ok:
  assumes env: "sk_env_ok env taken given" and ok: "pool_ok mng" and res: "alloc_sk_buffer env mng = (b, mng1)"
  shows "(\<forall>x. b = Some x \<longrightarrow> clean x) \<and> quiet taken given mng mng1"
proof (cases "mg_free_list mng")
  case Nil
  obtain b1 h where n: "new_sk_buffer env (mg_size mng) (mg_world mng) = (b1, h)" by (metis surj_pair)
  then have "b1 = b" "mng1 = mng\<lparr>mg_world := h\<rparr>" using res Nil by (auto simp: alloc_sk_buffer_def)
  then show ?thesis using new_sk_buffer_ok [OF env _ _ n] ok by (auto simp: quiet_def pool_ok_def)
next
  case (Cons x xs)
  then have "b = Some x" "mng1 = mng\<lparr>mg_free_list := xs, mg_count := u32_sub (mg_count mng) 1\<rparr>"
    using res by (auto simp: alloc_sk_buffer_def)
  then show ?thesis using ok Cons u32_mod_step(2) [of "length xs"] by (simp add: quiet_def pool_ok_def)
qed

lemma free_sk_buffer_ok:
  assumes env: "sk_env_ok env taken given" and ok: "pool_ok mng" "blk_ok b"
  shows "quiet taken given mng (free_sk_buffer env b mng)" "length (mg_free_list (free_sk_buffer env b mng)) = Suc (length (mg_free_list mng))"
proof -
  obtain t h where t: "se_time env (mg_world mng) = (t, h)" by (cases "se_time env (mg_world mng)")
  show "quiet taken given mng (free_sk_buffer env b mng)" "length (mg_free_list (free_sk_buffer env b mng)) = Suc (length (mg_free_list mng))"
    using ok sk_env_okD(2) [OF env t] u32_mod_step(1) [of "length (mg_free_list mng)"]
    by (auto simp: free_sk_buffer_def t quiet_def pool_ok_def clean_def blk_ok_def)
qed

lemma free_list_ok:
  assumes env: "sk_env_ok env taken given"
  shows "pool_ok mng \<Longrightarrow> (\<forall>b \<in> set l. blk_ok b) \<Longrightarrow> quiet taken given mng (fold (free_sk_buffer env) l mng)"
proof (induction l arbitrary: mng)
  case Nil
  then show ?case by (simp add: quiet_def)
next
  case (Cons b l)
  have q: "quiet taken given mng (free_sk_buffer env b mng)" using free_sk_buffer_ok(1) [OF env] Cons.prems by simp
  then have "pool_ok (free_sk_buffer env b mng)" by (simp add: quiet_def)
  with q Cons.IH [of "free_sk_buffer env b mng"] Cons.prems show ?case by (auto intro: quiet_trans)
qed

section \<open>Copying out\<close>

lemma blk_bytes_length [simp]: "blk_ok b \<Longrightarrow> length (blk_bytes b) = sk_data_len b"
  by (auto simp: blk_ok_def blk_bytes_def)

lemma blk_prefix: "n \<le> sk_data_len b \<Longrightarrow> take n (drop (sk_data b) (sk_mem b)) = take n (blk_bytes b)"
  by (simp add: blk_bytes_def min_def)

text \<open>Taking \<open>n\<close> bytes from the front of a block.\<close>

lemma blk_advance:
  assumes "blk_ok b" "n \<le> sk_data_len b" "b1 = b\<lparr>sk_data_len := u32_sub (sk_data_len b) n, sk_data := sk_data b + n\<rparr>"
  shows "blk_ok b1" "blk_bytes b1 = drop n (blk_bytes b)" "sk_data_len b1 = sk_data_len b - n"
proof -
  have u: "u32_sub (sk_data_len b) n = sk_data_len b - n" using assms(1,2) by (simp add: blk_ok_def u32_sub_exact)
  with assms show "blk_ok b1" "sk_data_len b1 = sk_data_len b - n" by (auto simp: blk_ok_def)
  show "blk_bytes b1 = drop n (blk_bytes b)" using u assms by (simp add: blk_bytes_def drop_take add.commute)
qed

definition out_ok :: "byte list option \<Rightarrow> nat \<Rightarrow> nat \<Rightarrow> bool" where
  "out_ok out pos n \<longleftrightarrow> (case out of None \<Rightarrow> True | Some o1 \<Rightarrow> pos + n \<le> length o1)"

definition out_put :: "nat \<Rightarrow> byte list \<Rightarrow> byte list option \<Rightarrow> byte list option" where
  "out_put pos d out = map_option (\<lambda>o1. take pos o1 @ d @ drop (pos + length d) o1) out"

lemma out_put_append: "out_ok out pos (length a + length b) \<Longrightarrow> out_put (pos + length a) b (out_put pos a out) = out_put pos (a @ b) out"
  by (auto simp: out_put_def out_ok_def ac_simps split: option.splits)

lemma out_put_Nil [simp]: "out_put pos [] out = out"
  by (cases out) (auto simp: out_put_def)

lemma out_copy:
  assumes "n \<le> sk_data_len b" "blk_ok b" "out_ok out pos n" "off = sk_data b"
  shows "(case out of None \<Rightarrow> Some None
     | Some o1 \<Rightarrow> do { d \<leftarrow> mem_rd (sk_mem b) off n; o2 \<leftarrow> mem_wr o1 pos d; Some (Some o2) }) = Some (out_put pos (take n (blk_bytes b)) out)"
  using assms by (auto simp: out_put_def out_ok_def mem_rd_def mem_wr_def blk_ok_def blk_prefix [symmetric] split: option.split)

lemma copy_out_loop_ok:
  assumes env: "sk_env_ok env taken given"
  shows "\<lbrakk>\<forall>b \<in> set l. blk_ok b; pool_ok mng; left < u32_max; n = min left (length (list_bytes l)); out_ok out pos n\<rbrakk> \<Longrightarrow>
    \<exists>l1 mng1. copy_out_loop env l out pos left (length l) mng = Some (l1, out_put pos (take n (list_bytes l)) out, left - n, length l1, mng1) \<and>
      (\<forall>b \<in> set l1. blk_ok b) \<and> list_bytes l1 = drop n (list_bytes l) \<and> quiet taken given mng mng1 \<and>
      length l1 + length (mg_free_list mng1) = length l + length (mg_free_list mng)"
proof (induction l arbitrary: out pos left mng n)
  case Nil
  then show ?case by (simp add: quiet_def)
next
  case (Cons b l)
  define k where "k = min left (sk_data_len b)"
  define b1 where "b1 = b\<lparr>sk_data_len := u32_sub (sk_data_len b) k, sk_data := sk_data b + k\<rparr>"
  have b: "blk_ok b" and l: "\<forall>b \<in> set l. blk_ok b" using Cons.prems(1) by simp_all
  have kb: "k \<le> sk_data_len b" "k \<le> left" "k \<le> n" using Cons.prems(4) b by (auto simp: k_def)
  have kif: "(if left < sk_data_len b then left else sk_data_len b) = k" by (simp add: k_def min_def)
  note adv = blk_advance [OF b kb(1) b1_def]
  have left1: "u32_sub left k = left - k" using kb Cons.prems(3) by (simp add: u32_sub_exact)
  have o1: "(case out of None \<Rightarrow> Some None
     | Some o1 \<Rightarrow> do { d \<leftarrow> mem_rd (sk_mem b) (sk_data b) k; o2 \<leftarrow> mem_wr o1 pos d; Some (Some o2) }) = Some (out_put pos (take k (blk_bytes b)) out)"
    by (rule out_copy) (use kb b Cons.prems(5) in \<open>auto simp: out_ok_def split: option.splits\<close>)
  have fr: "quiet taken given mng (free_sk_buffer env b1 mng)"
    "length (mg_free_list (free_sk_buffer env b1 mng)) = Suc (length (mg_free_list mng))"
    using free_sk_buffer_ok [OF env Cons.prems(2) adv(1)] by simp_all
  have turn: "copy_out_loop env (b # l) out pos left (length (b # l)) mng =
     (if sk_data_len b1 > 0 then Some (b1 # l, out_put pos (take k (blk_bytes b)) out, left - k, length (b # l), mng)
      else if left - k = 0 then Some (l, out_put pos (take k (blk_bytes b)) out, left - k, length l, free_sk_buffer env b1 mng)
      else copy_out_loop env l (out_put pos (take k (blk_bytes b)) out) (pos + k) (left - k) (length l) (free_sk_buffer env b1 mng))"
    unfolding copy_out_loop.simps Let_def kif o1 left1 b1_def [symmetric] by simp
  show ?case
  proof (cases "sk_data_len b1 > 0 \<or> left = k")
    case True
    then have n: "n = k" using adv(3) kb b Cons.prems(4) by (auto simp: k_def)
    show ?thesis
    proof (cases "sk_data_len b1 > 0")
      case True
      then show ?thesis unfolding turn using n b l adv Cons.prems(2) kb by (auto simp: quiet_def)
    next
      case False
      then have "left = k" "sk_data_len b = k" using \<open>sk_data_len b1 > 0 \<or> left = k\<close> adv(3) kb by auto
      then show ?thesis unfolding turn using n b l fr False by auto
    qed
  next
    case False
    then have k: "k = sk_data_len b" "k < left" using adv(3) kb by auto
    have tk: "take k (blk_bytes b) = blk_bytes b" using k b by simp
    have n: "n = k + min (left - k) (length (list_bytes l))" using Cons.prems(4) k b by auto
    have fo: "pool_ok (free_sk_buffer env b1 mng)" using fr(1) by (simp add: quiet_def)
    have "out_ok (out_put pos (blk_bytes b) out) (pos + k) (min (left - k) (length (list_bytes l)))"
      using Cons.prems(5) n k b by (auto simp: out_ok_def out_put_def split: option.splits)
    note ih = Cons.IH [OF l fo _ refl this]
    have lt: "left - k < u32_max" and nk: "n - k = min (left - k) (length (list_bytes l))" using Cons.prems(3) n by simp_all
    obtain l1 mng1 where r: "copy_out_loop env l (out_put pos (blk_bytes b) out) (pos + k) (left - k) (length l) (free_sk_buffer env b1 mng) =
        Some (l1, out_put (pos + k) (take (n - k) (list_bytes l)) (out_put pos (blk_bytes b) out), left - k - (n - k), length l1, mng1)"
      "\<forall>b \<in> set l1. blk_ok b" "list_bytes l1 = drop (n - k) (list_bytes l)" "quiet taken given (free_sk_buffer env b1 mng) mng1"
      "length l1 + length (mg_free_list mng1) = length l + length (mg_free_list (free_sk_buffer env b1 mng))"
      using ih [OF lt] unfolding nk by blast
    have "out_put (pos + k) (take (n - k) (list_bytes l)) (out_put pos (blk_bytes b) out) = out_put pos (take n (list_bytes (b # l))) out"
    proof -
      have len: "length (take (n - k) (list_bytes l)) = n - k" "length (blk_bytes b) = k" "k \<le> n" using nk k b n by auto
      then have "take n (list_bytes (b # l)) = blk_bytes b @ take (n - k) (list_bytes l)" by simp
      moreover have "out_ok out pos (length (blk_bytes b) + length (take (n - k) (list_bytes l)))" using Cons.prems(5) len by simp
      ultimately show ?thesis using out_put_append [of out pos "blk_bytes b" "take (n - k) (list_bytes l)"] len(2) by simp
    qed
    with r False k tk n b fr show ?thesis unfolding turn by (auto intro: quiet_trans)
  qed
qed

lemma copy_out_pool:
  "copy_out_loop env l out pos left cnt mng = Some (l1, out1, left1, cnt1, mng1) \<Longrightarrow> length (mg_free_list mng) \<le> length (mg_free_list mng1)"
proof (induction l arbitrary: out pos left cnt mng)
  case (Cons b l)
  have f: "length (mg_free_list (free_sk_buffer env x mng)) = Suc (length (mg_free_list mng))" for x
    by (simp add: free_sk_buffer_def split: prod.split)
  from Cons.prems show ?case
    by (auto simp: Let_def f split: bind_splits if_splits dest!: Cons.IH)
qed simp

lemma cache_copy_out_ok:
  assumes env: "sk_env_ok env taken given" and c: "cache_ok c" "pool_ok mng" "len < u32_max"
    and n: "n = min len (length (cache_bytes c))" and out: "out_ok out 0 n"
  shows "\<exists>c1 mng1. cache_copy_out env out len c mng = Some (n, out_put 0 (take n (cache_bytes c)) out, c1, mng1) \<and>
    cache_ok c1 \<and> cache_bytes c1 = drop n (cache_bytes c) \<and> quiet taken given mng mng1 \<and>
    length (rw_list c1) + length (mg_free_list mng1) = length (rw_list c) + length (mg_free_list mng) \<and>
    length (rw_list c1) \<le> length (rw_list c)"
proof -
  obtain l1 mng1 where r: "copy_out_loop env (rw_list c) out 0 len (rw_count c) mng =
      Some (l1, out_put 0 (take n (cache_bytes c)) out, len - n, length l1, mng1)"
    "\<forall>b \<in> set l1. blk_ok b" "list_bytes l1 = drop n (cache_bytes c)" "quiet taken given mng mng1"
    "length l1 + length (mg_free_list mng1) = length (rw_list c) + length (mg_free_list mng)"
    using copy_out_loop_ok [OF env _ c(2,3), of "rw_list c" n out 0] c(1) n out by (auto simp: cache_ok_def cache_bytes_def)
  have le: "length l1 \<le> length (rw_list c)"
  proof -
    have "length (mg_free_list mng) \<le> length (mg_free_list mng1)" using copy_out_pool [OF r(1)] .
    then show ?thesis using r(5) by linarith
  qed
  have u: "u32_sub len (len - n) = n" using n c(3) by (simp add: u32_sub_exact)
  have v: "u32_sub (length (cache_bytes c)) n = length (cache_bytes c) - n"
    using c(1) n by (auto simp: cache_ok_def u32_sub_exact)
  let ?c = "c\<lparr>rw_list := l1, rw_count := length l1, rw_len := length (cache_bytes c) - n\<rparr>"
  have "cache_copy_out env out len c mng = Some (n, out_put 0 (take n (cache_bytes c)) out, ?c, mng1)"
    using c(1) r(1) by (simp add: cache_copy_out_def cache_ok_def u v)
  moreover have "cache_bytes ?c = drop n (cache_bytes c)" using r(3) by (simp add: cache_bytes_def)
  moreover have "cache_ok ?c" using c(1) r(2) le calculation(2) by (auto simp: cache_ok_def)
  ultimately show ?thesis using r(4,5) le by (intro exI [of _ ?c] exI [of _ mng1]) simp
qed

section \<open>Appending\<close>

lemma blk_put:
  assumes b: "blk_ok b" and d: "sk_data b + sk_data_len b + length d \<le> sk_size b"
  obtains m where "mem_wr (sk_mem b) (sk_data b + sk_data_len b) d = Some m"
    "blk_ok (b\<lparr>sk_mem := m, sk_data_len := sk_data_len b + length d\<rparr>)"
    "blk_bytes (b\<lparr>sk_mem := m, sk_data_len := sk_data_len b + length d\<rparr>) = blk_bytes b @ d"
proof -
  let ?m = "take (sk_data b + sk_data_len b) (sk_mem b) @ d @ drop (sk_data b + sk_data_len b + length d) (sk_mem b)"
  have "mem_wr (sk_mem b) (sk_data b + sk_data_len b) d = Some ?m" using b d by (simp add: blk_ok_def mem_wr_def)
  moreover have "drop (sk_data b) ?m = blk_bytes b @ d @ drop (sk_data b + sk_data_len b + length d) (sk_mem b)"
    using b by (simp add: blk_ok_def blk_bytes_def drop_take)
  moreover have "blk_ok (b\<lparr>sk_mem := ?m, sk_data_len := sk_data_len b + length d\<rparr>)" using b d by (auto simp: blk_ok_def)
  ultimately show thesis using b by (intro that [of ?m]) (simp_all add: blk_bytes_def [of "b\<lparr>sk_mem := ?m, sk_data_len := _\<rparr>"])
qed

lemma tail_put_ok:
  assumes "l \<noteq> []" "\<forall>b \<in> set l. blk_ok b" "sk_data (last l) + sk_data_len (last l) + length d \<le> sk_size (last l)"
  obtains l1 where "tail_put d l = Some l1" "l1 \<noteq> []" "\<forall>b \<in> set l1. blk_ok b" "list_bytes l1 = list_bytes l @ d" "length l1 = length l"
proof -
  let ?b = "last l"
  have b: "blk_ok ?b" using assms by simp
  obtain m where m: "mem_wr (sk_mem ?b) (sk_data ?b + sk_data_len ?b) d = Some m"
    "blk_ok (?b\<lparr>sk_mem := m, sk_data_len := sk_data_len ?b + length d\<rparr>)"
    "blk_bytes (?b\<lparr>sk_mem := m, sk_data_len := sk_data_len ?b + length d\<rparr>) = blk_bytes ?b @ d"
    by (rule blk_put [OF b assms(3)]) (rule that)
  have u: "u32_add (sk_data_len ?b) (length d) = sk_data_len ?b + length d" using b assms(3) by (simp add: blk_ok_def u32_add_exact)
  let ?l = "butlast l @ [?b\<lparr>sk_mem := m, sk_data_len := sk_data_len ?b + length d\<rparr>]"
  have "list_bytes l = list_bytes (butlast l) @ blk_bytes ?b"
    by (subst append_butlast_last_id [OF assms(1), symmetric]) (simp del: append_butlast_last_id)
  then show thesis
    using m u assms(1,2) by (intro that [of ?l]) (auto simp: tail_put_def Let_def dest: in_set_butlastD)
qed

lemma append_loop_ok:
  assumes env: "sk_env_ok env taken given" and len: "len \<le> length data"
  shows "left \<le> len \<Longrightarrow> \<forall>b \<in> set keep. blk_ok b \<Longrightarrow> pool_ok mng \<Longrightarrow>
    \<exists>ok keep1 mng1. append_loop env data len left keep mng = Some (ok, keep1, mng1) \<and> quiet taken given mng mng1 \<and>
      (\<forall>b \<in> set keep1. blk_ok b) \<and> length keep1 \<le> length keep + left \<and>
      (ok \<longrightarrow> list_bytes keep1 = list_bytes keep @ take left (drop (len - left) data)) \<and>
      (\<not> ok \<longrightarrow> (\<exists>n h. fst (se_malloc env n h) = None))"
proof (induction left arbitrary: keep mng rule: less_induct)
  case (less left)
  obtain b mng1 where a: "alloc_sk_buffer env mng = (b, mng1)" by (cases "alloc_sk_buffer env mng")
  note al = alloc_sk_buffer_ok [OF env less.prems(3) a]
  show ?case
  proof (cases "left = 0")
    case True
    then show ?thesis using less.prems by (subst append_loop.simps) (auto simp: quiet_def)
  next
    case left: False
    show ?thesis
    proof (cases b)
      case None
      then have "\<exists>n h. fst (se_malloc env n h) = None"
        using a by (auto simp: alloc_sk_buffer_def new_sk_buffer_def Let_def split: list.splits prod.splits option.splits) (metis fst_conv)+
      then show ?thesis using left a None al less.prems by (subst append_loop.simps) auto
    next
      case (Some x)
      then have x: "blk_ok x" "sk_data x = 0" "sk_data_len x = 0" "blk_bytes x = []" using al by (auto simp: clean_def blk_bytes_def)
      define k where "k = min left (sk_size x)"
      define d where "d = take k (drop (len - left) data)"
      have d: "length d = k" "mem_rd data (len - left) k = Some d"
        using less.prems(1) len by (auto simp: d_def k_def mem_rd_def)
      obtain m where m: "mem_wr (sk_mem x) 0 d = Some m" "blk_ok (x\<lparr>sk_mem := m, sk_data_len := k\<rparr>)"
        "blk_bytes (x\<lparr>sk_mem := m, sk_data_len := k\<rparr>) = d"
        by (rule blk_put [OF x(1), of d]) (use x d that in \<open>auto simp: k_def\<close>)
      let ?keep = "keep @ [x\<lparr>sk_mem := m, sk_data_len := k\<rparr>]"
      have keep: "\<forall>b \<in> set ?keep. blk_ok b" "list_bytes ?keep = list_bytes keep @ d" using less.prems(2) m by auto
      have turn: "append_loop env data len left keep mng =
          (if left \<le> sk_size x then Some (True, ?keep, mng1) else append_loop env data len (left - k) ?keep mng1)"
        using left a Some d m by (subst append_loop.simps) (auto simp: k_def min_def)
      show ?thesis
      proof (cases "left \<le> sk_size x")
        case True
        then show ?thesis using turn keep al left by (auto simp: d_def k_def)
      next
        case False
        then have lt: "left - k < left" "k = sk_size x" "k \<le> left" "0 < k" using x(1) left by (auto simp: k_def blk_ok_def)
        have p1: "pool_ok mng1" and le: "left - k \<le> len" using al less.prems(1) by (simp_all add: quiet_def)
        obtain ok keep1 mng2 where r:
          "append_loop env data len (left - k) ?keep mng1 = Some (ok, keep1, mng2)" "quiet taken given mng1 mng2"
          "\<forall>b \<in> set keep1. blk_ok b" "length keep1 \<le> length ?keep + (left - k)"
          "ok \<longrightarrow> list_bytes keep1 = list_bytes ?keep @ take (left - k) (drop (len - (left - k)) data)"
          "\<not> ok \<longrightarrow> (\<exists>n h. fst (se_malloc env n h) = None)"
          using less.IH [OF lt(1) le keep(1) p1] by blast
        have "len - (left - k) = k + (len - left)" using less.prems(1) lt by simp
        then have "take left (drop (len - left) data) = d @ take (left - k) (drop (len - (left - k)) data)"
          using take_add [of k "left - k" "drop (len - left) data"] lt by (simp add: d_def)
        then have "ok \<longrightarrow> list_bytes keep1 = list_bytes keep @ take left (drop (len - left) data)"
          using r(5) keep(2) by simp
        moreover have "quiet taken given mng mng2" using al r(2) quiet_trans by blast
        ultimately show ?thesis using turn False r lt by auto
      qed
    qed
  qed
qed

text \<open>
  \<open>cache_append_data\<close> succeeds and appends all of the data, or a block could not be allocated and
  the cache is as it was.
\<close>

lemma cache_append_ok:
  assumes env: "sk_env_ok env taken given" and c: "cache_ok c" "pool_ok mng" and len: "len \<le> length data" "len < 2 ^ 31"
    and room: "rw_len c + len < u32_max" "length (rw_list c) + len < u32_max"
  shows "\<exists>r c1 mng1. cache_append_data env (Some data) len c mng = Some (r, c1, mng1) \<and> cache_ok c1 \<and> quiet taken given mng mng1 \<and>
    length (rw_list c1) \<le> length (rw_list c) + len \<and>
    (r = int len \<and> cache_bytes c1 = cache_bytes c @ take len data \<or> r = - 2 \<and> c1 = c \<and> (\<exists>n h. fst (se_malloc env n h) = None))"
proof (cases "len = 0")
  case True
  then show ?thesis using c by (auto simp: cache_append_data_def cache_ok_def quiet_def)
next
  case len0: False
  have si: "sint (word_of_nat len :: u32) = int len"
    using len(2) by (simp add: signed_of_nat signed_take_bit_int_eq_self)
  define remain where "remain = tail_remain c"
  have blocks: "\<forall>b \<in> set (rw_list c). blk_ok b" and pool: "rw_pool c \<noteq> NULL" using c(1) by (simp_all add: cache_ok_def)
  have rem: "rw_list c \<noteq> [] \<Longrightarrow> sk_data (last (rw_list c)) + sk_data_len (last (rw_list c)) + remain \<le> sk_size (last (rw_list c))"
    "rw_list c = [] \<Longrightarrow> remain = 0"
    using blocks by (auto simp: remain_def tail_remain_def Let_def blk_ok_def)
  have put: "\<exists>l1. (if rw_list c \<noteq> [] \<and> k > 0 then do { d \<leftarrow> mem_rd data 0 k; tail_put d (rw_list c) } else Some (rw_list c)) = Some l1 \<and>
      (\<forall>b \<in> set l1. blk_ok b) \<and> list_bytes l1 = list_bytes (rw_list c) @ take k data \<and> length l1 = length (rw_list c)"
    if k: "k \<le> remain" "k \<le> length data" for k
  proof (cases "rw_list c \<noteq> [] \<and> k > 0")
    case True
    have d: "mem_rd data 0 k = Some (take k data)" "length (take k data) = k" using k by (simp_all add: mem_rd_def)
    obtain l1 where "tail_put (take k data) (rw_list c) = Some l1" "\<forall>b \<in> set l1. blk_ok b"
      "list_bytes l1 = list_bytes (rw_list c) @ take k data" "length l1 = length (rw_list c)"
      by (rule tail_put_ok [of "rw_list c" "take k data"]) (use True blocks rem d k in auto)
    then show ?thesis using True d by auto
  next
    case False
    then have "k = 0" using rem(2) k by auto
    then show ?thesis using blocks by simp
  qed
  show ?thesis
  proof (cases "rw_list c \<noteq> [] \<and> remain \<ge> len")
    case True
    obtain l1 where l1: "do { d \<leftarrow> mem_rd data 0 len; tail_put d (rw_list c) } = Some l1" "\<forall>b \<in> set l1. blk_ok b"
      "list_bytes l1 = list_bytes (rw_list c) @ take len data" "length l1 = length (rw_list c)"
      using put [of len] True len len0 by auto
    let ?c = "c\<lparr>rw_list := l1, rw_len := rw_len c + len\<rparr>"
    have "cache_append_data env (Some data) len c mng = Some (int len, ?c, mng)"
      using True pool len0 l1(1) room by (auto simp: cache_append_data_def Let_def si u32_add_exact simp flip: remain_def split: bind_splits)
    moreover have "cache_bytes ?c = cache_bytes c @ take len data" using l1 by (simp add: cache_bytes_def)
    moreover have "cache_ok ?c" using c(1) l1 room len calculation(2) by (auto simp: cache_ok_def)
    ultimately show ?thesis using c(2) l1(4) by (intro exI [of _ "int len"] exI [of _ ?c] exI [of _ mng]) (simp add: quiet_def)
  next
    case False
    then have rl: "remain < len" using rem(2) len0 by (cases "rw_list c = []") auto
    then have u: "u32_sub len remain = len - remain" using len(2) by (simp add: u32_sub_exact u32_max_def)
    obtain ok keep mng1 where a: "append_loop env data len (len - remain) [] mng = Some (ok, keep, mng1)" "quiet taken given mng mng1"
      "\<forall>b \<in> set keep. blk_ok b" "length keep \<le> length ([] :: sk_buffer list) + (len - remain)"
      "ok \<longrightarrow> list_bytes keep = list_bytes [] @ take (len - remain) (drop (len - (len - remain)) data)"
      "\<not> ok \<longrightarrow> (\<exists>n h. fst (se_malloc env n h) = None)"
      using append_loop_ok [OF env len(1) diff_le_self _ c(2), of "[]" remain] unfolding list.set ball_empty by blast
    show ?thesis
    proof (cases ok)
      case False
      have "pool_ok mng1" using a(2) by (simp add: quiet_def)
      from quiet_trans [OF a(2) free_list_ok [OF env this a(3)]] have "quiet taken given mng (fold (free_sk_buffer env) keep mng1)" .
      moreover have "cache_append_data env (Some data) len c mng = Some (- 2, c, fold (free_sk_buffer env) keep mng1)"
        using False \<open>\<not> (rw_list c \<noteq> [] \<and> remain \<ge> len)\<close> pool len0 a(1) by (auto simp: cache_append_data_def Let_def u simp flip: remain_def)
      ultimately show ?thesis using False a(6) c(1) by auto
    next
      case True
      obtain l1 where l1: "(if rw_list c \<noteq> [] \<and> remain > 0 then do { d \<leftarrow> mem_rd data 0 remain; tail_put d (rw_list c) } else Some (rw_list c)) = Some l1"
        "\<forall>b \<in> set l1. blk_ok b" "list_bytes l1 = list_bytes (rw_list c) @ take remain data" "length l1 = length (rw_list c)"
        using put [of remain] rl len(1) by auto
      let ?c = "c\<lparr>rw_list := l1 @ keep, rw_len := rw_len c + len, rw_count := rw_count c + length keep\<rparr>"
      have cnt: "u32_add (rw_count c) (length keep) = rw_count c + length keep"
        using c(1) room(2) a(4) by (intro u32_add_exact) (simp add: cache_ok_def)
      have "cache_append_data env (Some data) len c mng = Some (int len, ?c, mng1)"
        using True \<open>\<not> (rw_list c \<noteq> [] \<and> remain \<ge> len)\<close> rl pool len0 a(1) l1(1) room cnt
        by (simp add: cache_append_data_def Let_def si u u32_add_exact flip: remain_def)
      moreover have "take len data = take remain data @ take (len - remain) (drop remain data)"
        using take_add [of remain "len - remain" data] rl by simp
      then have "cache_bytes ?c = cache_bytes c @ take len data" using l1(3) a(5) True rl by (simp add: cache_bytes_def)
      moreover have "cache_ok ?c" using c(1) l1 a(3,4) room len calculation(2) by (auto simp: cache_ok_def)
      ultimately show ?thesis using a(2,4) l1(4) by (intro exI [of _ "int len"] exI [of _ ?c] exI [of _ mng1]) simp
    qed
  qed
qed

section \<open>Sending\<close>

lemma send_blocks_ok:
  assumes env: "sk_env_ok env taken given"
  shows "\<lbrakk>\<forall>b \<in> set l. blk_ok b; 0 \<le> tot; tot + int (length (list_bytes l)) < 2 ^ 31\<rbrakk> \<Longrightarrow>
    \<exists>r e n h1. send_blocks env l ret errno tot h = Some (r, e, tot + int n, h1) \<and> n \<le> length (list_bytes l) \<and>
    taken h1 = taken h @ take n (list_bytes l) \<and> given h1 = given h"
proof (induction l arbitrary: ret errno tot h)
  case Nil
  then show ?case by simp
next
  case (Cons b l)
  have b: "blk_ok b" using Cons.prems by simp
  have rd: "mem_rd (sk_mem b) (sk_data b) (sk_data_len b) = Some (blk_bytes b)" using b by (simp add: mem_rd_def blk_ok_def blk_bytes_def)
  obtain r e h1 where s: "se_send env (blk_bytes b) h = ((r, e), h1)" by (metis surj_pair)
  have r: "r \<le> int (sk_data_len b)" "taken h1 = taken h @ take (nat r) (blk_bytes b)" "given h1 = given h"
    using sk_env_okD(3) [OF env s] b by simp_all
  have fit: "i32_wrap (int (sk_data_len b)) = int (sk_data_len b)" "0 \<le> r \<Longrightarrow> i32_wrap (tot + r) = tot + r"
    using Cons.prems(2,3) b r(1) by (auto intro: i32_wrap_exact)
  consider "r < 0" | "0 \<le> r" "r < int (sk_data_len b)" | "r = int (sk_data_len b)" using r(1) by linarith
  then show ?case
  proof cases
    case 1
    then show ?thesis using rd s r by (intro exI [of _ r] exI [of _ e] exI [of _ 0] exI [of _ h1]) simp
  next
    case 2
    then show ?thesis using rd s r b fit by (intro exI [of _ r] exI [of _ e] exI [of _ "nat r"] exI [of _ h1]) (simp add: nat_le_iff)
  next
    case 3
    obtain r1 e1 n h2 where "send_blocks env l r e (tot + r) h1 = Some (r1, e1, tot + r + int n, h2)" "n \<le> length (list_bytes l)"
      "taken h2 = taken h1 @ take n (list_bytes l)" "given h2 = given h1"
      using Cons.IH [of "tot + r" r e h1] Cons.prems b 3 by auto
    then show ?thesis using rd s r b 3 fit
      by (intro exI [of _ r1] exI [of _ e1] exI [of _ "nat r + n"] exI [of _ h2]) (simp add: add.assoc)
  qed
qed

text \<open>The bytes at the socket and in the cache, in order.\<close>

definition moved :: "('h \<Rightarrow> byte list) \<Rightarrow> ('h \<Rightarrow> byte list) \<Rightarrow> rw_cache \<Rightarrow> 'h sk_mng \<Rightarrow> rw_cache \<Rightarrow> 'h sk_mng \<Rightarrow> byte list \<Rightarrow> bool" where
  "moved taken given c mng c1 mng1 data \<longleftrightarrow> cache_ok c1 \<and> pool_ok mng1 \<and> given (mg_world mng1) = given (mg_world mng) \<and>
     taken (mg_world mng1) @ cache_bytes c1 = taken (mg_world mng) @ cache_bytes c @ data"

lemma cache_tcp_send_ok:
  assumes env: "sk_env_ok env taken given" and c: "cache_ok c" "pool_ok mng" "rw_len c < 2 ^ 31"
  shows "\<exists>r c1 mng1. cache_tcp_send env c mng = Some (r, c1, mng1) \<and> moved taken given c mng c1 mng1 [] \<and>
    (r \<ge> 0 \<longrightarrow> length (taken (mg_world mng1)) = length (taken (mg_world mng)) + nat r) \<and> (r < 0 \<longrightarrow> r = - 2) \<and>
    length (rw_list c1) \<le> length (rw_list c)"
proof (cases "rw_len c = 0")
  case True
  then show ?thesis using c by (auto simp: cache_tcp_send_def cache_ok_def moved_def)
next
  case False
  have blocks: "\<forall>b \<in> set (rw_list c). blk_ok b" and pool: "rw_pool c \<noteq> NULL" using c(1) by (simp_all add: cache_ok_def)
  obtain r e n h1 where s: "send_blocks env (rw_list c) 0 0 0 (mg_world mng) = Some (r, e, int n, h1)" "n \<le> length (cache_bytes c)"
    "taken h1 = taken (mg_world mng) @ take n (cache_bytes c)" "given h1 = given (mg_world mng)"
    using send_blocks_ok [OF env blocks, of 0 0 0 "mg_world mng"] c(1,3) by (auto simp: cache_bytes_def cache_ok_def)
  have p: "pool_ok (mng\<lparr>mg_world := h1\<rparr>)" using c(2) by (simp add: pool_ok_def)
  have n: "n < u32_max" "n = min n (length (cache_bytes c))" using s(2) c(1) by (auto simp: cache_ok_def)
  obtain c1 mng1 where o: "cache_copy_out env None n c (mng\<lparr>mg_world := h1\<rparr>) = Some (n, out_put 0 (take n (cache_bytes c)) None, c1, mng1)"
    "cache_ok c1" "cache_bytes c1 = drop n (cache_bytes c)" "quiet taken given (mng\<lparr>mg_world := h1\<rparr>) mng1"
    "length (rw_list c1) \<le> length (rw_list c)"
    using cache_copy_out_ok [OF env c(1) p n, of None] by (auto simp: out_ok_def)
  have "cache_skip_data env n c (mng\<lparr>mg_world := h1\<rparr>) = Some (c1, mng1)" using o(1) by (simp add: cache_skip_data_def)
  moreover have "nat (int n mod 2 ^ 32) = n" using n(1) by (simp add: u32_max_def)
  ultimately have "cache_tcp_send env c mng = Some (if r < 0 \<and> e \<noteq> SK_EAGAIN then - 2 else int n, c1, mng1)"
    using False pool s(1) by (simp add: cache_tcp_send_def)
  moreover have "moved taken given c mng c1 mng1 []" using o s by (simp add: moved_def quiet_def)
  ultimately show ?thesis using o(4,5) s(2,3) by (auto simp: quiet_def)
qed

text \<open>
  \<open>cache_tcp_send_buff\<close>: unless an error is returned, what the socket has taken followed by the new cache is the
  old cache followed by the data. After the error \<open>-3\<close> the part of the data that was not sent is lost.
\<close>

lemma cache_tcp_send_buff_ok:
  assumes env: "sk_env_ok env taken given" and c: "cache_ok c" "pool_ok mng" and len: "len = length data" "len < 2 ^ 31"
    and room: "rw_len c < 2 ^ 31" "length (rw_list c) + len < u32_max"
  shows "\<exists>r c1 mng1 sent. cache_tcp_send_buff env (Some data) len c mng = Some (r, c1, mng1) \<and> sent \<le> len \<and>
    moved taken given c mng c1 mng1 (if r \<ge> 0 then data else take sent data) \<and>
    (r < 0 \<longrightarrow> r \<in> {- 2, - 3} \<and> (r = - 3 \<longrightarrow> (\<exists>n h. fst (se_malloc env n h) = None)))"
proof -
  obtain r c1 mng1 where s: "cache_tcp_send env c mng = Some (r, c1, mng1)" "moved taken given c mng c1 mng1 []"
    "r \<ge> 0 \<longrightarrow> length (taken (mg_world mng1)) = length (taken (mg_world mng)) + nat r" "length (rw_list c1) \<le> length (rw_list c)"
    "r < 0 \<longrightarrow> r = - 2"
    using cache_tcp_send_ok [OF env c room(1)] by blast
  show ?thesis
  proof (cases "r < 0")
    case True
    then have "r = - 2" using s(5) by simp
    then show ?thesis using s(1,2) by (intro exI [of _ r] exI [of _ c1] exI [of _ mng1] exI [of _ 0]) (simp add: cache_tcp_send_buff_def)
  next
    case False
    obtain r1 e h where x: "(if rw_len c1 = 0 then se_send env data (mg_world mng1) else ((0, 0), mg_world mng1)) = ((r1, e), h)"
      by (metis surj_pair)
    define k where "k = (if r1 \<ge> 0 then nat r1 else 0)"
    have c1: "cache_ok c1" "pool_ok mng1" using s(2) by (simp_all add: moved_def)
    have h: "k \<le> len" "taken h = taken (mg_world mng1) @ take k data" "given h = given (mg_world mng1)" "rw_len c1 \<noteq> 0 \<Longrightarrow> k = 0"
      using x sk_env_okD(3) [OF env, of data "mg_world mng1" r1 e h] len(1) by (auto simp: k_def nat_le_iff split: if_splits)
    define mng2 where "mng2 = mng1\<lparr>mg_world := h\<rparr>"
    have m2: "pool_ok mng2" using c1(2) by (simp add: mng2_def pool_ok_def)
    have st: "taken h @ cache_bytes c1 = taken (mg_world mng) @ cache_bytes c @ take k data"
      using s(2) h(2,4) c1(1) by (cases "rw_len c1 = 0") (auto simp: moved_def cache_ok_def)
    have u: "u32_sub len k = len - k" using h(1) len(2) by (simp add: u32_sub_exact u32_max_def)
    have eq: "cache_tcp_send_buff env (Some data) len c mng =
        (if r1 < 0 \<and> e \<noteq> SK_EAGAIN then Some (- 2, c1, mng2)
         else do { (rc, c2, mng3) \<leftarrow> cache_append_data env (Some (drop k data)) (len - k) c1 mng2;
                   if rc < 0 then Some (- 3, c2, mng3) else Some (int k, c2, mng3) })"
      using False s(1) len(1) x u by (simp add: cache_tcp_send_buff_def mem_rd_def mng2_def Let_def flip: k_def)
    have l1: "rw_len c1 \<le> rw_len c"
    proof -
      have "taken (mg_world mng1) @ cache_bytes c1 = taken (mg_world mng) @ cache_bytes c" using s(2) by (simp add: moved_def)
      from arg_cong [OF this, of length] s(3) False have "length (cache_bytes c1) \<le> length (cache_bytes c)" by simp
      then show ?thesis using c(1) c1(1) by (simp add: cache_ok_def)
    qed
    have sum: "rw_len c + len < u32_max" using room(1) len(2) by (simp add: u32_max_def)
    have pre: "len - k \<le> length (drop k data)" "len - k < 2 ^ 31" "rw_len c1 + (len - k) < u32_max" "length (rw_list c1) + (len - k) < u32_max"
      using len room(2) sum l1 s(4) by (simp_all only: length_drop)
    obtain rc c2 mng3 where a: "cache_append_data env (Some (drop k data)) (len - k) c1 mng2 = Some (rc, c2, mng3)" "cache_ok c2"
      "quiet taken given mng2 mng3"
      "rc = int (len - k) \<and> cache_bytes c2 = cache_bytes c1 @ take (len - k) (drop k data) \<or>
       rc = - 2 \<and> c2 = c1 \<and> (\<exists>n h. fst (se_malloc env n h) = None)"
      using cache_append_ok [OF env c1(1) m2 pre] by blast
    have w: "taken (mg_world mng2) = taken h" "given (mg_world mng2) = given h" by (simp_all add: mng2_def)
    show ?thesis
    proof (cases "r1 < 0 \<and> e \<noteq> SK_EAGAIN")
      case True
      then show ?thesis using eq st h c1 m2 w s(2)
        by (intro exI [of _ "- 2"] exI [of _ c1] exI [of _ mng2] exI [of _ k]) (simp add: moved_def)
    next
      case False
      show ?thesis
      proof (cases "rc < 0")
        case True
        then have "c2 = c1" "\<exists>n h. fst (se_malloc env n h) = None" using a(4) by auto
        then show ?thesis using eq False True a st h c1 w s(2)
          by (intro exI [of _ "- 3"] exI [of _ c2] exI [of _ mng3] exI [of _ k]) (simp add: moved_def quiet_def)
      next
        case False
        then have "cache_bytes c2 = cache_bytes c1 @ drop k data" using a(4) len(1) by auto
        then have "taken h @ cache_bytes c2 = (taken h @ cache_bytes c1) @ drop k data" by simp
        then have "taken h @ cache_bytes c2 = taken (mg_world mng) @ cache_bytes c @ data" unfolding st by simp
        then show ?thesis using eq False \<open>\<not> (r1 < 0 \<and> e \<noteq> SK_EAGAIN)\<close> a h w s(2)
          by (intro exI [of _ "int k"] exI [of _ c2] exI [of _ mng3] exI [of _ k]) (simp add: moved_def quiet_def)
      qed
    qed
  qed
qed

section \<open>Receiving\<close>

text \<open>\<open>S\<close> bounds the size of the blocks a pool hands out.\<close>

definition sized :: "nat \<Rightarrow> 'h sk_mng \<Rightarrow> bool" where
  "sized S mng \<longleftrightarrow> mg_size mng \<le> S \<and> (\<forall>b \<in> set (mg_free_list mng). sk_size b \<le> S)"

lemma alloc_sized:
  assumes "sized S mng" "alloc_sk_buffer env mng = (b, mng1)"
  shows "sized S mng1" "b = Some x \<Longrightarrow> sk_size x \<le> S"
  using assms by (auto simp: alloc_sk_buffer_def sized_def new_sk_buffer_def Let_def split: list.splits prod.splits option.splits)

text \<open>What has come from the socket is at the end of the cache.\<close>

definition received :: "('h \<Rightarrow> byte list) \<Rightarrow> ('h \<Rightarrow> byte list) \<Rightarrow> rw_cache \<Rightarrow> 'h sk_mng \<Rightarrow> int \<Rightarrow> int \<times> rw_cache \<times> 'h sk_mng \<Rightarrow> bool" where
  "received taken given c mng tot res \<longleftrightarrow> (case res of (r, c1, mng1) \<Rightarrow> cache_ok c1 \<and> pool_ok mng1 \<and> taken (mg_world mng1) = taken (mg_world mng) \<and>
     (\<exists>d. cache_bytes c1 = cache_bytes c @ d \<and> given (mg_world mng1) = given (mg_world mng) @ d \<and>
        (if r \<ge> 0 then r = tot + int (length d) else r \<in> {- 2, - 3, - SK_ERR_NEED_CLOSE})))"

lemma received_step:
  assumes "received taken given c1 mng1 tot1 res" "cache_bytes c1 = cache_bytes c @ d" "given (mg_world mng1) = given (mg_world mng) @ d"
    "taken (mg_world mng1) = taken (mg_world mng)" "tot1 = tot + int (length d)"
  shows "received taken given c mng tot res"
proof -
  obtain r c2 mng2 where res: "res = (r, c2, mng2)" by (cases res)
  from assms(1) obtain d2 where d2: "cache_bytes c2 = cache_bytes c1 @ d2" "given (mg_world mng2) = given (mg_world mng1) @ d2"
    "if r \<ge> 0 then r = tot1 + int (length d2) else r \<in> {- 2, - 3, - SK_ERR_NEED_CLOSE}"
    "cache_ok c2" "pool_ok mng2" "taken (mg_world mng2) = taken (mg_world mng1)"
    unfolding received_def res by auto
  then show ?thesis unfolding received_def res using assms(2-5) by (auto intro!: exI [of _ "d @ d2"])
qed

lemma received_stop:
  assumes "cache_ok c1" "pool_ok mng1" "taken (mg_world mng1) = taken (mg_world mng)" "given (mg_world mng1) = given (mg_world mng)"
    "cache_bytes c1 = cache_bytes c" "r = tot \<and> 0 \<le> tot \<or> r \<in> {- 2, - 3, - SK_ERR_NEED_CLOSE}"
  shows "received taken given c mng tot (r, c1, mng1)"
  unfolding received_def using assms by (auto simp: SK_ERR_NEED_CLOSE_def)

lemma append_clean:
  assumes "cache_ok c" "blk_ok b" "rw_len c + sk_data_len b < u32_max" "length (rw_list c) + 1 < u32_max"
  shows "cache_ok (cache_append_buffer b c)" "cache_bytes (cache_append_buffer b c) = cache_bytes c @ blk_bytes b"
    "rw_list (cache_append_buffer b c) = rw_list c @ [b]" "rw_len (cache_append_buffer b c) = rw_len c + sk_data_len b"
  using assms by (auto simp: cache_append_buffer_def cache_ok_def cache_bytes_def u32_add_exact)

lemma tcp_recv_block_ok:
  assumes env: "sk_env_ok env taken given" and c: "cache_ok c" "pool_ok mng" "sized S mng" "length (rw_list c) + 1 < u32_max"
    and last: "rw_list c \<noteq> [] \<Longrightarrow> sk_size (last (rw_list c)) \<le> S" and res: "tcp_recv_block env c mng = (ok, c1, mng1)"
  shows "cache_ok c1 \<and> cache_bytes c1 = cache_bytes c \<and> quiet taken given mng mng1 \<and> sized S mng1 \<and> length (rw_list c1) \<le> length (rw_list c) + 1 \<and>
    (ok \<longrightarrow> rw_list c1 \<noteq> [] \<and> sk_size (last (rw_list c1)) \<le> S \<and>
       sk_data (last (rw_list c1)) + sk_data_len (last (rw_list c1)) < sk_size (last (rw_list c1)))"
proof (cases "rw_list c = [] \<or> sk_data_len (last (rw_list c)) + sk_data (last (rw_list c)) \<ge> sk_size (last (rw_list c))")
  case False
  then show ?thesis using res c last by (auto simp: tcp_recv_block_def quiet_def)
next
  case True
  obtain b mng2 where a: "alloc_sk_buffer env mng = (b, mng2)" by (cases "alloc_sk_buffer env mng")
  note al = alloc_sk_buffer_ok [OF env c(2) a] alloc_sized [OF c(3) a]
  show ?thesis
  proof (cases b)
    case None
    then show ?thesis using res True a al c(1) by (simp add: tcp_recv_block_def)
  next
    case (Some x)
    then have x: "blk_ok x" "sk_data x = 0" "sk_data_len x = 0" "blk_bytes x = []" "sk_size x \<le> S" using al by (auto simp: clean_def blk_bytes_def)
    have r: "ok" "c1 = cache_append_buffer x c" "mng1 = mng2" using res True a Some by (auto simp: tcp_recv_block_def)
    have "rw_len c + sk_data_len x < u32_max" using c(1) x by (simp add: cache_ok_def)
    from append_clean [OF c(1) x(1) this c(4)] show ?thesis using r al x by (simp add: blk_ok_def)
  qed
qed

lemma tcp_recv_loop_ok:
  assumes env: "sk_env_ok env taken given"
  shows "\<lbrakk>cache_ok c; pool_ok mng; sized S mng; rw_list c \<noteq> [] \<longrightarrow> sk_size (last (rw_list c)) \<le> S; rw_len c + i * S < u32_max;
     length (rw_list c) + i < u32_max; 0 \<le> tot; tot + int (i * S) < 2 ^ 31\<rbrakk> \<Longrightarrow>
   \<exists>res. tcp_recv_loop env i tot c mng = Some res \<and> received taken given c mng tot res"
proof (induction i arbitrary: tot c mng)
  case 0
  then show ?case by (auto intro: received_stop)
next
  case (Suc i)
  obtain ok c1 mng1 where b: "tcp_recv_block env c mng = (ok, c1, mng1)" by (metis surj_pair)
  have len1: "length (rw_list c) + 1 < u32_max" using Suc.prems(6) by simp
  have t: "cache_ok c1" "cache_bytes c1 = cache_bytes c" "quiet taken given mng mng1" "sized S mng1" "length (rw_list c1) \<le> length (rw_list c) + 1"
    "ok \<Longrightarrow> rw_list c1 \<noteq> []" "ok \<Longrightarrow> sk_size (last (rw_list c1)) \<le> S"
    "ok \<Longrightarrow> sk_data (last (rw_list c1)) + sk_data_len (last (rw_list c1)) < sk_size (last (rw_list c1))"
    using tcp_recv_block_ok [OF env Suc.prems(1-3) len1 _ b] Suc.prems(4) by blast+
  show ?case
  proof (cases ok)
    case False
    then show ?thesis using b t by (auto simp: quiet_def intro!: received_stop)
  next
    case True
    let ?item = "last (rw_list c1)"
    define remain where "remain = sk_size ?item - sk_data ?item - sk_data_len ?item"
    obtain n e bs h where rv: "se_recv env remain (mg_world mng1) = ((n, e, bs), h)" by (metis surj_pair)
    note r = sk_env_okD(4) [OF env rv]
    define mng2 where "mng2 = mng1\<lparr>mg_world := h\<rparr>"
    have m2: "pool_ok mng2" "taken (mg_world mng2) = taken (mg_world mng)" "given (mg_world mng2) = given (mg_world mng) @ bs" "sized S mng2"
      using t(3,4) r by (simp_all add: mng2_def quiet_def pool_ok_def sized_def)
    have turn: "tcp_recv_loop env (Suc i) tot c mng =
        (if n = 0 then Some (- SK_ERR_NEED_CLOSE, c1, mng2)
         else if n < 0 then (if e = SK_EAGAIN then Some (tot, c1, mng2) else Some (- 2, c1, mng2))
         else do { l \<leftarrow> tail_put bs (rw_list c1);
                   let c2 = c1\<lparr>rw_list := l, rw_len := u32_add (rw_len c1) (nat n)\<rparr>;
                   if n < i32_wrap (int remain) then Some (i32_wrap (tot + n), c2, mng2)
                   else tcp_recv_loop env i (i32_wrap (tot + n)) c2 mng2 })"
    proof -
      have "tcp_recv_block env c mng = (True, c1, mng1)" using b True by simp
      then show ?thesis
        unfolding tcp_recv_loop.simps Let_def by (simp only: prod.case bool.case remain_def [symmetric] rv mng2_def [symmetric])
    qed
    show ?thesis
    proof (cases "n \<le> 0")
      case True
      then have "bs = []" using r by simp
      then show ?thesis unfolding turn using True m2 t Suc.prems(7) by (auto intro!: received_stop)
    next
      case False
      then have nb: "nat n = length bs" "n = int (length bs)" "length bs \<le> remain" using r by auto
      have rs: "remain \<le> S" using t(7) \<open>ok\<close> by (simp add: remain_def)
      have "tot + int S + int (i * S) < 2 ^ 31" using Suc.prems(8) by simp
      moreover have "0 \<le> int (i * S)" by (rule of_nat_0_le_iff)
      ultimately have lim: "int remain < 2 ^ 31" "tot + n < 2 ^ 31" "tot + n + int (i * S) < 2 ^ 31"
        using Suc.prems(7) nb rs by linarith+
      have fit: "i32_wrap (int remain) = int remain" "i32_wrap (tot + n) = tot + n"
        by (rule i32_wrap_exact; use lim Suc.prems(7) False in linarith)+
      obtain l where l: "tail_put bs (rw_list c1) = Some l" "l \<noteq> []" "\<forall>b \<in> set l. blk_ok b" "list_bytes l = list_bytes (rw_list c1) @ bs"
        "length l = length (rw_list c1)"
        by (rule tail_put_ok [of "rw_list c1" bs]) (use t \<open>ok\<close> nb that in \<open>auto simp: cache_ok_def remain_def\<close>)
      have lsz: "sk_size (last l) = sk_size (last (rw_list c1))"
        using l(1) by (auto simp: tail_put_def Let_def split: bind_splits)
      have room: "rw_len c1 + length bs + i * S < u32_max"
        using Suc.prems(5) nb rs t(1,2) Suc.prems(1) by (simp add: cache_ok_def)
      let ?c2 = "c1\<lparr>rw_list := l, rw_len := rw_len c1 + length bs\<rparr>"
      have cb: "cache_bytes ?c2 = cache_bytes c @ bs" using l(4) t(2) by (simp add: cache_bytes_def)
      have c2: "cache_ok ?c2" using t(1) l cb room t(2) by (simp add: cache_ok_def)
      have eq: "tcp_recv_loop env (Suc i) tot c mng = (if n < int remain then Some (tot + n, ?c2, mng2) else tcp_recv_loop env i (tot + n) ?c2 mng2)"
        unfolding turn fit(1,2) using False l(1) nb room by (simp add: u32_add_exact)
      have stop: "received taken given ?c2 mng2 (tot + n) (tot + n, ?c2, mng2)"
        using c2 m2 Suc.prems(7) False by (intro received_stop) auto
      have "\<exists>res. tcp_recv_loop env i (tot + n) ?c2 mng2 = Some res \<and> received taken given ?c2 mng2 (tot + n) res"
        by (rule Suc.IH) (use c2 m2 lsz t(5,7) \<open>ok\<close> room l Suc.prems(6,7) False lim(3) in auto)
      then show ?thesis unfolding eq using stop received_step [OF _ cb m2(3,2), of "tot + n" _ tot] nb by auto
    qed
  qed
qed

lemma udp_recv_loop_ok:
  assumes env: "sk_env_ok env taken given"
  shows "\<lbrakk>cache_ok c; pool_ok mng; sized S mng; rw_len c + i * S < u32_max; length (rw_list c) + i < u32_max; 0 \<le> tot;
     tot + int (i * S) < 2 ^ 31\<rbrakk> \<Longrightarrow>
   \<exists>res. udp_recv_loop env i tot c mng = Some res \<and> received taken given c mng tot res"
proof (induction i arbitrary: tot c mng)
  case 0
  then show ?case by (auto intro: received_stop)
next
  case (Suc i)
  obtain b mng1 where a: "alloc_sk_buffer env mng = (b, mng1)" by (cases "alloc_sk_buffer env mng")
  note al = alloc_sk_buffer_ok [OF env Suc.prems(2) a] and sz = alloc_sized [OF Suc.prems(3) a]
  show ?case
  proof (cases b)
    case None
    then show ?thesis using a al Suc.prems(1) by (auto simp: quiet_def intro!: received_stop)
  next
    case (Some x)
    then have x: "blk_ok x" "sk_data x = 0" "sk_data_len x = 0" "blk_bytes x = []" "sk_size x \<le> S" using al sz by (auto simp: clean_def blk_bytes_def)
    obtain n e bs h where rv: "se_recv env (sk_size x) (mg_world mng1) = ((n, e, bs), h)" by (metis surj_pair)
    note r = sk_env_okD(4) [OF env rv]
    define mng2 where "mng2 = mng1\<lparr>mg_world := h\<rparr>"
    have m2: "pool_ok mng2" "taken (mg_world mng2) = taken (mg_world mng)" "given (mg_world mng2) = given (mg_world mng) @ bs" "sized S mng2"
      using al sz(1) r by (simp_all add: mng2_def quiet_def pool_ok_def sized_def)
    show ?thesis
    proof (cases "n \<le> 0")
      case True
      then have bs: "bs = []" using r by simp
      have "quiet taken given mng2 (free_sk_buffer env x mng2)" by (rule free_sk_buffer_ok(1) [OF env m2(1) x(1)])
      then show ?thesis using a Some rv True m2 bs Suc.prems(1,6) by (auto simp: mng2_def [symmetric] Let_def quiet_def intro!: received_stop)
    next
      case False
      then have nb: "nat n = length bs" "n = int (length bs)" "length bs \<le> sk_size x" using r by auto
      obtain m where m: "mem_wr (sk_mem x) (sk_data x) bs = Some m" "blk_ok (x\<lparr>sk_mem := m, sk_data_len := length bs\<rparr>)"
        "blk_bytes (x\<lparr>sk_mem := m, sk_data_len := length bs\<rparr>) = bs"
        by (rule blk_put [OF x(1), of bs]) (use x nb that in auto)
      let ?b = "x\<lparr>sk_mem := m, sk_data_len := length bs\<rparr>"
      have u: "u32_add (sk_data_len x) (nat n) = length bs" using x nb by (simp add: u32_add_exact blk_ok_def)
      have room: "rw_len c + sk_data_len ?b < u32_max" "length (rw_list c) + 1 < u32_max" using Suc.prems(4,5) nb x by simp_all
      have "tot + int S + int (i * S) < 2 ^ 31" using Suc.prems(7) by simp
      moreover have "0 \<le> int (i * S)" by (rule of_nat_0_le_iff)
      ultimately have lim: "tot + n < 2 ^ 31" "tot + n + int (i * S) < 2 ^ 31"
        using Suc.prems(6) nb x(5) by linarith+
      have fit: "i32_wrap (tot + n) = tot + n"
        by (rule i32_wrap_exact) (use lim Suc.prems(6) False in linarith)+
      note ap = append_clean [OF Suc.prems(1) m(2) room]
      have cb: "cache_bytes (cache_append_buffer ?b c) = cache_bytes c @ bs" using ap(2) m(3) by simp
      have eq: "udp_recv_loop env (Suc i) tot c mng = udp_recv_loop env i (tot + n) (cache_append_buffer ?b c) mng2"
        using a Some rv False m(1) u by (simp add: mng2_def fit)
      have "\<exists>res. udp_recv_loop env i (tot + n) (cache_append_buffer ?b c) mng2 = Some res \<and>
          received taken given (cache_append_buffer ?b c) mng2 (tot + n) res"
        by (rule Suc.IH) (use ap m2 Suc.prems(4-6) nb x False lim(2) in auto)
      then show ?thesis unfolding eq using received_step [OF _ cb m2(3,2), of "tot + n" _ tot] nb by auto
    qed
  qed
qed

section \<open>Reading\<close>

lemma read_loop_ok:
  "\<forall>b \<in> set l. blk_ok b \<Longrightarrow> n = min left (length (list_bytes l)) \<Longrightarrow> out_ok out pos n \<Longrightarrow>
   read_loop l out pos left = Some (pos + n, out_put pos (take n (list_bytes l)) out)"
proof (induction l arbitrary: out pos left n)
  case Nil
  then show ?case by simp
next
  case (Cons b l)
  define k where "k = min left (sk_data_len b)"
  have b: "blk_ok b" and l: "\<forall>b \<in> set l. blk_ok b" using Cons.prems(1) by simp_all
  have kb: "k \<le> sk_data_len b" "k \<le> left" "k \<le> n" using Cons.prems(2) b by (auto simp: k_def)
  have kif: "(if left \<le> sk_data_len b then left else sk_data_len b) = k" by (simp add: k_def min_def)
  have o1: "(case out of None \<Rightarrow> Some None
     | Some o1 \<Rightarrow> do { d \<leftarrow> mem_rd (sk_mem b) (sk_data b) k; o2 \<leftarrow> mem_wr o1 pos d; Some (Some o2) }) = Some (out_put pos (take k (blk_bytes b)) out)"
    by (rule out_copy) (use kb b Cons.prems(3) in \<open>auto simp: out_ok_def split: option.splits\<close>)
  have turn: "read_loop (b # l) out pos left =
     (if left - k = 0 then Some (pos + k, out_put pos (take k (blk_bytes b)) out)
      else read_loop l (out_put pos (take k (blk_bytes b)) out) (pos + k) (left - k))"
    unfolding read_loop.simps Let_def kif o1 by simp
  show ?case
  proof (cases "left = k")
    case True
    then have "n = k" using kb Cons.prems(2) by simp
    then show ?thesis unfolding turn using True kb b by simp
  next
    case False
    then have k: "k = sk_data_len b" "k < left" using kb by (auto simp: k_def min_def split: if_splits)
    have nk: "n - k = min (left - k) (length (list_bytes l))" using Cons.prems(2) k b by auto
    have len: "length (take (n - k) (list_bytes l)) = n - k" "length (blk_bytes b) = k" "k \<le> n" using nk k b kb by auto
    have ok2: "out_ok out pos (length (blk_bytes b) + length (take (n - k) (list_bytes l)))" using Cons.prems(3) len by simp
    then have "out_ok (out_put pos (blk_bytes b) out) (pos + k) (n - k)"
      using len by (auto simp: out_ok_def out_put_def split: option.splits)
    from Cons.IH [OF l nk this] show ?thesis
      unfolding turn using False k len b out_put_append [OF ok2] by simp
  qed
qed

lemma begin_loop_ok:
  "\<forall>b \<in> set l. blk_ok b \<Longrightarrow> pos_left < length (list_bytes l) \<Longrightarrow> n = min left (length (list_bytes l) - pos_left) \<Longrightarrow> out_ok out pos n \<Longrightarrow>
   begin_loop l out pos_left pos left = Some (pos + n, out_put pos (take n (drop pos_left (list_bytes l))) out)"
proof (induction l arbitrary: out pos left n pos_left)
  case Nil
  then show ?case by simp
next
  case (Cons b l)
  define s where "s = min pos_left (sk_data_len b)"
  define q where "q = sk_data_len b - s"
  have b: "blk_ok b" and l: "\<forall>b \<in> set l. blk_ok b" using Cons.prems(1) by simp_all
  have sif: "(if pos_left > 0 then (if pos_left > sk_data_len b then sk_data_len b else pos_left) else 0) = s" by (auto simp: s_def)
  show ?case
  proof (cases "q = 0")
    case True
    then have s: "s = sk_data_len b" "sk_data_len b \<le> pos_left" by (auto simp: q_def s_def)
    have "begin_loop (b # l) out pos_left pos left = begin_loop l out (pos_left - s) pos left"
      unfolding begin_loop.simps Let_def sif using True by (simp add: q_def)
    moreover have "pos_left - s < length (list_bytes l)" "n = min left (length (list_bytes l) - (pos_left - s))"
      using Cons.prems(2,3) b s by simp_all
    moreover have "drop pos_left (list_bytes (b # l)) = drop (pos_left - s) (list_bytes l)" using s b by simp
    ultimately show ?thesis using Cons.IH [OF l _ _ Cons.prems(4), of "pos_left - s" left] by simp
  next
    case False
    then have s: "s = pos_left" "pos_left < sk_data_len b" by (auto simp: q_def s_def min_def split: if_splits)
    define k where "k = min left q"
    have kif: "(if left > q then q else left) = k" by (simp add: k_def min_def)
    let ?b = "b\<lparr>sk_data_len := u32_sub (sk_data_len b) s, sk_data := sk_data b + s\<rparr>"
    have sb: "s \<le> sk_data_len b" using s by simp
    note adv = blk_advance [OF b sb refl]
    have kn: "k \<le> n" using Cons.prems(2,3) b s by (auto simp: k_def q_def)
    have "(case out of None \<Rightarrow> Some None
       | Some o1 \<Rightarrow> do { d \<leftarrow> mem_rd (sk_mem ?b) (sk_data ?b) k; o2 \<leftarrow> mem_wr o1 pos d; Some (Some o2) }) = Some (out_put pos (take k (blk_bytes ?b)) out)"
      by (rule out_copy) (use adv kn Cons.prems(4) in \<open>auto simp: out_ok_def k_def q_def split: option.splits\<close>)
    then have o1: "(case out of None \<Rightarrow> Some None
       | Some o1 \<Rightarrow> do { d \<leftarrow> mem_rd (sk_mem b) (sk_data b + s) k; o2 \<leftarrow> mem_wr o1 pos d; Some (Some o2) }) = Some (out_put pos (take k (drop s (blk_bytes b))) out)"
      unfolding adv(2) by (cases out) simp_all
    have turn: "begin_loop (b # l) out pos_left pos left =
       (if left - k = 0 then Some (pos + k, out_put pos (take k (drop s (blk_bytes b))) out)
        else begin_loop l (out_put pos (take k (drop s (blk_bytes b))) out) (pos_left - s) (pos + k) (left - k))"
      unfolding begin_loop.simps Let_def sif q_def [symmetric] kif o1 using False by simp
    have dl: "length (drop s (blk_bytes b)) = q" using b by (simp add: q_def)
    have dr: "drop pos_left (list_bytes (b # l)) = drop s (blk_bytes b) @ list_bytes l" using s b by simp
    show ?thesis
    proof (cases "left = k")
      case True
      then have nk: "n = k" using kn Cons.prems(3) by simp
      have "k \<le> q" by (simp add: k_def)
      then have "take n (drop pos_left (list_bytes (b # l))) = take k (drop s (blk_bytes b))" unfolding dr nk using dl by simp
      then show ?thesis unfolding turn nk using True by simp
    next
      case False
      then have k: "k = q" "q < left" by (auto simp: k_def min_def split: if_splits)
      have nk: "n - k = min (left - k) (length (list_bytes l))" using Cons.prems(3) k b s by (auto simp: q_def)
      have rest: "begin_loop l out1 0 (pos + k) (left - k) = Some (pos + k + (n - k), out_put (pos + k) (take (n - k) (list_bytes l)) out1)"
        if "out_ok out1 (pos + k) (n - k)" for out1
      proof (cases "list_bytes l = []")
        case True
        have "begin_loop l out1 0 p j = Some (p, out1)" for p j
          using l True by (induction l) (auto simp: Let_def dest: blk_bytes_length)
        then show ?thesis using nk True by simp
      next
        case False
        then show ?thesis using Cons.IH [OF l, of 0 "n - k" "left - k" out1 "pos + k"] nk that by simp
      qed
      have len: "length (take (n - k) (list_bytes l)) = n - k" "length (drop s (blk_bytes b)) = k" using nk dl k by auto
      have ok2: "out_ok out pos (length (drop s (blk_bytes b)) + length (take (n - k) (list_bytes l)))" using Cons.prems(4) len kn by simp
      then have "out_ok (out_put pos (drop s (blk_bytes b)) out) (pos + k) (n - k)"
        using len by (auto simp: out_ok_def out_put_def split: option.splits)
      from rest [OF this] show ?thesis
        unfolding turn dr using False s k len kn out_put_append [OF ok2] by simp
    qed
  qed
qed

section \<open>A cache and its pool as a byte queue\<close>

definition sk_invar :: "('h \<Rightarrow> byte list) \<Rightarrow> ('h \<Rightarrow> byte list) \<Rightarrow> 'h sk_env \<times> rw_cache \<times> 'h sk_mng \<Rightarrow> bool" where
  "sk_invar taken given s \<longleftrightarrow> (case s of (env, c, mng) \<Rightarrow> sk_env_ok env taken given \<and> cache_ok c \<and> pool_ok mng)"

definition sk_fits :: "nat \<Rightarrow> 'h sk_env \<times> rw_cache \<times> 'h sk_mng \<Rightarrow> bool" where
  "sk_fits n s \<longleftrightarrow> (case s of (env, c, mng) \<Rightarrow> rw_len c + n < u32_max \<and> length (rw_list c) + n < u32_max \<and> n < 2 ^ 31)"

definition sk_put :: "byte list \<Rightarrow> 'h sk_env \<times> rw_cache \<times> 'h sk_mng \<Rightarrow> (bool \<times> 'h sk_env \<times> rw_cache \<times> 'h sk_mng) option" where
  "sk_put d s = (case s of (env, c, mng) \<Rightarrow> do {
     (r, c1, mng1) \<leftarrow> cache_append_data env (Some d) (length d) c mng;
     Some (r \<ge> 0, env, c1, mng1)
   })"

definition sk_get :: "nat \<Rightarrow> 'h sk_env \<times> rw_cache \<times> 'h sk_mng \<Rightarrow> (byte list \<times> 'h sk_env \<times> rw_cache \<times> 'h sk_mng) option" where
  "sk_get k s = (case s of (env, c, mng) \<Rightarrow> do {
     (n, out, c1, mng1) \<leftarrow> cache_copy_out env (Some (replicate (min k (get_data_len c)) 0)) k c mng;
     d \<leftarrow> out;
     Some (take n d, env, c1, mng1)
   })"

lemma sk_put_law:
  assumes "sk_invar taken given s" "sk_fits (length d + n) s"
  shows "\<exists>ok s1. sk_put d s = Some (ok, s1) \<and> sk_invar taken given s1 \<and>
    cache_bytes (fst (snd s1)) = cache_bytes (fst (snd s)) @ (if ok then d else []) \<and> sk_fits n s1"
proof -
  obtain env c mng where s: "s = (env, c, mng)" by (cases s)
  have env: "sk_env_ok env taken given" and c: "cache_ok c" and mng: "pool_ok mng"
    and f: "rw_len c + (length d + n) < u32_max" "length (rw_list c) + (length d + n) < u32_max" "length d + n < 2 ^ 31"
    using assms by (auto simp: s sk_invar_def sk_fits_def)
  have f1: "length d < 2 ^ 31" "rw_len c + length d < u32_max" "length (rw_list c) + length d < u32_max" using f by linarith+
  obtain r c1 mng1 where r: "cache_append_data env (Some d) (length d) c mng = Some (r, c1, mng1)" "cache_ok c1" "quiet taken given mng mng1"
    "length (rw_list c1) \<le> length (rw_list c) + length d"
    "r = int (length d) \<and> cache_bytes c1 = cache_bytes c @ take (length d) d \<or> r = - 2 \<and> c1 = c"
    using cache_append_ok [OF env c mng order_refl f1] by blast
  have b: "cache_bytes c1 = cache_bytes c @ (if r \<ge> 0 then d else [])" using r(5) by auto
  then have "length (cache_bytes c1) \<le> length (cache_bytes c) + length d" by simp
  then have "rw_len c1 \<le> rw_len c + length d" using c r(2) by (simp add: cache_ok_def)
  with b r env f show ?thesis by (auto simp: s sk_put_def sk_invar_def sk_fits_def quiet_def)
qed

lemma sk_get_law:
  assumes "sk_invar taken given s" "sk_fits n s" "k < u32_max"
  shows "\<exists>s1. sk_get k s = Some (take k (cache_bytes (fst (snd s))), s1) \<and> sk_invar taken given s1 \<and>
    cache_bytes (fst (snd s1)) = drop k (cache_bytes (fst (snd s))) \<and> sk_fits n s1"
proof -
  obtain env c mng where s: "s = (env, c, mng)" by (cases s)
  have env: "sk_env_ok env taken given" and c: "cache_ok c" and mng: "pool_ok mng"
    and f: "rw_len c + n < u32_max" "length (rw_list c) + n < u32_max" "n < 2 ^ 31"
    using assms by (auto simp: s sk_invar_def sk_fits_def)
  define j where "j = min k (length (cache_bytes c))"
  have len: "rw_len c = length (cache_bytes c)" using c by (simp add: cache_ok_def)
  have j: "out_ok (Some (replicate j (0 :: byte))) 0 j" "min k (get_data_len c) = j"
    "take j (cache_bytes c) = take k (cache_bytes c)" "drop j (cache_bytes c) = drop k (cache_bytes c)" "length (take k (cache_bytes c)) = j"
    using len by (auto simp: out_ok_def j_def get_data_len_def min_def)
  obtain c1 mng1 where r: "cache_copy_out env (Some (replicate j 0)) k c mng = Some (j, out_put 0 (take j (cache_bytes c)) (Some (replicate j 0)), c1, mng1)"
    "cache_ok c1" "cache_bytes c1 = drop j (cache_bytes c)" "quiet taken given mng mng1" "length (rw_list c1) \<le> length (rw_list c)"
    using cache_copy_out_ok [OF env c mng assms(3) j_def j(1)] by blast
  have o: "out_put 0 (take j (cache_bytes c)) (Some (replicate j 0)) = Some (take k (cache_bytes c))"
    unfolding j(3) using j(5) by (simp add: out_put_def)
  have "sk_get k s = Some (take k (cache_bytes c), env, c1, mng1)"
    unfolding s sk_get_def prod.case j(2) r(1) o using take_all [of "take k (cache_bytes c)" j] j(5) by (simp del: take_take)
  moreover have "rw_len c1 \<le> rw_len c" using r(2,3) len by (simp add: cache_ok_def)
  ultimately show ?thesis using r env f j(4) by (auto simp: s sk_invar_def sk_fits_def quiet_def)
qed

interpretation sk_fifo: byte_fifo "sk_invar taken given" "\<lambda>s. cache_bytes (fst (snd s))" sk_fits sk_put sk_get
  for taken given
  by unfold_locales (use sk_put_law sk_get_law in blast)+

section \<open>A concrete world\<close>

text \<open>The bytes taken by the socket, the bytes it has given, and the bytes waiting in it.\<close>

definition demo_env :: "(byte list \<times> byte list \<times> byte list) sk_env" where
  "demo_env = \<lparr>se_malloc = (\<lambda>n h. (Some (replicate n 0), h)), se_time = (\<lambda>h. (5000, h)),
     se_recv = (\<lambda>n (t, g, p). if p = [] then ((- 1, SK_EAGAIN, []), (t, g, p))
        else ((int (length (take n p)), 0, take n p), (t, g @ take n p, drop n p))),
     se_send = (\<lambda>d (t, g, p). ((int (length (take 2 d)), 0), (t @ take 2 d, g, p)))\<rparr>"

definition demo_mng :: "byte list \<Rightarrow> (byte list \<times> byte list \<times> byte list) sk_mng" where
  "demo_mng p = sk_buffer_mng_init 10 4 ([], [], p)"

definition demo_block :: sk_buffer where
  "demo_block = \<lparr>sk_mem = [0, 1, 2, 3, 0], sk_last_time = 0, sk_size = 5, sk_data = 1, sk_data_len = 3\<rparr>"

definition demo_cache :: rw_cache where
  "demo_cache = \<lparr>rw_list = [demo_block, demo_block\<lparr>sk_data := 0\<rparr>], rw_len = 6, rw_count = 2, rw_pool = 9\<rparr>"

lemma demo_ok:
  "sk_env_ok demo_env fst (\<lambda>h. fst (snd h))" "pool_ok (demo_mng p)" "cache_ok demo_cache"
  "cache_bytes demo_cache = [1, 2, 3, 0, 1, 2]" "rw_len demo_cache = 6" "length (rw_list demo_cache) = 2"
  "mg_world (demo_mng p) = ([], [], p)" "sized 5 (demo_mng p)" "sk_size (last (rw_list demo_cache)) = 5"
  by (auto simp: sk_env_ok_def demo_env_def pool_ok_def demo_mng_def sk_buffer_mng_init_def u32_max_def cache_ok_def demo_cache_def
      blk_ok_def demo_block_def cache_bytes_def blk_bytes_def sized_def min_def split: if_splits prod.splits)

lemma receivedD:
  "received taken given c mng 0 res \<Longrightarrow> \<exists>r c1 mng1 d. res = (r, c1, mng1) \<and> cache_ok c1 \<and> pool_ok mng1 \<and>
    cache_bytes c1 = cache_bytes c @ d \<and> given (mg_world mng1) = given (mg_world mng) @ d \<and> taken (mg_world mng1) = taken (mg_world mng) \<and>
    (if r \<ge> 0 then r = int (length d) else r \<in> {- 2, - 3, - SK_ERR_NEED_CLOSE})"
  by (cases res) (simp only: received_def prod.case add_0, blast)

section \<open>Properties\<close>

text \<open>C13: a cache is a byte queue. Run any sequence of \<open>cache_append_data\<close> and \<open>cache_copy_out\<close> on a
  well-formed cache and pool, with allocations failing at any point: every call returns, stays in its blocks, and the bytes the
  cache had, followed by the bytes it accepted, are the bytes it delivered followed by the bytes it
  still has.\<close>

theorem cache_history:
  assumes "sk_env_ok env taken given" "cache_ok c" "pool_ok mng" "sk_fits (puts ops) (env, c, mng)"
    and "\<forall>k. Get k \<in> set ops \<longrightarrow> k < u32_max"
  shows "\<exists>a r s. fifo_run sk_put sk_get ops (env, c, mng) = Some (a, r, s) \<and> sk_invar taken given s \<and>
    cache_bytes c @ a = r @ cache_bytes (fst (snd s))"
  using sk_fifo.run_stream [of taken given "(env, c, mng)" ops] assms by (simp add: sk_invar_def)

theorem cache_history_witness:
  "\<exists>a r s. fifo_run sk_put sk_get [Put [7, 8, 9], Get 5, Put [4], Get 100] (demo_env, demo_cache, demo_mng []) = Some (a, r, s) \<and>
    sk_invar fst (\<lambda>h. fst (snd h)) s \<and> [1, 2, 3, 0, 1, 2] @ a = r @ cache_bytes (fst (snd s))"
  using cache_history [OF demo_ok(1,3,2), of "[Put [7, 8, 9], Get 5, Put [4], Get 100]" "[]"]
  by (simp add: demo_ok sk_fits_def u32_max_def)

text \<open>C28: \<open>cache_append_data\<close> is all or nothing. It returns the length and the cache has exactly the
  \<open>len\<close> bytes more, or it returns -2 because an allocation failed, and the cache is as it was; the blocks that were
  already filled go back to the pool, and nothing goes to or comes from the socket.\<close>

theorem append_all_or_nothing:
  assumes "sk_env_ok env taken given" "cache_ok c" "pool_ok mng" "len \<le> length data" "len < 2 ^ 31"
    and "rw_len c + len < u32_max" "length (rw_list c) + len < u32_max"
  shows "\<exists>r c1 mng1. cache_append_data env (Some data) len c mng = Some (r, c1, mng1) \<and> cache_ok c1 \<and> quiet taken given mng mng1 \<and>
    (r = int len \<and> cache_bytes c1 = cache_bytes c @ take len data \<or> r = - 2 \<and> c1 = c \<and> (\<exists>n h. fst (se_malloc env n h) = None))"
  using cache_append_ok [OF assms] by blast

theorem append_all_or_nothing_witness:
  "\<exists>c1 mng1. cache_append_data demo_env (Some [7, 8, 9, 10, 11, 12, 13]) 7 demo_cache (demo_mng []) = Some (7, c1, mng1) \<and>
     cache_ok c1 \<and> cache_bytes c1 = [1, 2, 3, 0, 1, 2, 7, 8, 9, 10, 11, 12, 13]"
proof -
  have pre: "7 \<le> length [7, 8, 9, 10, 11, 12, 13 :: byte]" "(7 :: nat) < 2 ^ 31" "rw_len demo_cache + 7 < u32_max"
    "length (rw_list demo_cache) + 7 < u32_max" by (simp_all add: demo_ok u32_max_def)
  have nn: "\<not> (\<exists>n h. fst (se_malloc demo_env n h) = None)" by (simp add: demo_env_def)
  have bs: "cache_bytes demo_cache @ take 7 [7, 8, 9, 10, 11, 12, 13] = [1, 2, 3, 0, 1, 2, 7, 8, 9, 10, 11, 12, 13]" by (simp add: demo_ok)
  show ?thesis using append_all_or_nothing [OF demo_ok(1,3,2) pre, of "[]", unfolded bs of_nat_numeral] nn by blast
qed

text \<open>C29: \<open>cache_tcp_send_buff\<close> keeps the byte stream. With less than 2 GB in the cache and in the data
  (the code counts the bytes it sends in an \<open>int32_t\<close>), for every outcome of the calls of \<open>send\<close> and of the
  allocations, the bytes the socket has taken followed by the bytes left in the cache are the old ones followed by the
  new data (on success) or by the prefix of it that was sent; it returns -3 only when an allocation failed.\<close>

theorem send_buff_keeps_stream:
  assumes "sk_env_ok env taken given" "cache_ok c" "pool_ok mng" "len = length data" "len < 2 ^ 31"
    and "rw_len c < 2 ^ 31" "length (rw_list c) + len < u32_max"
  shows "\<exists>r c1 mng1 sent. cache_tcp_send_buff env (Some data) len c mng = Some (r, c1, mng1) \<and> sent \<le> len \<and> cache_ok c1 \<and> pool_ok mng1 \<and>
    taken (mg_world mng1) @ cache_bytes c1 = taken (mg_world mng) @ cache_bytes c @ (if r \<ge> 0 then data else take sent data) \<and>
    (r < 0 \<longrightarrow> r \<in> {- 2, - 3} \<and> (r = - 3 \<longrightarrow> (\<exists>n h. fst (se_malloc env n h) = None)))"
  using cache_tcp_send_buff_ok [OF assms] unfolding moved_def by blast

theorem send_buff_keeps_stream_witness:
  "\<exists>r c1 mng1 sent. cache_tcp_send_buff demo_env (Some [7, 8, 9]) 3 demo_cache (demo_mng []) = Some (r, c1, mng1) \<and> sent \<le> 3 \<and>
     fst (mg_world mng1) @ cache_bytes c1 = [1, 2, 3, 0, 1, 2] @ (if r \<ge> 0 then [7, 8, 9] else take sent [7, 8, 9])"
proof -
  have pre: "3 = length [7, 8, 9 :: byte]" "(3 :: nat) < 2 ^ 31" "rw_len demo_cache < 2 ^ 31"
    "length (rw_list demo_cache) + 3 < u32_max" by (simp_all add: demo_ok u32_max_def)
  show ?thesis
    using send_buff_keeps_stream [OF demo_ok(1,3,2) pre, of "[]"] unfolding demo_ok(4,7) fst_conv append_Nil by blast
qed

text \<open>C30: \<open>cache_tcp_recv\<close> appends to the cache exactly the bytes the socket gave, also when it returns an
  error, and never writes behind a block. A result that is not negative is the number of these bytes. The blocks
  are small enough that the bytes of its 100 turns fit the \<open>int32_t\<close> total and the length of the cache.\<close>

theorem tcp_recv_appends:
  assumes "sk_env_ok env taken given" "cache_ok c" "pool_ok mng" "sized S mng" "\<forall>b \<in> set (rw_list c). sk_size b \<le> S"
    and "rw_len c + 100 * S < u32_max" "length (rw_list c) + 100 < u32_max" "100 * S < 2 ^ 31"
  shows "\<exists>r c1 mng1 d. cache_tcp_recv env c mng = Some (r, c1, mng1) \<and> cache_ok c1 \<and> pool_ok mng1 \<and>
    cache_bytes c1 = cache_bytes c @ d \<and> given (mg_world mng1) = given (mg_world mng) @ d \<and> taken (mg_world mng1) = taken (mg_world mng) \<and>
    (if r \<ge> 0 then r = int (length d) else r \<in> {- 2, - 3, - SK_ERR_NEED_CLOSE})"
proof -
  have last: "rw_list c \<noteq> [] \<longrightarrow> sk_size (last (rw_list c)) \<le> S" using assms(5) by simp
  have fit: "0 + int (100 * S) < 2 ^ 31" using assms(8) by simp
  show ?thesis
    using tcp_recv_loop_ok [OF assms(1-4) last assms(6,7) order_refl fit] receivedD unfolding cache_tcp_recv_def by blast
qed

theorem tcp_recv_appends_witness:
  "\<exists>r c1 mng1 d. cache_tcp_recv demo_env demo_cache (demo_mng [5, 6, 7, 8]) = Some (r, c1, mng1) \<and>
    cache_bytes c1 = [1, 2, 3, 0, 1, 2] @ d \<and> fst (snd (mg_world mng1)) = d"
proof -
  have "\<forall>b \<in> set (rw_list demo_cache). sk_size b \<le> 5" by (simp add: demo_cache_def demo_block_def)
  from tcp_recv_appends [OF demo_ok(1,3,2,8) this, of "[5, 6, 7, 8]"] show ?thesis by (auto simp: demo_ok u32_max_def)
qed

text \<open>\<open>cache_udp_recv\<close> appends the datagrams the socket gave, in order, also when it returns an
  error, and gives the block of the last, failed call back to the pool.\<close>

theorem udp_recv_appends:
  assumes "sk_env_ok env taken given" "cache_ok c" "pool_ok mng" "sized S mng"
    and "rw_len c + 100 * S < u32_max" "length (rw_list c) + 100 < u32_max" "100 * S < 2 ^ 31"
  shows "\<exists>r c1 mng1 d. cache_udp_recv env c mng = Some (r, c1, mng1) \<and> cache_ok c1 \<and> pool_ok mng1 \<and>
    cache_bytes c1 = cache_bytes c @ d \<and> given (mg_world mng1) = given (mg_world mng) @ d \<and> taken (mg_world mng1) = taken (mg_world mng) \<and>
    (if r \<ge> 0 then r = int (length d) else r \<in> {- 2, - 3, - SK_ERR_NEED_CLOSE})"
proof -
  have fit: "0 + int (100 * S) < 2 ^ 31" using assms(7) by simp
  show ?thesis using udp_recv_loop_ok [OF assms(1-6) order_refl fit] receivedD unfolding cache_udp_recv_def by blast
qed

theorem udp_recv_appends_witness:
  "\<exists>r c1 mng1 d. cache_udp_recv demo_env demo_cache (demo_mng [5, 6, 7, 8]) = Some (r, c1, mng1) \<and>
    cache_bytes c1 = [1, 2, 3, 0, 1, 2] @ d \<and> fst (snd (mg_world mng1)) = d"
  using udp_recv_appends [OF demo_ok(1,3,2,8), of "[5, 6, 7, 8]"] by (auto simp: demo_ok u32_max_def)

text \<open>C31: \<open>read_cache_begin\<close> copies the slice of the stream that starts at \<open>start\<close>, over any division of the
  stream into blocks, and returns its length; it writes nothing else and does not change the cache.\<close>

theorem read_cache_begin_slice:
  assumes "cache_ok c" "n = min len (length (cache_bytes c) - start)" "n \<le> length out"
  shows "read_cache_begin c start (Some out) len = Some (n, Some (take n (drop start (cache_bytes c)) @ drop n out))"
proof (cases "start < length (cache_bytes c)")
  case True
  then have "begin_loop (rw_list c) (Some out) start 0 len = Some (0 + n, out_put 0 (take n (drop start (list_bytes (rw_list c)))) (Some out))"
    by (intro begin_loop_ok) (use assms in \<open>auto simp: cache_ok_def cache_bytes_def out_ok_def\<close>)
  moreover have "length (take n (drop start (cache_bytes c))) = n" using assms(2) by simp
  ultimately show ?thesis using True assms(1) by (simp add: read_cache_begin_def cache_ok_def cache_bytes_def out_put_def)
next
  case False
  then show ?thesis using assms by (simp add: read_cache_begin_def cache_ok_def)
qed

theorem read_cache_begin_slice_witness:
  "read_cache_begin demo_cache 2 (Some [9, 9, 9, 9]) 3 = Some (3, Some [3, 0, 1, 9])"
  using read_cache_begin_slice [OF demo_ok(3), of 3 3 2 "[9, 9, 9, 9]"] by (simp add: demo_ok)

lemma read_cache_data_prefix:
  assumes "cache_ok c" "n = min len (length (cache_bytes c))" "n \<le> length out"
  shows "read_cache_data c (Some out) len = Some (n, Some (take n (cache_bytes c) @ drop n out))"
  using read_loop_ok [of "rw_list c" n len "Some out" 0] assms
  by (simp add: read_cache_data_def cache_ok_def cache_bytes_def out_ok_def out_put_def)

text \<open>The blocks \<open>recycle_sk_buffer\<close> releases are the ones at the front of the free list that are old enough.\<close>

lemma recycle_sk_buffer_ok:
  assumes "pool_ok mng"
  shows "mg_free_list (recycle_sk_buffer now mng) = dropWhile (\<lambda>b. mg_expired mng \<le> u32_sub now (sk_last_time b)) (mg_free_list mng)"
    "pool_ok (recycle_sk_buffer now mng)"
proof -
  have l: "recycle_loop now e l (length l mod u32_max) =
      (let r = dropWhile (\<lambda>b. e \<le> u32_sub now (sk_last_time b)) l in (r, length r mod u32_max))" for e l
    by (induction l) (simp_all add: Let_def u32_mod_step [simplified])
  show "mg_free_list (recycle_sk_buffer now mng) = dropWhile (\<lambda>b. mg_expired mng \<le> u32_sub now (sk_last_time b)) (mg_free_list mng)"
    "pool_ok (recycle_sk_buffer now mng)"
    using assms set_dropWhileD by (fastforce simp: recycle_sk_buffer_def pool_ok_def l Let_def)+
qed

end
