(* ===== verification/Weight_Sched.thy ===== *)
theory Weight_Sched
  imports Prelude
begin

text \<open>
  Weighted dispatch of messages over channels: \<open>CWeightSchedule\<close> and \<open>CDynamicCtrl\<close>
  (\<open>nest/comm/weight_schedule.cpp\<close>) and the part of \<open>TNetCommuServer\<close> that drives them
  (\<open>nest/comm/nest_commu.cpp\<close>). Items are addresses; their weights are a store from addresses to
  objects. The seed is a 32-bit word, the other numbers are naturals with the wrap-around of their
  width written out; a division by zero is \<^term>\<open>None\<close>.
\<close>

unbundle bit_operations_syntax

section \<open>State\<close>

record disp =
  d_weight :: nat
  d_max_weight :: nat

record wsched =
  ws_items :: "ptr list"
  ws_obj :: "ptr \<Rightarrow> disp"
  ws_max_quota :: nat
  ws_min_quota :: nat
  ws_inc_step :: nat
  ws_dec_step :: nat
  ws_total_times :: nat
  ws_wakeup_frq :: nat
  ws_rand_seed :: u32

definition u64_max :: nat where "u64_max = 2 ^ 64"

definition CWeightSchedule_init :: "(ptr \<Rightarrow> disp) \<Rightarrow> wsched" where
  "CWeightSchedule_init obj =
     \<lparr>ws_items = [], ws_obj = obj, ws_max_quota = 10000, ws_min_quota = 1, ws_inc_step = 1000, ws_dec_step = 960,
      ws_total_times = 0, ws_wakeup_frq = 10000, ws_rand_seed = 1\<rparr>"

abbreviation ws_weight :: "wsched \<Rightarrow> ptr \<Rightarrow> nat" where
  "ws_weight s p \<equiv> d_weight (ws_obj s p)"

definition set_weight :: "ptr \<Rightarrow> nat \<Rightarrow> wsched \<Rightarrow> wsched" where
  "set_weight p w s = s\<lparr>ws_obj := (ws_obj s)(p := (ws_obj s p)\<lparr>d_weight := w\<rparr>)\<rparr>"

definition set_max_weight :: "ptr \<Rightarrow> nat \<Rightarrow> wsched \<Rightarrow> wsched" where
  "set_max_weight p w s = s\<lparr>ws_obj := (ws_obj s)(p := (ws_obj s p)\<lparr>d_max_weight := w\<rparr>)\<rparr>"

section \<open>The scheduler\<close>

definition add_item :: "ptr \<Rightarrow> wsched \<Rightarrow> wsched" where
  "add_item p s =
     (let s1 = set_weight p (ws_max_quota s) (set_max_weight p (ws_max_quota s) s)
      in if p \<in> set (ws_items s1) then s1 else s1\<lparr>ws_items := ws_items s1 @ [p]\<rparr>)"

definition del_item :: "ptr \<Rightarrow> wsched \<Rightarrow> wsched" where
  "del_item p s = s\<lparr>ws_items := remove1 p (ws_items s)\<rparr>"

definition lcg :: "u32 \<Rightarrow> u32" where
  "lcg next = next * 1103515245 + 12345"

definition random :: "wsched \<Rightarrow> nat \<times> wsched" where
  "random s =
     (let n1 = lcg (ws_rand_seed s);
          r1 = (n1 div 65536) mod 2048;
          n2 = lcg n1;
          r2 = push_bit 10 r1 XOR ((n2 div 65536) mod 1024);
          n3 = lcg n2;
          r3 = push_bit 10 r2 XOR ((n3 div 65536) mod 1024)
      in (unat r3, s\<lparr>ws_rand_seed := n3\<rparr>))"

definition srand :: "u32 \<Rightarrow> wsched \<Rightarrow> wsched" where
  "srand seed s = s\<lparr>ws_rand_seed := seed\<rparr>"

text \<open>The loop of \<open>find_detect_item\<close>; the seed changes only when two weights are equal.\<close>

fun detect_loop :: "ptr list \<Rightarrow> ptr \<Rightarrow> wsched \<Rightarrow> ptr \<times> wsched" where
  "detect_loop [] least s = (least, s)"
| "detect_loop (item # rest) least s =
     (if least = NULL \<or> ws_weight s item < ws_weight s least then detect_loop rest item s
      else if ws_weight s item = ws_weight s least
      then (case random s of (r, s1) \<Rightarrow> if r mod 2 \<noteq> 0 then detect_loop rest item s1 else detect_loop rest least s1)
      else detect_loop rest least s)"

definition find_detect_item :: "wsched \<Rightarrow> ptr \<times> wsched" where
  "find_detect_item s = detect_loop (ws_items s) NULL s"

fun quota_loop :: "(ptr \<Rightarrow> disp) \<Rightarrow> ptr list \<Rightarrow> nat \<Rightarrow> nat" where
  "quota_loop obj [] tot = tot"
| "quota_loop obj (item # rest) tot = quota_loop obj rest (u32_add tot (d_weight (obj item)))"

text \<open>The second loop of \<open>get_next_item\<close>; \<open>item\<close> is the variable that is returned after the loop.\<close>

fun pick_loop :: "(ptr \<Rightarrow> disp) \<Rightarrow> ptr list \<Rightarrow> ptr \<Rightarrow> nat \<Rightarrow> ptr" where
  "pick_loop obj [] item r = item"
| "pick_loop obj (x # rest) item r =
     (if r < d_weight (obj x) then x else pick_loop obj rest x (u32_sub r (d_weight (obj x))))"

definition get_next_item :: "wsched \<Rightarrow> ptr \<times> wsched" where
  "get_next_item s =
     (let s1 = s\<lparr>ws_total_times := (ws_total_times s + 1) mod u64_max\<rparr>
      in if ws_total_times s1 mod ws_wakeup_frq s1 = u32_sub (ws_wakeup_frq s1) 1 then find_detect_item s1
         else let total_quota = quota_loop (ws_obj s1) (ws_items s1) 0
         in (case random s1 of (r, s2) \<Rightarrow>
               (pick_loop (ws_obj s2) (ws_items s2) NULL (r mod (if total_quota > 0 then total_quota else 1)), s2)))"

definition inc_weight :: "ptr \<Rightarrow> wsched \<Rightarrow> wsched" where
  "inc_weight p s =
     (let w = ws_weight s p; max_weight = d_max_weight (ws_obj s p)
      in set_weight p (if u32_add w (ws_inc_step s) > max_weight then max_weight else u32_add w (ws_inc_step s)) s)"

definition dec_weight :: "ptr \<Rightarrow> wsched \<Rightarrow> wsched" where
  "dec_weight p s =
     (let w = ws_weight s p
      in set_weight p (if w < u32_add (ws_dec_step s) (ws_min_quota s) then ws_min_quota s else u32_sub w (ws_dec_step s)) s)"

definition set_step_params :: "nat \<Rightarrow> wsched \<Rightarrow> wsched" where
  "set_step_params dec s =
     (if dec > 0 then s\<lparr>ws_dec_step := dec, ws_inc_step := u32_add dec (dec div 20)\<rparr> else s)"

section \<open>The step control\<close>

definition MAX_QUOTA :: nat where "MAX_QUOTA = 10000"
definition MAX_WINDOWS :: nat where "MAX_WINDOWS = 20"
definition MIN_WINDOWS :: nat where "MIN_WINDOWS = 1"

record dynctrl =
  dc_max_quota :: nat
  dc_report_time :: nat
  dc_req_count :: nat
  dc_rsp_count :: nat
  dc_cost_total :: nat

definition CDynamicCtrl_init :: dynctrl where
  "CDynamicCtrl_init = \<lparr>dc_max_quota = MAX_QUOTA, dc_report_time = 0, dc_req_count = 0, dc_rsp_count = 0, dc_cost_total = 0\<rparr>"

definition request_report :: "dynctrl \<Rightarrow> dynctrl" where
  "request_report d = d\<lparr>dc_req_count := u32_add (dc_req_count d) 1\<rparr>"

definition response_report :: "nat \<Rightarrow> dynctrl \<Rightarrow> dynctrl" where
  "response_report delay d =
     d\<lparr>dc_rsp_count := u32_add (dc_rsp_count d) 1, dc_cost_total := (dc_cost_total d + delay) mod u64_max\<rparr>"

definition reset_report :: "nat \<Rightarrow> dynctrl \<Rightarrow> dynctrl" where
  "reset_report time_ms d = d\<lparr>dc_report_time := time_ms, dc_req_count := 0, dc_rsp_count := 0, dc_cost_total := 0\<rparr>"

definition udiv :: "nat \<Rightarrow> nat \<Rightarrow> nat option" where
  "udiv a b = (if b = 0 then None else Some (a div b))"

definition calc_step :: "nat \<Rightarrow> nat \<Rightarrow> dynctrl \<Rightarrow> nat option" where
  "calc_step time_now cnt d = do {
     dflt_dec \<leftarrow> udiv MAX_QUOTA MIN_WINDOWS;
     if dc_report_time d = 0 \<or> dc_rsp_count d = 0 then Some dflt_dec
     else do {
       a \<leftarrow> udiv (dc_cost_total d) (dc_rsp_count d);
       let avg_cost = a mod u32_max;
       if avg_cost = 0 \<or> time_now < dc_report_time d then Some dflt_dec
       else do {
         c \<leftarrow> udiv ((cnt * (time_now - dc_report_time d)) mod u64_max) avg_cost;
         let max_capacity = c mod u32_max;
         if max_capacity = 0 then Some dflt_dec
         else do {
           w \<leftarrow> udiv ((MIN_WINDOWS * dc_req_count d) mod u32_max) max_capacity;
           let real_wins = (if w < MIN_WINDOWS then MIN_WINDOWS else if w > MAX_WINDOWS then MAX_WINDOWS else w);
           udiv MAX_QUOTA real_wins
         }
       }
     }
   }"

section \<open>The server side of a route\<close>

record commu_server =
  cs_sched :: wsched
  cs_ctrl :: dynctrl
  cs_groupid :: nat
  cs_channels :: "ptr list"

definition TNetCommuServer_init :: "nat \<Rightarrow> (ptr \<Rightarrow> disp) \<Rightarrow> commu_server" where
  "TNetCommuServer_init gid obj =
     \<lparr>cs_sched = CWeightSchedule_init obj, cs_ctrl = CDynamicCtrl_init, cs_groupid = gid, cs_channels = []\<rparr>"

definition server_DelChannel :: "ptr \<Rightarrow> commu_server \<Rightarrow> commu_server" where
  "server_DelChannel p s = s\<lparr>cs_channels := remove1 p (cs_channels s), cs_sched := del_item p (cs_sched s)\<rparr>"

definition server_AddChannel :: "ptr \<Rightarrow> commu_server \<Rightarrow> commu_server" where
  "server_AddChannel p s =
     (let s1 = server_DelChannel p s
      in s1\<lparr>cs_channels := cs_channels s1 @ [p], cs_sched := add_item p (cs_sched s1)\<rparr>)"

text \<open>\<open>time_now\<close> is the result of \<open>__spp_get_now_ms\<close>.\<close>

definition FindNextChannel :: "nat \<Rightarrow> commu_server \<Rightarrow> (ptr \<times> commu_server) option" where
  "FindNextChannel time_now s =
     (if cs_channels s = [] then Some (NULL, s)
      else do {
        s1 \<leftarrow> (if time_now > (dc_report_time (cs_ctrl s) + 10 * 1000) mod u64_max
              then do {
                dec_step \<leftarrow> calc_step time_now (length (cs_channels s) mod u32_max) (cs_ctrl s);
                Some (s\<lparr>cs_sched := set_step_params dec_step (cs_sched s), cs_ctrl := reset_report time_now (cs_ctrl s)\<rparr>)
              }
              else Some s);
        (case get_next_item (cs_sched s1) of (item, w) \<Rightarrow>
           let s2 = s1\<lparr>cs_sched := w\<rparr>
           in if item = NULL then Some (NULL, s2)
              else Some (item, s2\<lparr>cs_ctrl := request_report (cs_ctrl s2)\<rparr>))
      })"

section \<open>Invariant\<close>

definition ws_ok :: "wsched \<Rightarrow> bool" where
  "ws_ok s \<longleftrightarrow> distinct (ws_items s) \<and> NULL \<notin> set (ws_items s) \<and> ws_max_quota s = 10000 \<and> ws_min_quota s = 1 \<and> ws_wakeup_frq s = 10000 \<and>
     1 \<le> ws_dec_step s \<and> ws_dec_step s \<le> 10000 \<and> 1 \<le> ws_inc_step s \<and> ws_inc_step s \<le> 10500 \<and>
     (\<forall>p \<in> set (ws_items s). 1 \<le> ws_weight s p \<and> ws_weight s p \<le> 10000 \<and> d_max_weight (ws_obj s p) = 10000)"

definition cs_ok :: "commu_server \<Rightarrow> bool" where
  "cs_ok s \<longleftrightarrow> ws_ok (cs_sched s) \<and> cs_channels s = ws_items (cs_sched s)"

text \<open>
  What happens to a route: channels register and go away; a message picks a channel and, once sent,
  lowers its weight; an answer on a channel raises it.
\<close>

inductive cs_step :: "commu_server \<Rightarrow> commu_server \<Rightarrow> bool" where
  "p \<noteq> NULL \<Longrightarrow> cs_step s (server_AddChannel p s)"
| "cs_step s (server_DelChannel p s)"
| "FindNextChannel now s = Some (p, s1) \<Longrightarrow> cs_step s s1"
| "p \<in> set (cs_channels s) \<Longrightarrow> cs_step s (s\<lparr>cs_sched := dec_weight p (cs_sched s)\<rparr>)"
| "p \<in> set (cs_channels s) \<Longrightarrow> cs_step s (s\<lparr>cs_sched := inc_weight p (cs_sched s), cs_ctrl := response_report delay (cs_ctrl s)\<rparr>)"

inductive cs_reach :: "nat \<Rightarrow> (ptr \<Rightarrow> disp) \<Rightarrow> commu_server \<Rightarrow> bool" for gid obj where
  "cs_reach gid obj (TNetCommuServer_init gid obj)"
| "cs_reach gid obj s \<Longrightarrow> cs_step s s1 \<Longrightarrow> cs_reach gid obj s1"

section \<open>Picking an item\<close>

abbreviation quota :: "(ptr \<Rightarrow> disp) \<Rightarrow> ptr list \<Rightarrow> nat" where
  "quota obj l \<equiv> sum_list (map (\<lambda>p. d_weight (obj p)) l)"

lemma quota_loop_sum: "tot + quota obj l < u32_max \<Longrightarrow> quota_loop obj l tot = tot + quota obj l"
  by (induction l arbitrary: tot) (simp_all add: u32_add_exact)

lemma pick_member: "l \<noteq> [] \<Longrightarrow> pick_loop obj l item r \<in> set l"
proof (induction l arbitrary: item r)
  case (Cons x l)
  then show ?case by (cases "l = []") auto
qed simp

lemma pick_iff:
  "\<lbrakk>distinct (a @ p # b); quota obj (a @ p # b) < u32_max; r < quota obj (a @ p # b)\<rbrakk> \<Longrightarrow>
   pick_loop obj (a @ p # b) item r = p \<longleftrightarrow> quota obj a \<le> r \<and> r < quota obj a + d_weight (obj p)"
proof (induction a arbitrary: item r)
  case Nil
  show ?case
  proof (cases "r < d_weight (obj p)")
    case False
    then have "b \<noteq> []" using Nil.prems by auto
    then have "pick_loop obj b p (u32_sub r (d_weight (obj p))) \<in> set b" by (rule pick_member)
    then show ?thesis using False Nil.prems by auto
  qed simp
next
  case (Cons x a)
  show ?case
  proof (cases "r < d_weight (obj x)")
    case True
    then show ?thesis using Cons.prems by auto
  next
    case False
    then have u: "u32_sub r (d_weight (obj x)) = r - d_weight (obj x)" using Cons.prems by (intro u32_sub_exact) auto
    have "pick_loop obj (a @ p # b) x (r - d_weight (obj x)) = p \<longleftrightarrow>
        quota obj a \<le> r - d_weight (obj x) \<and> r - d_weight (obj x) < quota obj a + d_weight (obj p)"
      by (rule Cons.IH) (use Cons.prems False in auto)
    then show ?thesis using False u by auto
  qed
qed

lemma pick_card:
  assumes "distinct l" "quota obj l < u32_max" "p \<in> set l"
  shows "card {r. r < quota obj l \<and> pick_loop obj l item r = p} = d_weight (obj p)"
proof -
  obtain a b where l: "l = a @ p # b" using assms(3) by (meson split_list)
  have "{r. r < quota obj l \<and> pick_loop obj l item r = p} = {quota obj a ..< quota obj a + d_weight (obj p)}"
    using pick_iff [OF assms(1,2) [unfolded l]] by (auto simp: l)
  then show ?thesis by simp
qed

lemma random_seed: "\<exists>seed. snd (random s) = s\<lparr>ws_rand_seed := seed\<rparr>"
  by (auto simp: random_def Let_def)

lemma detect_loop_least:
  "\<lbrakk>NULL \<notin> set l; least \<noteq> NULL; detect_loop l least s = (p, s1)\<rbrakk> \<Longrightarrow>
   (\<exists>seed. s1 = s\<lparr>ws_rand_seed := seed\<rparr>) \<and> p \<in> insert least (set l) \<and> (\<forall>q \<in> insert least (set l). ws_weight s p \<le> ws_weight s q)"
proof (induction l arbitrary: least s)
  case Nil
  then show ?case by (auto intro!: exI [of _ "ws_rand_seed s"])
next
  case (Cons x l)
  obtain r s2 where r: "random s = (r, s2)" by (cases "random s")
  obtain seed where s2: "s2 = s\<lparr>ws_rand_seed := seed\<rparr>" using random_seed [of s] r by auto
  have x: "x \<noteq> NULL" "NULL \<notin> set l" using Cons.prems(1) by auto
  obtain least1 s3 where d: "detect_loop l least1 s3 = (p, s1)" "s3 = s \<or> s3 = s2" "least1 = x \<or> least1 = least"
      "ws_weight s least1 \<le> ws_weight s x" "ws_weight s least1 \<le> ws_weight s least"
  proof (cases "ws_weight s x < ws_weight s least")
    case True
    then show thesis using that [of x s] Cons.prems by simp
  next
    case ge: False
    then show thesis
    proof (cases "ws_weight s x = ws_weight s least")
      case True
      then show thesis using that [of x s2] that [of least s2] Cons.prems r by (simp split: if_splits)
    next
      case False
      then show thesis using that [of least s] Cons.prems ge by simp
    qed
  qed
  have l1: "least1 \<noteq> NULL" using d(3) x Cons.prems(2) by auto
  have ih: "(\<exists>seed. s1 = s3\<lparr>ws_rand_seed := seed\<rparr>)" "p \<in> insert least1 (set l)" "\<forall>q \<in> insert least1 (set l). ws_weight s3 p \<le> ws_weight s3 q"
    using Cons.IH [OF x(2) l1 d(1)] by blast+
  have "s = s\<lparr>ws_rand_seed := ws_rand_seed s\<rparr>" by simp
  then have w: "ws_obj s3 = ws_obj s" "\<exists>seed. s3 = s\<lparr>ws_rand_seed := seed\<rparr>" using d(2) s2 by (auto, metis)
  have "\<forall>q \<in> insert least (set (x # l)). ws_weight s p \<le> ws_weight s q"
    using ih(3) d(4,5) w(1) by (auto intro: order_trans)
  moreover have "\<exists>seed. s1 = s\<lparr>ws_rand_seed := seed\<rparr>" using ih(1) w(2) by auto
  moreover have "p \<in> insert least (set (x # l))" using ih(2) d(3) by auto
  ultimately show ?case by blast
qed

lemma find_detect_item_least:
  assumes "NULL \<notin> set (ws_items s)" "ws_items s \<noteq> []" "find_detect_item s = (p, s1)"
  shows "(\<exists>seed. s1 = s\<lparr>ws_rand_seed := seed\<rparr>)" "p \<in> set (ws_items s)" "\<forall>q \<in> set (ws_items s). ws_weight s p \<le> ws_weight s q"
proof -
  obtain x l where l: "ws_items s = x # l" using assms(2) by (cases "ws_items s") auto
  have "detect_loop l x s = (p, s1)" using assms(3) l by (simp add: find_detect_item_def)
  from detect_loop_least [OF _ _ this]
  show "(\<exists>seed. s1 = s\<lparr>ws_rand_seed := seed\<rparr>)" "p \<in> set (ws_items s)" "\<forall>q \<in> set (ws_items s). ws_weight s p \<le> ws_weight s q"
    using assms(1) l by auto
qed

text \<open>A choice changes only the counter and the seed.\<close>

lemma get_next_item_frame:
  assumes "NULL \<notin> set (ws_items s)" "ws_items s \<noteq> []" "get_next_item s = (p, s1)"
  shows "p \<in> set (ws_items s)" "\<exists>n seed. s1 = s\<lparr>ws_total_times := n, ws_rand_seed := seed\<rparr>"
proof -
  define s0 where "s0 = s\<lparr>ws_total_times := (ws_total_times s + 1) mod u64_max\<rparr>"
  obtain r s2 where r: "random s0 = (r, s2)" by (cases "random s0")
  obtain seed where s2: "s2 = s0\<lparr>ws_rand_seed := seed\<rparr>" using random_seed [of s0] r by auto
  show "p \<in> set (ws_items s)" "\<exists>n seed. s1 = s\<lparr>ws_total_times := n, ws_rand_seed := seed\<rparr>"
  proof (atomize (full), cases "ws_total_times s0 mod ws_wakeup_frq s0 = u32_sub (ws_wakeup_frq s0) 1")
    case True
    then have f: "find_detect_item s0 = (p, s1)" using assms(3) [unfolded get_next_item_def Let_def, folded s0_def] by simp
    have "NULL \<notin> set (ws_items s0)" "ws_items s0 \<noteq> []" using assms by (simp_all add: s0_def)
    from find_detect_item_least(1,2) [OF this f]
    show "p \<in> set (ws_items s) \<and> (\<exists>n seed. s1 = s\<lparr>ws_total_times := n, ws_rand_seed := seed\<rparr>)" by (auto simp: s0_def)
  next
    case False
    then have "p = pick_loop (ws_obj s2) (ws_items s2) NULL (r mod (let q = quota_loop (ws_obj s0) (ws_items s0) 0 in if q > 0 then q else 1))" "s1 = s2"
      using assms(3) [unfolded get_next_item_def Let_def, folded s0_def] r by (auto simp: Let_def)
    then show "p \<in> set (ws_items s) \<and> (\<exists>n seed. s1 = s\<lparr>ws_total_times := n, ws_rand_seed := seed\<rparr>)"
      using assms(2) by (auto simp: s2 s0_def intro: pick_member)
  qed
qed

section \<open>The steps keep the invariant\<close>

lemma ws_ok_init: "ws_ok (CWeightSchedule_init obj)"
  by (simp add: ws_ok_def CWeightSchedule_init_def)

lemma ws_ok_del: "ws_ok s \<Longrightarrow> ws_ok (del_item p s)"
  by (auto simp: ws_ok_def del_item_def dest: notin_set_remove1)

lemma ws_ok_add: "ws_ok s \<Longrightarrow> p \<noteq> NULL \<Longrightarrow> ws_ok (add_item p s)"
  by (auto simp: ws_ok_def add_item_def set_weight_def set_max_weight_def Let_def)

lemma ws_ok_weight: "ws_ok s \<Longrightarrow> 1 \<le> w \<Longrightarrow> w \<le> 10000 \<Longrightarrow> ws_ok (set_weight p w s)"
  by (auto simp: ws_ok_def set_weight_def)

lemma ws_ok_inc:
  assumes "ws_ok s" "p \<in> set (ws_items s)"
  shows "ws_ok (inc_weight p s)" "ws_weight (inc_weight p s) p = min 10000 (ws_weight s p + ws_inc_step s)"
proof -
  have w: "1 \<le> ws_weight s p" "ws_weight s p \<le> 10000" "d_max_weight (ws_obj s p) = 10000" "ws_inc_step s \<le> 10500" "1 \<le> ws_inc_step s"
    using assms by (auto simp: ws_ok_def)
  then have "u32_add (ws_weight s p) (ws_inc_step s) = ws_weight s p + ws_inc_step s" by (simp add: u32_add_exact u32_max_def)
  then have i: "inc_weight p s = set_weight p (min 10000 (ws_weight s p + ws_inc_step s)) s" using w by (simp add: inc_weight_def Let_def)
  show "ws_weight (inc_weight p s) p = min 10000 (ws_weight s p + ws_inc_step s)" by (simp add: i set_weight_def)
  show "ws_ok (inc_weight p s)" unfolding i by (rule ws_ok_weight) (use assms w in auto)
qed

lemma ws_ok_dec:
  assumes "ws_ok s" "p \<in> set (ws_items s)"
  shows "ws_ok (dec_weight p s)" "ws_weight (dec_weight p s) p = max 1 (ws_weight s p - ws_dec_step s)"
proof -
  have w: "1 \<le> ws_weight s p" "ws_weight s p \<le> 10000" "ws_min_quota s = 1" "ws_dec_step s \<le> 10000" "1 \<le> ws_dec_step s"
    using assms by (auto simp: ws_ok_def)
  then have "u32_add (ws_dec_step s) 1 = ws_dec_step s + 1"
    "ws_dec_step s + 1 \<le> ws_weight s p \<Longrightarrow> u32_sub (ws_weight s p) (ws_dec_step s) = ws_weight s p - ws_dec_step s"
    by (simp_all add: u32_add_exact u32_sub_exact u32_max_def)
  then have i: "dec_weight p s = set_weight p (max 1 (ws_weight s p - ws_dec_step s)) s" using w by (simp add: dec_weight_def Let_def)
  show "ws_weight (dec_weight p s) p = max 1 (ws_weight s p - ws_dec_step s)" by (simp add: i set_weight_def)
  show "ws_ok (dec_weight p s)" unfolding i by (rule ws_ok_weight) (use assms w in auto)
qed

lemma calc_step_range: "\<exists>w. calc_step now cnt d = Some w \<and> 500 \<le> w \<and> w \<le> 10000"
proof -
  have w: "500 \<le> (10000 :: nat) div w" if "0 < w" "\<not> 20 < w" for w
    using div_le_mono2 [of w 20 10000] that by simp
  show ?thesis
    by (auto simp: calc_step_def MAX_QUOTA_def MIN_WINDOWS_def MAX_WINDOWS_def Let_def udiv_def intro!: w)
qed

lemma ws_ok_steps: "ws_ok s \<Longrightarrow> 1 \<le> n \<Longrightarrow> n \<le> 10000 \<Longrightarrow> ws_ok (set_step_params n s)"
proof -
  assume a: "ws_ok s" "1 \<le> n" "n \<le> 10000"
  then have "u32_add n (n div 20) = n + n div 20" "n div 20 \<le> 500" by (simp_all add: u32_add_exact u32_max_def)
  with a show "ws_ok (set_step_params n s)" by (auto simp: ws_ok_def set_step_params_def)
qed

lemma FindNextChannel_ok:
  assumes "cs_ok s"
  obtains p s1 where "FindNextChannel now s = Some (p, s1)" "cs_ok s1" "cs_channels s1 = cs_channels s"
    "if cs_channels s = [] then p = NULL \<and> s1 = s else p \<in> set (cs_channels s) \<and> p \<noteq> NULL"
proof (cases "cs_channels s = []")
  case True
  then show thesis using assms that by (simp add: FindNextChannel_def)
next
  case False
  define t where "t = (if now > (dc_report_time (cs_ctrl s) + 10 * 1000) mod u64_max
     then do {
       dec_step \<leftarrow> calc_step now (length (cs_channels s) mod u32_max) (cs_ctrl s);
       Some (s\<lparr>cs_sched := set_step_params dec_step (cs_sched s), cs_ctrl := reset_report now (cs_ctrl s)\<rparr>)
     } else Some s)"
  obtain n where n: "calc_step now (length (cs_channels s) mod u32_max) (cs_ctrl s) = Some n" "500 \<le> n" "n \<le> 10000"
    using calc_step_range by blast
  obtain s1 where s1: "t = Some s1" "cs_ok s1" "cs_channels s1 = cs_channels s"
    using assms ws_ok_steps [of "cs_sched s" n] n by (cases "now > (dc_report_time (cs_ctrl s) + 10 * 1000) mod u64_max")
      (auto simp: t_def cs_ok_def set_step_params_def)
  obtain p w where g: "get_next_item (cs_sched s1) = (p, w)" by (cases "get_next_item (cs_sched s1)")
  have nn: "NULL \<notin> set (ws_items (cs_sched s1))" "ws_items (cs_sched s1) \<noteq> []" "cs_channels s = ws_items (cs_sched s1)"
    using s1 False by (auto simp: cs_ok_def ws_ok_def)
  note f = get_next_item_frame [OF nn(1,2) g]
  have "p \<noteq> NULL" using f(1) nn(1) by metis
  then have "FindNextChannel now s = Some (p, s1\<lparr>cs_sched := w, cs_ctrl := request_report (cs_ctrl s1)\<rparr>)"
    unfolding FindNextChannel_def t_def [symmetric] using False s1(1) g by (simp add: Let_def)
  moreover have "cs_ok (s1\<lparr>cs_sched := w, cs_ctrl := request_report (cs_ctrl s1)\<rparr>)"
    using s1(2) f(2) by (auto simp: cs_ok_def ws_ok_def)
  ultimately show thesis using that s1(3) False f(1) nn(3) \<open>p \<noteq> NULL\<close> by simp
qed

lemma cs_step_ok: "cs_step s s1 \<Longrightarrow> cs_ok s \<Longrightarrow> cs_ok s1"
proof (induction rule: cs_step.induct)
  case (1 p s)
  then have "ws_ok (add_item p (del_item p (cs_sched s)))" by (auto simp: cs_ok_def intro: ws_ok_add ws_ok_del)
  moreover have "distinct (ws_items (cs_sched s))" using 1 by (simp add: cs_ok_def ws_ok_def)
  ultimately show ?case using 1
    by (auto simp: cs_ok_def server_AddChannel_def server_DelChannel_def Let_def add_item_def del_item_def set_weight_def set_max_weight_def)
next
  case (2 s p)
  then show ?case by (auto simp: cs_ok_def server_DelChannel_def del_item_def intro: ws_ok_del [unfolded del_item_def])
next
  case (3 now s p s1)
  show ?case by (rule FindNextChannel_ok [OF 3(2), of now]) (use 3(1) in auto)
next
  case (4 p s)
  then show ?case using ws_ok_dec(1) by (auto simp: cs_ok_def dec_weight_def Let_def set_weight_def)
next
  case (5 p s delay)
  then show ?case using ws_ok_inc(1) by (auto simp: cs_ok_def inc_weight_def Let_def set_weight_def)
qed

lemma cs_reach_ok: "cs_reach gid obj s \<Longrightarrow> cs_ok s"
proof (induction rule: cs_reach.induct)
  case 1
  then show ?case using ws_ok_init [of obj] by (simp add: TNetCommuServer_init_def cs_ok_def) (simp add: CWeightSchedule_init_def)
next
  case (2 s s1)
  then show ?case by (blast intro: cs_step_ok)
qed

section \<open>Properties\<close>

lemma quota_bound:
  assumes "\<forall>p \<in> set l. d_weight (obj p) \<le> n"
  shows "quota obj l \<le> length l * n"
  using assms by (induction l) auto

text \<open>C15: messages go to channels in proportion to their weights. In every state of a route that can be reached,
  with fewer than 429,496 channels (so that the sum of the weights does not wrap around), a turn that is not a probe
  reduces the random number to a value below the sum of the weights, and exactly as many of these values select a
  channel as its weight, which is at least 1.\<close>

theorem dispatch_fair:
  assumes "cs_reach gid obj s" "length (cs_channels s) < 429496" "p \<in> set (cs_channels s)" "w = cs_sched s" "q = quota (ws_obj w) (ws_items w)"
  shows "card {r. r < q \<and> pick_loop (ws_obj w) (ws_items w) NULL r = p} = ws_weight w p \<and> 1 \<le> ws_weight w p \<and>
    ((ws_total_times w + 1) mod u64_max mod 10000 \<noteq> 9999 \<longrightarrow>
       fst (get_next_item w) = pick_loop (ws_obj w) (ws_items w) NULL (fst (random w) mod q) \<and> fst (random w) mod q < q)"
proof -
  have ok: "ws_ok w" "cs_channels s = ws_items w" using cs_reach_ok [OF assms(1)] assms(4) by (auto simp: cs_ok_def)
  then have q: "q \<le> length (ws_items w) * 10000" unfolding assms(5) by (intro quota_bound) (auto simp: ws_ok_def)
  then have qm: "q < u32_max" using assms(2) ok(2) by (simp add: u32_max_def)
  have p: "p \<in> set (ws_items w)" "1 \<le> ws_weight w p" using ok assms(3) by (auto simp: ws_ok_def)
  have "ws_weight w p \<le> q" unfolding assms(5) by (rule member_le_sum_list) (use p in auto)
  then have q0: "0 < q" using p(2) by simp
  have "quota_loop (ws_obj w) (ws_items w) 0 = q" using quota_loop_sum [of 0 "ws_obj w" "ws_items w"] qm assms(5) by simp
  moreover have "ws_wakeup_frq w = 10000" "u32_sub 10000 1 = 9999" using ok by (auto simp: ws_ok_def u32_sub_exact u32_max_def)
  ultimately have "(ws_total_times w + 1) mod u64_max mod 10000 \<noteq> 9999 \<longrightarrow>
      fst (get_next_item w) = pick_loop (ws_obj w) (ws_items w) NULL (fst (random w) mod q)"
    using q0 by (simp add: get_next_item_def random_def Let_def)
  with pick_card [of "ws_items w" "ws_obj w" p NULL] p ok qm q0 assms(5) show ?thesis by (simp add: ws_ok_def)
qed

text \<open>Every ten thousandth turn probes: in a state that satisfies the invariant it selects a channel whose weight is least, so that a channel that has
  fallen to weight 1 is still tried.\<close>

theorem probe_takes_least:
  assumes "cs_ok s" "cs_channels s \<noteq> []" "w = cs_sched s" "(ws_total_times w + 1) mod u64_max mod 10000 = 9999"
  shows "fst (get_next_item w) \<in> set (cs_channels s) \<and> (\<forall>q \<in> set (cs_channels s). ws_weight w (fst (get_next_item w)) \<le> ws_weight w q)"
proof -
  have ok: "ws_ok w" "cs_channels s = ws_items w" using assms(1,3) by (auto simp: cs_ok_def)
  define v where "v = w\<lparr>ws_total_times := (ws_total_times w + 1) mod u64_max\<rparr>"
  have v: "NULL \<notin> set (ws_items v)" "ws_items v \<noteq> []" "ws_items v = ws_items w" "ws_obj v = ws_obj w"
    using ok assms(2) by (auto simp: v_def ws_ok_def)
  have "ws_wakeup_frq w = 10000" "u32_sub 10000 1 = 9999" using ok by (auto simp: ws_ok_def u32_sub_exact u32_max_def)
  then have "get_next_item w = find_detect_item v"
    unfolding get_next_item_def Let_def using assms(4) by (simp add: v_def)
  moreover obtain p v1 where f: "find_detect_item v = (p, v1)" by (cases "find_detect_item v")
  ultimately show ?thesis using find_detect_item_least(2,3) [OF v(1,2) f] ok(2) v(3,4) by simp
qed

text \<open>C37: in every state of a route that can be reached, \<open>FindNextChannel\<close> returns, without a division by zero, a
  channel of the route whenever there is one, and every weight is between 1 and 10000.\<close>

theorem dispatch_safe:
  assumes "cs_reach gid obj s"
  shows "\<exists>p s1. FindNextChannel now s = Some (p, s1) \<and> (if cs_channels s = [] then p = NULL else p \<in> set (cs_channels s)) \<and>
    cs_channels s1 = cs_channels s \<and> distinct (cs_channels s) \<and> (\<forall>q \<in> set (cs_channels s). ws_weight (cs_sched s) q \<in> {1..10000})"
proof -
  have ok: "cs_ok s" by (rule cs_reach_ok [OF assms])
  obtain p s1 where "FindNextChannel now s = Some (p, s1)" "cs_channels s1 = cs_channels s"
    "if cs_channels s = [] then p = NULL \<and> s1 = s else p \<in> set (cs_channels s) \<and> p \<noteq> NULL"
    by (rule FindNextChannel_ok [OF ok])
  with ok show ?thesis by (auto simp: cs_ok_def ws_ok_def)
qed

text \<open>C38: the step by which a failure lowers a weight is between 500 and 10000, whatever was reported: one to
  twenty failures take a channel from the full weight to the floor, and no division is by zero.\<close>

theorem calc_step_bounds: "\<exists>w. calc_step now cnt d = Some w \<and> w \<in> {500..10000}"
  using calc_step_range by auto

definition two_channels :: commu_server where
  "two_channels = server_AddChannel 7 (server_AddChannel 5 (TNetCommuServer_init 1 (\<lambda>p. \<lparr>d_weight = 0, d_max_weight = 0\<rparr>)))"

lemma two_channels_reach: "cs_reach 1 (\<lambda>p. \<lparr>d_weight = 0, d_max_weight = 0\<rparr>) two_channels"
  unfolding two_channels_def
  by (rule cs_reach.intros(2) [OF cs_reach.intros(2) [OF cs_reach.intros(1) cs_step.intros(1)] cs_step.intros(1)]) simp_all

lemma add_item_fields:
  "ws_items (add_item p s) = (if p \<in> set (ws_items s) then ws_items s else ws_items s @ [p])"
  "ws_weight (add_item p s) q = (if q = p then ws_max_quota s else ws_weight s q)"
  "ws_max_quota (add_item p s) = ws_max_quota s" "ws_total_times (add_item p s) = ws_total_times s"
  by (simp_all add: add_item_def set_weight_def set_max_weight_def Let_def)

lemma AddChannel_fields:
  "cs_channels (server_AddChannel p s) = remove1 p (cs_channels s) @ [p]"
  "cs_sched (server_AddChannel p s) = add_item p (del_item p (cs_sched s))"
  by (simp_all add: server_AddChannel_def server_DelChannel_def Let_def)

lemma two_channels_view:
  "cs_channels two_channels = [5, 7]" "ws_items (cs_sched two_channels) = [5, 7]" "ws_weight (cs_sched two_channels) 7 = 10000"
  "ws_weight (cs_sched two_channels) 5 = 10000" "ws_total_times (cs_sched two_channels) = 0"
  by (simp_all add: two_channels_def AddChannel_fields add_item_fields del_item_def TNetCommuServer_init_def CWeightSchedule_init_def)

theorem dispatch_fair_witness:
  "card {r. r < 20000 \<and> pick_loop (ws_obj (cs_sched two_channels)) [5, 7] NULL r = 7} = 10000 \<and>
   fst (get_next_item (cs_sched two_channels)) =
     pick_loop (ws_obj (cs_sched two_channels)) [5, 7] NULL (fst (random (cs_sched two_channels)) mod 20000)"
  using dispatch_fair [OF two_channels_reach, of 7 "cs_sched two_channels" 20000] by (simp add: two_channels_view u64_max_def)

definition probing :: commu_server where
  "probing = two_channels\<lparr>cs_sched := (cs_sched two_channels)\<lparr>ws_total_times := 9998\<rparr>\<rparr>"

theorem probe_takes_least_witness: "fst (get_next_item (cs_sched probing)) \<in> {5, 7}"
proof -
  have "cs_ok probing" using cs_reach_ok [OF two_channels_reach] by (simp add: probing_def cs_ok_def ws_ok_def)
  then show ?thesis using probe_takes_least [of probing "cs_sched probing"] by (simp add: probing_def two_channels_view u64_max_def)
qed

theorem dispatch_safe_witness: "\<exists>p s1. FindNextChannel 3 two_channels = Some (p, s1) \<and> p \<in> {5, 7}"
  using dispatch_safe [OF two_channels_reach, of 3] by (auto simp: two_channels_view)

end
