(* ===== verification/Raw_Cache.thy ===== *)
theory Raw_Cache
  imports Byte_Fifo
begin

text \<open>
  The byte cache of a connection, \<open>CRawCache\<close> (\<open>comm/tbase/tsockcommu/tcache.cpp\<close>), over the memory
  pool of \<open>tmempool.cpp\<close>. \<open>malloc\<close> is an argument: it yields a block of the requested size with
  arbitrary content, or fails. A copy out of a block is \<^term>\<open>None\<close>.
\<close>

section \<open>State and operations\<close>

definition RAW_CACHE_DEFAULT_SIZE :: nat where "RAW_CACHE_DEFAULT_SIZE = 65536"

record raw_cache =
  rc_mem :: "byte list option"
  rc_block_size :: nat
  rc_head :: nat
  rc_len :: nat
  rc_fin :: bool

definition CRawCache_init :: raw_cache where
  "CRawCache_init = \<lparr>rc_mem = None, rc_block_size = 0, rc_head = 0, rc_len = 0, rc_fin = False\<rparr>"

text \<open>\<open>CMemPool::allocate\<close> stores the size and returns the block or \<open>NULL\<close>; \<open>recycle\<close> frees it.\<close>

definition allocate :: "(nat \<Rightarrow> byte list option) \<Rightarrow> nat \<Rightarrow> byte list option \<times> nat" where
  "allocate malloc sz = (malloc sz, sz)"

definition recycle :: "byte list option \<Rightarrow> nat \<Rightarrow> int" where
  "recycle mem mem_size = (if mem = None \<or> mem_size = 0 then - 1 else 0)"

text \<open>\<open>data\<close>: \<open>NULL\<close> for an empty cache, \<open>exit\<close> (the outer \<^term>\<open>None\<close>) on a damaged head, otherwise the
  offset of the first byte.\<close>

definition rc_data_ptr :: "raw_cache \<Rightarrow> nat option option" where
  "rc_data_ptr c =
     (if rc_len c = 0 then Some None
      else if rc_head c \<ge> rc_block_size c then None else Some (Some (rc_head c)))"

text \<open>The result of \<open>append\<close>: whether it threw, and the cache.\<close>

definition append :: "(nat \<Rightarrow> byte list option) \<Rightarrow> byte list \<Rightarrow> nat \<Rightarrow> raw_cache \<Rightarrow> (bool \<times> raw_cache) option" where
  "append malloc data data_len c =
     (if rc_fin c then Some (False, c)
      else case rc_mem c of
        None \<Rightarrow>
          (case allocate malloc (max RAW_CACHE_DEFAULT_SIZE data_len) of
             (None, bs) \<Rightarrow> Some (True, c\<lparr>rc_block_size := bs\<rparr>)
           | (Some mem, bs) \<Rightarrow> do {
               d \<leftarrow> mem_rd data 0 data_len;
               mem1 \<leftarrow> mem_wr mem 0 d;
               Some (False, c\<lparr>rc_mem := Some mem1, rc_block_size := bs, rc_head := 0, rc_len := data_len\<rparr>)
             })
      | Some mem \<Rightarrow>
          if u32_add (u32_add data_len (rc_head c)) (rc_len c) \<le> rc_block_size c then do {
            d \<leftarrow> mem_rd data 0 data_len;
            mem1 \<leftarrow> mem_wr mem (rc_head c + rc_len c) d;
            Some (False, c\<lparr>rc_mem := Some mem1, rc_len := u32_add (rc_len c) data_len\<rparr>)
          }
          else if u32_add data_len (rc_len c) > rc_block_size c then
            (case allocate malloc (max (u32_add (rc_len c) data_len) ((rc_block_size c * 2) mod u32_max)) of
               (None, _) \<Rightarrow> Some (True, c)
             | (Some mem', bs) \<Rightarrow> do {
                 old \<leftarrow> mem_rd mem (rc_head c) (rc_len c);
                 mem1 \<leftarrow> mem_wr mem' 0 old;
                 d \<leftarrow> mem_rd data 0 data_len;
                 mem2 \<leftarrow> mem_wr mem1 (rc_len c) d;
                 Some (False, c\<lparr>rc_mem := Some mem2, rc_block_size := bs, rc_head := 0,
                                rc_len := u32_add (rc_len c) data_len\<rparr>)
               })
          else do {
            old \<leftarrow> mem_rd mem (rc_head c) (rc_len c);
            mem1 \<leftarrow> mem_wr mem 0 old;
            d \<leftarrow> mem_rd data 0 data_len;
            mem2 \<leftarrow> mem_wr mem1 (rc_len c) d;
            Some (False, c\<lparr>rc_mem := Some mem2, rc_head := 0, rc_len := u32_add (rc_len c) data_len\<rparr>)
          })"

definition skip :: "nat \<Rightarrow> raw_cache \<Rightarrow> raw_cache" where
  "skip n c =
     (if rc_mem c = None then c
      else if n \<ge> rc_len c then c\<lparr>rc_mem := None, rc_block_size := 0, rc_head := 0, rc_len := 0\<rparr>
      else c\<lparr>rc_head := u32_add (rc_head c) n, rc_len := u32_sub (rc_len c) n\<rparr>)"

definition set_fin_bit :: "bool \<Rightarrow> raw_cache \<Rightarrow> raw_cache" where
  "set_fin_bit val c = c\<lparr>rc_fin := val\<rparr>"

section \<open>The cache as a byte string\<close>

definition rc_bytes :: "raw_cache \<Rightarrow> byte list" where
  "rc_bytes c = (case rc_mem c of None \<Rightarrow> [] | Some mem \<Rightarrow> take (rc_len c) (drop (rc_head c) mem))"

definition rc_wf :: "raw_cache \<Rightarrow> bool" where
  "rc_wf c \<longleftrightarrow> (case rc_mem c of
     None \<Rightarrow> rc_len c = 0 \<and> rc_head c = 0
   | Some mem \<Rightarrow> length mem = rc_block_size c \<and> rc_head c + rc_len c \<le> rc_block_size c \<and> rc_block_size c < u32_max)"

text \<open>What the program relies on of \<open>malloc\<close>: a block has the size asked for.\<close>

definition malloc_ok :: "(nat \<Rightarrow> byte list option) \<Rightarrow> bool" where
  "malloc_ok malloc \<longleftrightarrow> (\<forall>n mem. malloc n = Some mem \<longrightarrow> length mem = n)"

lemma rc_bytes_length: "rc_wf c \<Longrightarrow> length (rc_bytes c) = rc_len c"
  by (auto simp: rc_wf_def rc_bytes_def split: option.splits)

lemma rc_init [simp]: "rc_wf CRawCache_init" "rc_bytes CRawCache_init = []"
  by (simp_all add: rc_wf_def rc_bytes_def CRawCache_init_def)

lemma skip_bytes:
  assumes "rc_wf c"
  shows "rc_bytes (skip n c) = drop n (rc_bytes c)" "rc_wf (skip n c)" "rc_fin (skip n c) = rc_fin c"
proof -
  show "rc_fin (skip n c) = rc_fin c" by (simp add: skip_def)
  show "rc_bytes (skip n c) = drop n (rc_bytes c)" "rc_wf (skip n c)"
  proof (atomize (full), cases "rc_mem c")
    case None
    then show "rc_bytes (skip n c) = drop n (rc_bytes c) \<and> rc_wf (skip n c)"
      using assms by (simp add: skip_def rc_bytes_def)
  next
    case (Some mem)
    then have w: "length mem = rc_block_size c" "rc_head c + rc_len c \<le> rc_block_size c" "rc_block_size c < u32_max"
      using assms by (auto simp: rc_wf_def)
    show "rc_bytes (skip n c) = drop n (rc_bytes c) \<and> rc_wf (skip n c)"
    proof (cases "n \<ge> rc_len c")
      case True
      then show ?thesis using Some by (simp add: skip_def rc_bytes_def rc_wf_def)
    next
      case False
      have "u32_add (rc_head c) n = rc_head c + n" "u32_sub (rc_len c) n = rc_len c - n"
        using False w by (simp_all add: u32_simps)
      then show ?thesis
        using Some False w by (simp add: skip_def rc_bytes_def rc_wf_def drop_take add.commute)
    qed
  qed
qed

text \<open>Without wrap-around of the 32-bit sizes, \<open>append\<close> stays in its blocks on every branch.\<close>

lemma append_bytes:
  assumes wf: "rc_wf c" and fin: "\<not> rc_fin c" and m: "malloc_ok malloc"
    and n: "rc_block_size c + length data < 2 ^ 31"
  shows "\<exists>thrown c'. append malloc data (length data) c = Some (thrown, c') \<and> rc_wf c' \<and> rc_fin c' = rc_fin c \<and>
    rc_bytes c' = (if thrown then rc_bytes c else rc_bytes c @ data) \<and>
    (thrown \<longrightarrow> (\<exists>k. malloc k = None))"
proof (cases "rc_mem c")
  case None
  show ?thesis
  proof (cases "malloc (max RAW_CACHE_DEFAULT_SIZE (length data))")
    case (Some mem)
    then have "length mem = max RAW_CACHE_DEFAULT_SIZE (length data)" using m by (simp add: malloc_ok_def)
    then show ?thesis
      using None Some fin wf n
      by (auto simp: append_def allocate_def mem_wr_def mem_rd_def rc_bytes_def rc_wf_def RAW_CACHE_DEFAULT_SIZE_def
          u32_max_def)
  qed (use None fin wf in \<open>auto simp: append_def allocate_def rc_bytes_def rc_wf_def\<close>)
next
  case (Some mem)
  let ?n = "length data"
  have w: "length mem = rc_block_size c" "rc_head c + rc_len c \<le> rc_block_size c"
    using wf Some by (auto simp: rc_wf_def)
  have e: "u32_add (u32_add ?n (rc_head c)) (rc_len c) = ?n + rc_head c + rc_len c"
    "u32_add ?n (rc_len c) = ?n + rc_len c" "u32_add (rc_len c) ?n = rc_len c + ?n"
    "(rc_block_size c * 2) mod u32_max = rc_block_size c * 2"
    using n w by (simp_all add: u32_simps u32_max_def)
  consider (fits) "?n + rc_head c + rc_len c \<le> rc_block_size c"
    | (grow) "rc_block_size c < ?n + rc_len c" | (move) "rc_block_size c < ?n + rc_head c + rc_len c" "?n + rc_len c \<le> rc_block_size c"
    by linarith
  then show ?thesis
  proof cases
    case fits
    then show ?thesis
      using Some fin w n
      by (auto simp: append_def e mem_wr_def mem_rd_def rc_bytes_def rc_wf_def u32_max_def drop_take)
  next
    case grow
    let ?k = "max (rc_len c + ?n) (rc_block_size c * 2)"
    show ?thesis
    proof (cases "malloc ?k")
      case None
      then show ?thesis
        using Some fin wf grow by (auto simp: append_def e allocate_def)
    next
      case (Some mem')
      then have "length mem' = ?k" using m by (simp add: malloc_ok_def)
      then show ?thesis
        using \<open>rc_mem c = Some mem\<close> Some fin w n grow
        by (auto simp: append_def e allocate_def mem_wr_def mem_rd_def rc_bytes_def rc_wf_def u32_max_def)
    qed
  next
    case move
    then show ?thesis
      using Some fin w n
      by (auto simp: append_def e mem_wr_def mem_rd_def rc_bytes_def rc_wf_def u32_max_def drop_take)
  qed
qed

section \<open>The cache as a byte queue\<close>

text \<open>The block a put leaves behind: at most twice the bytes in it.\<close>

lemma append_block_size:
  assumes "append malloc data (length data) c = Some (thrown, c1)" "rc_wf c" "rc_block_size c + length data < 2 ^ 31"
  shows "rc_block_size c1 \<le> max (max RAW_CACHE_DEFAULT_SIZE (rc_block_size c)) (2 * (rc_len c + length data))"
proof (cases "rc_mem c")
  case None
  then show ?thesis using assms(1) by (auto simp: append_def allocate_def bind_eq_Some_conv split: if_splits option.splits)
next
  case (Some mem)
  have e: "u32_add (length data) (rc_len c) = length data + rc_len c" "u32_add (rc_len c) (length data) = length data + rc_len c"
    "(rc_block_size c * 2) mod u32_max = rc_block_size c * 2"
    using assms(2,3) Some by (simp_all add: u32_simps u32_max_def rc_wf_def)
  show ?thesis
    using assms(1) Some by (auto simp: append_def allocate_def e bind_eq_Some_conv split: if_splits option.splits)
qed

definition raw_invar :: "(nat \<Rightarrow> byte list option) \<times> raw_cache \<Rightarrow> bool" where
  "raw_invar s \<longleftrightarrow> (case s of (malloc, c) \<Rightarrow> malloc_ok malloc \<and> rc_wf c \<and> \<not> rc_fin c)"

definition raw_fits :: "nat \<Rightarrow> (nat \<Rightarrow> byte list option) \<times> raw_cache \<Rightarrow> bool" where
  "raw_fits n s \<longleftrightarrow> (case s of (malloc, c) \<Rightarrow> rc_block_size c \<le> 2 ^ 30 \<and> rc_len c + n \<le> 2 ^ 29)"

definition raw_put :: "byte list \<Rightarrow> (nat \<Rightarrow> byte list option) \<times> raw_cache \<Rightarrow> (bool \<times> (nat \<Rightarrow> byte list option) \<times> raw_cache) option" where
  "raw_put d s = (case s of (malloc, c) \<Rightarrow> do { (thrown, c1) \<leftarrow> append malloc d (length d) c; Some (\<not> thrown, malloc, c1) })"

text \<open>A client reads from \<open>data\<close> on, then skips what it has read.\<close>

definition raw_get :: "nat \<Rightarrow> (nat \<Rightarrow> byte list option) \<times> raw_cache \<Rightarrow> (byte list \<times> (nat \<Rightarrow> byte list option) \<times> raw_cache) option" where
  "raw_get k s = (case s of (malloc, c) \<Rightarrow> do {
     p \<leftarrow> rc_data_ptr c;
     d \<leftarrow> (case p of None \<Rightarrow> Some [] | Some off \<Rightarrow> do { mem \<leftarrow> rc_mem c; mem_rd mem off (min k (rc_len c)) });
     Some (d, malloc, skip k c)
   })"

lemma raw_put_law:
  assumes "raw_invar s" "raw_fits (length d + n) s"
  shows "\<exists>ok s1. raw_put d s = Some (ok, s1) \<and> raw_invar s1 \<and> rc_bytes (snd s1) = rc_bytes (snd s) @ (if ok then d else []) \<and> raw_fits n s1"
proof -
  obtain malloc c where s: "s = (malloc, c)" by (cases s)
  have i: "rc_wf c" "\<not> rc_fin c" "malloc_ok malloc" and f: "rc_block_size c \<le> 2 ^ 30" "rc_len c + (length d + n) \<le> 2 ^ 29"
    using assms by (auto simp: s raw_invar_def raw_fits_def)
  have b: "rc_block_size c + length d < 2 ^ 31" using f by simp
  obtain thrown c1 where a: "append malloc d (length d) c = Some (thrown, c1)" "rc_wf c1" "rc_fin c1 = rc_fin c"
    "rc_bytes c1 = (if thrown then rc_bytes c else rc_bytes c @ d)"
    using append_bytes [OF i b] by blast
  have "length (rc_bytes c1) \<le> length (rc_bytes c) + length d" using a(4) by simp
  then have "rc_len c1 \<le> rc_len c + length d" using rc_bytes_length i(1) a(2) by simp
  then show ?thesis
    using a append_block_size [OF a(1) i(1) b] i f by (auto simp: s raw_put_def raw_invar_def raw_fits_def RAW_CACHE_DEFAULT_SIZE_def)
qed

lemma raw_get_law:
  assumes "raw_invar s" "raw_fits n s"
  shows "\<exists>s1. raw_get k s = Some (take k (rc_bytes (snd s)), s1) \<and> raw_invar s1 \<and> rc_bytes (snd s1) = drop k (rc_bytes (snd s)) \<and> raw_fits n s1"
proof -
  obtain malloc c where s: "s = (malloc, c)" by (cases s)
  have i: "rc_wf c" "\<not> rc_fin c" "malloc_ok malloc" and f: "rc_block_size c \<le> 2 ^ 30" "rc_len c + n \<le> 2 ^ 29"
    using assms by (auto simp: s raw_invar_def raw_fits_def)
  note sk = skip_bytes [OF i(1), of k]
  have g: "raw_get k s = Some (take k (rc_bytes c), malloc, skip k c)"
    using i(1) by (auto simp: s raw_get_def rc_data_ptr_def rc_wf_def rc_bytes_def mem_rd_def split: option.splits)
  have "length (rc_bytes (skip k c)) \<le> length (rc_bytes c)" using sk(1) by simp
  then have "rc_len (skip k c) \<le> rc_len c" using rc_bytes_length sk(2) i(1) by simp
  moreover have "rc_block_size (skip k c) \<le> rc_block_size c" by (simp add: skip_def)
  ultimately show ?thesis using g sk i f by (auto simp: s raw_invar_def raw_fits_def)
qed

interpretation raw_fifo: byte_fifo raw_invar "\<lambda>s. rc_bytes (snd s)" raw_fits raw_put raw_get
  by unfold_locales (use raw_put_law raw_get_law in blast)+

text \<open>C32: a cache of a proxy connection is a byte queue. Over any sequence of appends and of reads that skip
  what they have read, with allocations failing at any point, the bytes accepted come out in order, each
  once, whether the block is filled, compacted or replaced by a bigger one.\<close>

theorem raw_cache_history:
  assumes "malloc_ok malloc" "puts ops \<le> 2 ^ 29" "\<forall>k. Get k \<in> set ops \<longrightarrow> k < u32_max"
  shows "\<exists>a r s. fifo_run raw_put raw_get ops (malloc, CRawCache_init) = Some (a, r, s) \<and> a = r @ rc_bytes (snd s)"
  using raw_fifo.run_stream [of "(malloc, CRawCache_init)" ops] assms
  by (auto simp: raw_invar_def raw_fits_def CRawCache_init_def rc_wf_def rc_bytes_def)

theorem raw_cache_history_witness:
  "\<exists>a r s. fifo_run raw_put raw_get [Put [1, 2, 3], Get 2, Put [4], Get 9] (\<lambda>n. Some (replicate n 0), CRawCache_init) = Some (a, r, s) \<and>
     a = r @ rc_bytes (snd s)"
  by (rule raw_cache_history) (simp_all add: malloc_ok_def u32_max_def)

end
