(* ===== verification/Conn_Set.thy ===== *)
theory Conn_Set
  imports Raw_Cache
begin

text \<open>
  The connection table of the proxy, \<open>CConnSet\<close> (\<open>comm/tbase/tsockcommu/tconnset.cpp\<close>): a connection
  lives in the slot that its flow number selects and carries a read and a write cache. System
  calls and the clock are arguments; the bytes that a call hands to the kernel are part of its
  result.
\<close>

section \<open>State\<close>

definition E_NEED_CLOSE :: int where "E_NEED_CLOSE = 10000"
definition E_NOT_FINDFD :: int where "E_NOT_FINDFD = 20000"
definition C_NEED_SEND :: int where "C_NEED_SEND = 30000"
definition E_RECV_DONE :: int where "E_RECV_DONE = 40000"
definition MAX_FLOW_NUM :: nat where "MAX_FLOW_NUM = 0x7FFFFFFF"
definition TCP_SOCKET :: int where "TCP_SOCKET = 1"
definition UDP_SOCKET :: int where "UDP_SOCKET = 2"
definition EAGAIN :: int where "EAGAIN = 11"
definition EINPROGRESS :: int where "EINPROGRESS = 115"
definition C_READ_BUFFER_SIZE :: nat where "C_READ_BUFFER_SIZE = 64 * 1024"

type_synonym timeval = "int \<times> int"

record conn =
  cc_flow :: nat
  cc_fd :: int
  cc_access :: timeval
  cc_type :: int
  cc_recvtime :: timeval
  cc_r :: raw_cache
  cc_w :: raw_cache

record connset =
  ccs :: "conn list"
  maxconn :: nat
  usedflow :: int

definition ConnCache_init :: conn where
  "ConnCache_init = \<lparr>cc_flow = 0, cc_fd = 0, cc_access = (0, 0), cc_type = 0, cc_recvtime = (0, 0),
     cc_r = CRawCache_init, cc_w = CRawCache_init\<rparr>"

definition CConnSet_init :: "nat \<Rightarrow> connset" where
  "CConnSet_init n = \<lparr>ccs = replicate n ConnCache_init, maxconn = n, usedflow = 0\<rparr>"

definition getcc :: "nat \<Rightarrow> connset \<Rightarrow> conn" where
  "getcc flow s = ccs s ! (flow mod maxconn s)"

definition setcc :: "nat \<Rightarrow> conn \<Rightarrow> connset \<Rightarrow> connset" where
  "setcc flow cc s = s\<lparr>ccs := (ccs s)[flow mod maxconn s := cc]\<rparr>"

section \<open>Adding, finding and closing connections\<close>

text \<open>The probing loop of \<open>addconn\<close>, with \<open>i\<close> before its increment; \<^term>\<open>None\<close> when it ends without a free
  slot.\<close>

definition next_flow :: "nat \<Rightarrow> nat" where
  "next_flow flow = (let f = u32_add flow 1 mod MAX_FLOW_NUM in if f = 0 then f + 1 else f)"

function probe_loop :: "connset \<Rightarrow> nat \<Rightarrow> nat \<Rightarrow> nat option" where
  "probe_loop s i flow =
     (if i + 1 < maxconn s
      then (let flow' = next_flow flow
            in if cc_flow (getcc flow' s) = 0 then Some flow' else probe_loop s (i + 1) flow')
      else None)"
  by pat_completeness auto
termination by (relation "measure (\<lambda>(s, i, flow). maxconn s - i)") auto
declare probe_loop.simps [simp del]

definition addconn :: "timeval \<Rightarrow> nat \<Rightarrow> int \<Rightarrow> int \<Rightarrow> connset \<Rightarrow> int \<times> nat \<times> connset" where
  "addconn now flow fd type s =
     (case (if cc_flow (getcc flow s) > 0 then probe_loop s 0 flow else Some flow) of
        None \<Rightarrow> (- 1, ((next_flow ^^ (maxconn s - 1)) flow), s)
      | Some f \<Rightarrow>
          (let cc = (getcc f s)\<lparr>cc_flow := f, cc_fd := fd, cc_type := type, cc_access := now\<rparr>
           in (0, f, (setcc f cc s)\<lparr>usedflow := usedflow s + 1\<rparr>)))"

definition conn_fd :: "nat \<Rightarrow> connset \<Rightarrow> int" where
  "conn_fd flow s = (let cc = getcc flow s in if flow \<noteq> 0 \<and> cc_flow cc = flow then cc_fd cc else - 1)"

text \<open>\<open>closeconn\<close>; the second component tells whether \<open>close\<close> was called on the descriptor.\<close>

definition closeconn :: "nat \<Rightarrow> connset \<Rightarrow> int \<times> bool \<times> connset" where
  "closeconn flow s =
     (let cc = getcc flow s
      in if cc_flow cc = flow \<and> flow \<noteq> 0
         then (let cc1 = cc\<lparr>cc_flow := 0, cc_access := (0, 0), cc_type := 0,
                     cc_r := skip (rc_len (cc_r cc)) (cc_r cc),
                     cc_w := set_fin_bit False (skip (rc_len (cc_w cc)) (cc_w cc))\<rparr>
               in (0, cc_type cc \<noteq> UDP_SOCKET, (setcc flow cc1 s)\<lparr>usedflow := usedflow s - 1\<rparr>))
         else (- E_NOT_FINDFD, False, s))"

definition check_expire :: "int \<Rightarrow> connset \<Rightarrow> nat list" where
  "check_expire deadline s =
     map cc_flow (filter (\<lambda>cc. cc_flow cc > 0 \<and> fst (cc_access cc) < deadline) (take (maxconn s) (ccs s)))"

definition check_per_expire :: "nat \<Rightarrow> int \<Rightarrow> connset \<Rightarrow> int" where
  "check_per_expire flow deadline s =
     (let cc = getcc flow s in if flow = cc_flow cc \<and> fst (cc_access cc) < deadline then - 1 else 0)"

definition getusedflow :: "connset \<Rightarrow> int" where
  "getusedflow s = usedflow s"

section \<open>Receiving and sending\<close>

text \<open>
  \<open>CSocket::receive\<close> and \<open>CSocket::send\<close>. \<open>sys_recv\<close> is the byte count or a negative result, with
  \<open>errno\<close>, and the bytes stored; \<open>sys_send\<close> yields the byte count and \<open>errno\<close> for a buffer.
\<close>

definition csock_receive :: "int \<times> int \<times> byte list \<Rightarrow> int \<times> nat" where
  "csock_receive sys = (case sys of (bytes, errno, _) \<Rightarrow>
     if bytes < 0 then (if errno \<noteq> 0 then - errno else bytes, 0) else (0, nat bytes))"

definition csock_send :: "(byte list \<Rightarrow> int \<times> int) \<Rightarrow> byte list \<Rightarrow> int \<times> nat" where
  "csock_send sys buf = (case sys buf of (bytes, errno) \<Rightarrow>
     if bytes < 0 then (if errno \<noteq> 0 then - errno else bytes, 0) else (0, nat bytes))"

definition conn_recv ::
    "(nat \<Rightarrow> byte list option) \<Rightarrow> timeval \<Rightarrow> int \<times> int \<times> byte list \<Rightarrow> nat \<Rightarrow> connset \<Rightarrow> (int \<times> bool \<times> connset) option" where
  "conn_recv malloc now sys flow s =
     (let cc = getcc flow s
      in if cc_flow cc \<noteq> flow \<or> flow = 0 then Some (- E_NOT_FINDFD, False, s)
         else (let cc1 = cc\<lparr>cc_recvtime := now, cc_access := now\<rparr>;
                   (ret, recvd_len) = csock_receive sys;
                   buf = snd (snd sys)
               in if ret = 0 \<and> recvd_len > 0 then do {
                    (thrown, r) \<leftarrow> append malloc buf recvd_len (cc_r cc1);
                    Some (if cc_type cc \<noteq> UDP_SOCKET \<and> recvd_len < C_READ_BUFFER_SIZE then - E_RECV_DONE
                          else int recvd_len, thrown, setcc flow (cc1\<lparr>cc_r := r\<rparr>) s)
                  }
                  else if cc_type cc \<noteq> UDP_SOCKET \<and> ret = - EAGAIN then Some (- EAGAIN, False, setcc flow cc1 s)
                  else Some (- E_NEED_CLOSE, False, setcc flow cc1 s)))"

text \<open>The bytes of the cache that \<open>send\<close> passes to the kernel; an inconsistent cache ends the process.\<close>

definition w_buf :: "raw_cache \<Rightarrow> byte list option" where
  "w_buf c = (case rc_data_ptr c of
     None \<Rightarrow> None
   | Some None \<Rightarrow> Some []
   | Some (Some off) \<Rightarrow> (case rc_mem c of None \<Rightarrow> None | Some mem \<Rightarrow> mem_rd mem off (rc_len c)))"

text \<open>
  \<open>send\<close> makes up to two system calls, first for the cache, then for the new data. The result is
  the return value, the bytes the kernel took, whether \<open>append\<close> threw, and the table.
\<close>

definition conn_send ::
    "(nat \<Rightarrow> byte list option) \<Rightarrow> timeval \<Rightarrow> (byte list \<Rightarrow> int \<times> int) \<Rightarrow> (byte list \<Rightarrow> int \<times> int) \<Rightarrow>
     nat \<Rightarrow> byte list \<Rightarrow> connset \<Rightarrow> (int \<times> byte list \<times> bool \<times> connset) option" where
  "conn_send malloc now sys1 sys2 flow data s =
     (let cc0 = getcc flow s
      in if cc_flow cc0 \<noteq> flow \<or> flow = 0 then Some (- E_NOT_FINDFD, [], False, s)
         else do {
           let cc = cc0\<lparr>cc_access := now\<rparr>;
           buf \<leftarrow> w_buf (cc_w cc);
           let (ret, sent_len) = (if rc_len (cc_w cc) \<noteq> 0 then csock_send sys1 buf else (0, 0));
           if rc_len (cc_w cc) \<noteq> 0 \<and> (ret = - EAGAIN \<or> ret = 0 \<and> sent_len < rc_len (cc_w cc)) then do {
             (thrown, w) \<leftarrow> append malloc data (length data) (skip sent_len (cc_w cc));
             Some (0, take sent_len buf, thrown, setcc flow (cc\<lparr>cc_w := w\<rparr>) s)
           }
           else if rc_len (cc_w cc) \<noteq> 0 \<and> ret < 0 then Some (- E_NEED_CLOSE, [], False, setcc flow cc s)
           else do {
             let cc1 = cc\<lparr>cc_w := skip (rc_len (cc_w cc)) (cc_w cc)\<rparr>;
             let (ret2, sent2) = csock_send sys2 data;
             let wire = take sent_len buf @ take sent2 data;
             if ret2 < 0 \<and> ret2 \<noteq> - EAGAIN \<and> ret2 \<noteq> - EINPROGRESS
             then Some (- E_NEED_CLOSE, wire, False, setcc flow cc1 s)
             else if sent2 < length data then do {
               (thrown, w) \<leftarrow> append malloc (drop sent2 data) (length data - sent2) (cc_w cc1);
               Some (int sent2, wire, thrown, setcc flow (cc1\<lparr>cc_w := w\<rparr>) s)
             }
             else Some (int sent2, wire, False, setcc flow cc1 s)
           }
         })"

definition sendfromcache ::
    "timeval \<Rightarrow> (byte list \<Rightarrow> int \<times> int) \<Rightarrow> nat \<Rightarrow> connset \<Rightarrow> (int \<times> byte list \<times> connset) option" where
  "sendfromcache now sys flow s =
     (let cc0 = getcc flow s
      in if cc_flow cc0 \<noteq> flow \<or> flow = 0 then Some (- E_NOT_FINDFD, [], s)
         else (let cc = cc0\<lparr>cc_access := now\<rparr>
               in if rc_len (cc_w cc) = 0 then Some (0, [], setcc flow cc s)
                  else do {
                    buf \<leftarrow> w_buf (cc_w cc);
                    let (ret, sent_len) = csock_send sys buf;
                    if ret = 0 then
                      (if sent_len = 0 then Some (C_NEED_SEND, [], setcc flow cc s)
                       else (let s' = setcc flow (cc\<lparr>cc_w := skip sent_len (cc_w cc)\<rparr>) s
                             in Some (if sent_len = rc_len (cc_w cc) then 0 else int sent_len, take sent_len buf, s')))
                    else if ret = - EAGAIN then Some (C_NEED_SEND, [], setcc flow cc s)
                    else Some (- E_NEED_CLOSE, [], setcc flow cc s)
                  }))"

section \<open>The table as a map from flows to connections\<close>

definition conn_of :: "connset \<Rightarrow> nat \<rightharpoonup> conn" where
  "conn_of s flow = (if flow \<noteq> 0 \<and> cc_flow (getcc flow s) = flow then Some (getcc flow s) else None)"

definition connset_wf :: "connset \<Rightarrow> bool" where
  "connset_wf s \<longleftrightarrow> 0 < maxconn s \<and> length (ccs s) = maxconn s \<and>
     (\<forall>i < maxconn s. (cc_flow (ccs s ! i) \<noteq> 0 \<longrightarrow> cc_flow (ccs s ! i) mod maxconn s = i) \<and>
        rc_wf (cc_r (ccs s ! i)) \<and> rc_wf (cc_w (ccs s ! i))) \<and>
     usedflow s = int (length (filter (\<lambda>cc. cc_flow cc \<noteq> 0) (ccs s)))"

lemma length_filter_update:
  "i < length xs \<Longrightarrow> int (length (filter P (xs[i := y]))) =
     int (length (filter P xs)) - (if P (xs ! i) then 1 else 0) + (if P y then 1 else 0)"
proof (induction xs arbitrary: i)
  case (Cons x xs)
  show ?case
  proof (cases i)
    case (Suc j)
    then show ?thesis using Cons.IH [of j] Cons.prems by (simp split: if_splits)
  qed simp
qed simp

lemma connset_wfD:
  assumes "connset_wf s"
  shows "0 < maxconn s" "length (ccs s) = maxconn s" "flow mod maxconn s < maxconn s"
    "rc_wf (cc_r (getcc flow s))" "rc_wf (cc_w (getcc flow s))"
    "cc_flow (getcc flow s) \<noteq> 0 \<Longrightarrow> cc_flow (getcc flow s) mod maxconn s = flow mod maxconn s"
proof -
  show m: "0 < maxconn s" "length (ccs s) = maxconn s" "flow mod maxconn s < maxconn s"
    using assms by (auto simp: connset_wf_def)
  show "rc_wf (cc_r (getcc flow s))" "rc_wf (cc_w (getcc flow s))"
    "cc_flow (getcc flow s) \<noteq> 0 \<Longrightarrow> cc_flow (getcc flow s) mod maxconn s = flow mod maxconn s"
    using assms m(3) unfolding connset_wf_def getcc_def by blast+
qed

text \<open>Storing a connection into its slot.\<close>

lemma getcc_setcc:
  assumes "connset_wf s"
  shows "getcc g (setcc f cc s) = (if g mod maxconn s = f mod maxconn s then cc else getcc g s)"
  using connset_wfD [OF assms] by (simp add: getcc_def setcc_def)

lemma getcc_used [simp]: "getcc g (s\<lparr>usedflow := k\<rparr>) = getcc g s"
  by (simp add: getcc_def)

lemma maxconn_setcc [simp]: "maxconn (setcc f cc s) = maxconn s" "usedflow (setcc f cc s) = usedflow s"
  by (simp_all add: setcc_def)

lemma setcc_wf:
  assumes wf: "connset_wf s" and cc: "cc_flow cc = 0 \<or> cc_flow cc mod maxconn s = f mod maxconn s"
    "rc_wf (cc_r cc)" "rc_wf (cc_w cc)"
    and k: "k = usedflow s - (if cc_flow (getcc f s) \<noteq> 0 then 1 else 0) + (if cc_flow cc \<noteq> 0 then 1 else 0)"
  shows "connset_wf ((setcc f cc s)\<lparr>usedflow := k\<rparr>)"
proof -
  have f: "f mod maxconn s < length (ccs s)" using connset_wfD [OF wf] by simp
  have "k = int (length (filter (\<lambda>cc. cc_flow cc \<noteq> 0) ((ccs s)[f mod maxconn s := cc])))"
    using wf k by (simp add: length_filter_update [OF f] connset_wf_def getcc_def)
  moreover have "(cc_flow ((ccs s)[f mod maxconn s := cc] ! i) \<noteq> 0 \<longrightarrow>
        cc_flow ((ccs s)[f mod maxconn s := cc] ! i) mod maxconn s = i) \<and>
      rc_wf (cc_r ((ccs s)[f mod maxconn s := cc] ! i)) \<and> rc_wf (cc_w ((ccs s)[f mod maxconn s := cc] ! i))"
    if "i < maxconn s" for i
    using wf cc that f by (cases "i = f mod maxconn s") (auto simp: connset_wf_def)
  ultimately show ?thesis
    using wf by (simp add: connset_wf_def setcc_def)
qed

lemma setcc_wf_same:
  assumes "connset_wf s" "cc_flow cc = cc_flow (getcc f s)" "rc_wf (cc_r cc)" "rc_wf (cc_w cc)"
  shows "connset_wf (setcc f cc s)"
  using setcc_wf [OF assms(1) _ assms(3,4), of f "usedflow s"] connset_wfD(6) [OF assms(1), of f] assms(2)
  by (auto simp: setcc_def)

lemma conn_of_setcc:
  assumes wf: "connset_wf s" and free: "cc_flow (getcc f s) = 0 \<or> cc_flow (getcc f s) = f" and f: "f \<noteq> 0"
    and cc: "cc_flow cc = 0 \<or> cc_flow cc = f"
  shows "conn_of ((setcc f cc s)\<lparr>usedflow := k\<rparr>) = (conn_of s)(f := if cc_flow cc = f then Some cc else None)"
proof
  fix g
  show "conn_of ((setcc f cc s)\<lparr>usedflow := k\<rparr>) g = ((conn_of s)(f := if cc_flow cc = f then Some cc else None)) g"
  proof (cases "g mod maxconn s = f mod maxconn s")
    case True
    then have same: "getcc g s = getcc f s" by (simp add: getcc_def)
    show ?thesis using True free f cc by (auto simp: conn_of_def getcc_setcc [OF wf] same)
  next
    case False
    then have "g \<noteq> f" by auto
    then show ?thesis using False by (simp add: conn_of_def getcc_setcc [OF wf])
  qed
qed

lemma CConnSet_init_wf: "0 < n \<Longrightarrow> connset_wf (CConnSet_init n)"
  by (simp add: connset_wf_def CConnSet_init_def ConnCache_init_def)

section \<open>Probing for a free slot\<close>

lemma next_flow_pos: "0 < next_flow f"
  by (simp add: next_flow_def Let_def)

lemma next_flow_step: "f + 1 < MAX_FLOW_NUM \<Longrightarrow> next_flow f = f + 1"
  by (simp add: next_flow_def Let_def u32_add_def MAX_FLOW_NUM_def u32_max_def)

lemma probe_loop_Some:
  "probe_loop s i f = Some g \<Longrightarrow> g \<noteq> 0 \<and> cc_flow (getcc g s) = 0"
proof (induction s i f rule: probe_loop.induct)
  case (1 s i f)
  then show ?case
    by (subst (asm) (2) probe_loop.simps) (auto simp: Let_def next_flow_pos split: if_splits)
qed

lemma probe_loop_None:
  "probe_loop s i f = None \<Longrightarrow> f + maxconn s < MAX_FLOW_NUM + i \<Longrightarrow>
   \<forall>j. i < j \<and> j < maxconn s \<longrightarrow> cc_flow (getcc (f + (j - i)) s) \<noteq> 0"
proof (induction s i f rule: probe_loop.induct)
  case (1 s i f)
  show ?case
  proof (cases "i + 1 < maxconn s")
    case True
    then have step: "next_flow f = f + 1" using "1.prems"(2) by (intro next_flow_step) simp
    have here: "cc_flow (getcc (f + 1) s) \<noteq> 0" and rest: "probe_loop s (i + 1) (f + 1) = None"
      using "1.prems"(1) True step by (subst (asm) probe_loop.simps, simp add: Let_def split: if_splits)+
    have IH: "\<forall>j. i + 1 < j \<and> j < maxconn s \<longrightarrow> cc_flow (getcc (f + 1 + (j - (i + 1))) s) \<noteq> 0"
      using "1.IH" [OF True refl] here rest "1.prems"(2) by (simp add: step)
    show ?thesis
    proof (intro allI impI)
      fix j assume j: "i < j \<and> j < maxconn s"
      show "cc_flow (getcc (f + (j - i)) s) \<noteq> 0"
      proof (cases "j = i + 1")
        case True
        then show ?thesis using here by simp
      next
        case False
        then have "f + 1 + (j - (i + 1)) = f + (j - i)" "i + 1 < j" using j by auto
        then show ?thesis using IH j by metis
      qed
    qed
  qed auto
qed

section \<open>Properties\<close>

lemma addconn_slot:
  assumes "addconn now flow fd type s = (0, f, s')" "flow \<noteq> 0"
  shows "f \<noteq> 0" "cc_flow (getcc f s) = 0"
    "s' = (setcc f ((getcc f s)\<lparr>cc_flow := f, cc_fd := fd, cc_type := type, cc_access := now\<rparr>) s)\<lparr>usedflow := usedflow s + 1\<rparr>"
  using assms probe_loop_Some [of s 0 flow f]
  by (auto simp: addconn_def Let_def split: option.splits if_splits)

text \<open>When \<open>addconn\<close> returns 0 it has put the connection under a non-zero flow number that was not in
  use, and no other connection changes; the descriptor is found again under that flow, the
  number of used flows grows by one, and every connection still sits in the slot of its flow.\<close>

theorem addconn_fresh_flow:
  assumes "connset_wf s" and "flow \<noteq> 0" and "addconn now flow fd type s = (0, f, s')"
  shows "f \<noteq> 0 \<and> conn_of s f = None \<and> conn_fd f s' = fd \<and> connset_wf s' \<and> getusedflow s' = getusedflow s + 1 \<and>
    (\<forall>g. g \<noteq> f \<longrightarrow> conn_of s' g = conn_of s g)"
proof -
  note a = addconn_slot [OF assms(3,2)]
  let ?cc = "(getcc f s)\<lparr>cc_flow := f, cc_fd := fd, cc_type := type, cc_access := now\<rparr>"
  have "connset_wf s'"
    unfolding a(3) by (rule setcc_wf [OF assms(1)]) (use a connset_wfD [OF assms(1)] in simp_all)
  moreover have c: "conn_of s' = (conn_of s)(f \<mapsto> ?cc)"
    unfolding a(3) using conn_of_setcc [OF assms(1), of f ?cc] a(1,2) by simp
  moreover have "getcc f s' = ?cc" unfolding a(3) by (simp add: getcc_setcc [OF assms(1)])
  ultimately show ?thesis
    using a by (simp add: conn_of_def conn_fd_def getusedflow_def)
qed

definition full_set :: "nat list \<Rightarrow> connset" where
  "full_set flows = \<lparr>ccs = map (\<lambda>f. ConnCache_init\<lparr>cc_flow := f\<rparr>) flows, maxconn = length flows,
     usedflow = int (length (filter (\<lambda>f. f \<noteq> 0) flows))\<rparr>"

lemma full_set_wf:
  "connset_wf (full_set fs) \<longleftrightarrow> fs \<noteq> [] \<and> (\<forall>i < length fs. fs ! i \<noteq> 0 \<longrightarrow> fs ! i mod length fs = i)"
  by (auto simp: connset_wf_def full_set_def ConnCache_init_def filter_map comp_def)

theorem addconn_fresh_flow_witness:
  "\<exists>s'. addconn (5, 0) 6 33 1 (full_set [0, 0, 2, 0]) = (0, 7, s') \<and> conn_fd 7 s' = 33"
proof -
  let ?s = "full_set [0, 0, 2, 0]"
  have wf: "connset_wf ?s" by (auto simp: full_set_wf less_Suc_eq)
  have "next_flow 6 = 7" using next_flow_step [of 6] by (simp add: MAX_FLOW_NUM_def)
  moreover have "cc_flow (getcc 6 ?s) = 2" "cc_flow (getcc 7 ?s) = 0" "maxconn ?s = 4"
    by (simp_all add: getcc_def full_set_def ConnCache_init_def)
  ultimately obtain s' where add: "addconn (5, 0) 6 33 1 ?s = (0, 7, s')"
    by (simp add: addconn_def probe_loop.simps)
  then show ?thesis using addconn_fresh_flow [OF wf _ add] by simp
qed

text \<open>Away from the end of the flow range, \<open>addconn\<close> refuses a connection exactly when every slot is in
  use.\<close>

theorem addconn_full_iff:
  assumes "connset_wf s" and "flow \<noteq> 0" and "flow + maxconn s < MAX_FLOW_NUM"
  shows "fst (addconn now flow fd type s) = - 1 \<longleftrightarrow> (\<forall>i < maxconn s. cc_flow (ccs s ! i) \<noteq> 0)"
proof
  assume L: "fst (addconn now flow fd type s) = - 1"
  then have used: "cc_flow (getcc flow s) \<noteq> 0" and none: "probe_loop s 0 flow = None"
    by (auto simp: addconn_def Let_def split: option.splits if_splits)
  have all: "cc_flow (getcc (flow + j) s) \<noteq> 0" if "j < maxconn s" for j
    using used probe_loop_None [OF none] assms(3) that by (cases "j = 0") auto
  show "\<forall>i < maxconn s. cc_flow (ccs s ! i) \<noteq> 0"
  proof (intro allI impI)
    fix i assume i: "i < maxconn s"
    let ?m = "maxconn s" and ?r = "flow mod maxconn s"
    define j where "j = (if ?r \<le> i then i - ?r else i + ?m - ?r)"
    have r: "?r < ?m" using i by simp
    have j: "j < ?m" using i r by (auto simp: j_def)
    have "?r + j = i \<or> ?r + j = i + ?m"
      using i r unfolding j_def by (cases "?r \<le> i"; simp only: if_True if_False; linarith)
    then have "(?r + j) mod ?m = i" using i by auto
    then have "(flow + j) mod ?m = i" by (metis mod_add_left_eq)
    then show "cc_flow (ccs s ! i) \<noteq> 0" using all [OF j] by (simp add: getcc_def)
  qed
next
  assume R: "\<forall>i < maxconn s. cc_flow (ccs s ! i) \<noteq> 0"
  have used: "cc_flow (getcc g s) \<noteq> 0" for g using R connset_wfD [OF assms(1)] by (simp add: getcc_def)
  then have "probe_loop s 0 flow = None" using probe_loop_Some by (cases "probe_loop s 0 flow") blast+
  then show "fst (addconn now flow fd type s) = - 1" using used [of flow] by (simp add: addconn_def)
qed

theorem addconn_full_iff_witness: "fst (addconn (5, 0) 3 33 1 (full_set [4, 1, 2, 3])) = - 1"
proof -
  have "connset_wf (full_set [4, 1, 2, 3])" "\<forall>i < maxconn (full_set [4, 1, 2, 3]). cc_flow (ccs (full_set [4, 1, 2, 3]) ! i) \<noteq> 0"
    by (simp_all add: full_set_wf) (auto simp: full_set_def less_Suc_eq)
  then show ?thesis using addconn_full_iff [of "full_set [4, 1, 2, 3]" 3 "(5, 0)" 33 1]
    by (simp add: full_set_def MAX_FLOW_NUM_def)
qed

text \<open>At the end of the flow range the probe starts again at flow 1 and visits some slots twice, so
  \<open>addconn\<close> refuses a connection although a slot is free.\<close>

theorem addconn_wrap_misses_slot:
  "connset_wf (full_set [0, 1, 2147483646, 3]) \<and> cc_flow (ccs (full_set [0, 1, 2147483646, 3]) ! 0) = 0 \<and>
   fst (addconn now 2147483646 fd type (full_set [0, 1, 2147483646, 3])) = - 1"
proof -
  let ?s = "full_set [0, 1, 2147483646, 3]"
  have wf: "connset_wf ?s" "cc_flow (ccs ?s ! 0) = 0"
    by (auto simp: full_set_wf less_Suc_eq) (simp add: full_set_def ConnCache_init_def)
  have "next_flow 2147483646 = 1" "next_flow 1 = 2" "next_flow 2 = 3"
    by (simp_all add: next_flow_def u32_add_def u32_max_def MAX_FLOW_NUM_def)
  moreover have "cc_flow (getcc 1 ?s) \<noteq> 0" "cc_flow (getcc 2 ?s) \<noteq> 0" "cc_flow (getcc 3 ?s) \<noteq> 0"
    "cc_flow (getcc 2147483646 ?s) > 0" "maxconn ?s = 4"
    by (simp_all add: getcc_def full_set_def)
  ultimately have "probe_loop ?s 0 2147483646 = None" "cc_flow (getcc 2147483646 ?s) > 0"
    by (simp_all add: probe_loop.simps)
  then show ?thesis using wf by (simp add: addconn_def)
qed

section \<open>The byte stream of a connection\<close>

text \<open>What the code relies on of \<open>send\<close>: it takes at most the bytes it is given, and \<open>errno\<close> is not
  negative.\<close>

definition sys_ok :: "(byte list \<Rightarrow> int \<times> int) \<Rightarrow> bool" where
  "sys_ok sys \<longleftrightarrow> (\<forall>buf. fst (sys buf) \<le> int (length buf) \<and> 0 \<le> snd (sys buf))"

lemma csock_send_cases:
  assumes "sys_ok sys" "csock_send sys buf = (ret, n)"
  shows "n \<le> length buf" "ret < 0 \<Longrightarrow> n = 0" "ret \<le> 0"
proof -
  obtain b e where be: "sys buf = (b, e)" by fastforce
  then have "b \<le> int (length buf)" "0 \<le> e" using assms(1) unfolding sys_ok_def by (metis fst_conv snd_conv)+
  then show "n \<le> length buf" "ret < 0 \<Longrightarrow> n = 0" "ret \<le> 0"
    using assms(2) be by (auto simp: csock_send_def split: if_splits)
qed

lemma w_buf_bytes: "rc_wf c \<Longrightarrow> w_buf c = Some (rc_bytes c)"
  by (auto simp: w_buf_def rc_data_ptr_def rc_wf_def rc_bytes_def mem_rd_def split: option.splits)

lemma skip_all: "rc_wf c \<Longrightarrow> rc_bytes (skip (rc_len c) c) = []"
  using rc_bytes_length [of c] by (simp add: skip_bytes)

lemma skip_block: "rc_block_size (skip n c) \<le> rc_block_size c"
  by (simp add: skip_def)

text \<open>An update of a connected slot that keeps its flow.\<close>

lemma update_conn:
  assumes "connset_wf s" "conn_of s flow = Some cc" "cc_flow cc' = flow" "rc_wf (cc_r cc')" "rc_wf (cc_w cc')"
  shows "connset_wf (setcc flow cc' s)" "conn_of (setcc flow cc' s) = (conn_of s)(flow \<mapsto> cc')"
proof -
  have f: "flow \<noteq> 0" "cc_flow (getcc flow s) = flow" "getcc flow s = cc"
    using assms(2) by (auto simp: conn_of_def split: if_splits)
  then show "connset_wf (setcc flow cc' s)"
    using assms by (intro setcc_wf_same) auto
  show "conn_of (setcc flow cc' s) = (conn_of s)(flow \<mapsto> cc')"
    using conn_of_setcc [OF assms(1), of flow cc' "usedflow s"] f assms(3) by (simp add: setcc_def)
qed

definition stream_kept :: "nat \<Rightarrow> byte list \<Rightarrow> byte list \<Rightarrow> connset \<Rightarrow> connset \<Rightarrow> bool" where
  "stream_kept flow data wire s s' \<longleftrightarrow> (\<exists>cc cc'. conn_of s flow = Some cc \<and> conn_of s' = (conn_of s)(flow \<mapsto> cc') \<and>
     wire @ rc_bytes (cc_w cc') = rc_bytes (cc_w cc) @ data \<and> rc_bytes (cc_r cc') = rc_bytes (cc_r cc))"

lemma stream_keptI:
  assumes "connset_wf s" "conn_of s flow = Some cc" "cc' = cc\<lparr>cc_access := now, cc_w := w\<rparr>" "rc_wf w"
    "wire @ rc_bytes w = rc_bytes (cc_w cc) @ data"
  shows "connset_wf (setcc flow cc' s)" "stream_kept flow data wire s (setcc flow cc' s)"
proof -
  have f: "cc_flow cc = flow" "rc_wf (cc_r cc)"
    using assms(2) connset_wfD(4) [OF assms(1), of flow] by (auto simp: conn_of_def split: if_splits)
  have u: "connset_wf (setcc flow cc' s)" "conn_of (setcc flow cc' s) = (conn_of s)(flow \<mapsto> cc')"
    using update_conn [OF assms(1,2), of cc'] f assms(3,4) by simp_all
  then show "connset_wf (setcc flow cc' s)" "stream_kept flow data wire s (setcc flow cc' s)"
    using assms(2,3,5) by (auto simp: stream_kept_def)
qed

lemma conn_send_stream:
  assumes wf: "connset_wf s" and cc: "conn_of s flow = Some cc" and fin: "\<not> rc_fin (cc_w cc)"
    and m: "malloc_ok malloc" and n: "rc_block_size (cc_w cc) + length data < 2 ^ 31"
    and sys: "sys_ok sys1" "sys_ok sys2"
  shows "\<exists>ret wire thrown s'. conn_send malloc now sys1 sys2 flow data s = Some (ret, wire, thrown, s') \<and>
    (ret \<noteq> - E_NEED_CLOSE \<and> \<not> thrown \<longrightarrow> connset_wf s' \<and> stream_kept flow data wire s s') \<and>
    (thrown \<longrightarrow> (\<exists>k. malloc k = None))"
proof -
  let ?w = "cc_w cc" and ?buf = "rc_bytes (cc_w cc)"
  have f: "getcc flow s = cc" "cc_flow cc = flow" "flow \<noteq> 0" and w: "rc_wf ?w"
    using cc connset_wfD(5) [OF wf, of flow] by (auto simp: conn_of_def split: if_splits)
  have len: "length ?buf = rc_len ?w" by (rule rc_bytes_length [OF w])
  obtain ret1 n1 where s1: "(if rc_len ?w \<noteq> 0 then csock_send sys1 ?buf else (0, 0)) = (ret1, n1)" by fastforce
  obtain ret2 n2 where s2: "csock_send sys2 data = (ret2, n2)" by fastforce
  note c2 = csock_send_cases [OF sys(2) s2]
  have c1: "n1 \<le> rc_len ?w" "ret1 < 0 \<Longrightarrow> n1 = 0" "ret1 \<le> 0"
    using csock_send_cases [OF sys(1), of ?buf ret1 n1] s1 len by (auto split: if_splits)
  note unf = conn_send_def Let_def f(1) w_buf_bytes [OF w] s2
  have app: "\<exists>thrown c'. append malloc d (length d) (skip k ?w) = Some (thrown, c') \<and> rc_wf c' \<and>
      rc_bytes c' = (if thrown then drop k ?buf else drop k ?buf @ d) \<and> (thrown \<longrightarrow> (\<exists>k. malloc k = None))"
    if "length d \<le> length data" for d k
  proof -
    note sk = skip_bytes [OF w, of k]
    have "rc_block_size (skip k ?w) + length d < 2 ^ 31" "\<not> rc_fin (skip k ?w)"
      using skip_block [of k ?w] that n sk(3) fin by simp_all
    from append_bytes [OF sk(2) this(2) m this(1)] show ?thesis unfolding sk(1) by blast
  qed
  consider (cached) "rc_len ?w \<noteq> 0" "ret1 = - EAGAIN \<or> ret1 = 0 \<and> n1 < rc_len ?w"
    | (fail) "rc_len ?w \<noteq> 0" "ret1 < 0" "ret1 \<noteq> - EAGAIN" | (clear) "ret1 = 0" "n1 = rc_len ?w"
    using c1 s1 by (cases "rc_len ?w = 0") force+
  then show ?thesis
  proof cases
    case cached
    obtain thrown w' where a: "append malloc data (length data) (skip n1 ?w) = Some (thrown, w')" "rc_wf w'"
      "rc_bytes w' = (if thrown then drop n1 ?buf else drop n1 ?buf @ data)" "thrown \<longrightarrow> (\<exists>k. malloc k = None)"
      using app [of data n1] by blast
    have "conn_send malloc now sys1 sys2 flow data s =
        Some (0, take n1 ?buf, thrown, setcc flow (cc\<lparr>cc_access := now, cc_w := w'\<rparr>) s)"
      using cached f a(1) s1 by (simp add: unf)
    then show ?thesis
      using stream_keptI [OF wf cc refl a(2), of "take n1 ?buf" data now] a(3,4) by auto
  next
    case fail
    then show ?thesis using f s1 by (auto simp: unf)
  next
    case clear
    let ?w1 = "skip (rc_len ?w) ?w" and ?wire = "?buf @ take n2 data"
    have w1: "rc_wf ?w1" "rc_bytes ?w1 = []" using skip_bytes [OF w] skip_all [OF w] by auto
    show ?thesis
    proof (cases "ret2 < 0 \<and> ret2 \<noteq> - EAGAIN \<and> ret2 \<noteq> - EINPROGRESS")
      case True
      then show ?thesis using clear f len s1 by (cases "rc_len ?w = 0") (auto simp: unf EAGAIN_def)
    next
      case ok: False
      show ?thesis
      proof (cases "n2 < length data")
        case True
        have "length (drop n2 data) \<le> length data" "drop (rc_len ?w) ?buf = []" using len by simp_all
        then obtain thrown w' where a: "append malloc (drop n2 data) (length data - n2) ?w1 = Some (thrown, w')" "rc_wf w'"
          "rc_bytes w' = (if thrown then [] else drop n2 data)" "thrown \<longrightarrow> (\<exists>k. malloc k = None)"
          using app [of "drop n2 data" "rc_len ?w"] by (metis append_Nil length_drop)
        have "conn_send malloc now sys1 sys2 flow data s =
            Some (int n2, ?wire, thrown, setcc flow (cc\<lparr>cc_access := now, cc_w := w'\<rparr>) s)"
          using clear ok True f a(1) len s1 by (cases "rc_len ?w = 0") (auto simp: unf EAGAIN_def)
        then show ?thesis
          using stream_keptI [OF wf cc refl a(2), of ?wire data now] a(3,4) by auto
      next
        case False
        have "conn_send malloc now sys1 sys2 flow data s =
            Some (int n2, ?wire, False, setcc flow (cc\<lparr>cc_access := now, cc_w := ?w1\<rparr>) s)"
          using clear ok False f len s1 by (cases "rc_len ?w = 0") (auto simp: unf EAGAIN_def)
        then show ?thesis
          using stream_keptI [OF wf cc refl w1(1), of ?wire data now] w1(2) False by auto
      qed
    qed
  qed
qed


definition one_conn :: connset where
  "one_conn = \<lparr>ccs = [ConnCache_init, ConnCache_init\<lparr>cc_flow := 5, cc_fd := 9,
       cc_w := \<lparr>rc_mem = Some [1, 2, 3, 4], rc_block_size = 4, rc_head = 1, rc_len = 2, rc_fin = False\<rparr>\<rparr>],
     maxconn = 2, usedflow = 1\<rparr>"

lemma one_conn_wf: "connset_wf one_conn"
  by (auto simp: connset_wf_def one_conn_def ConnCache_init_def less_2_cases_iff rc_wf_def u32_max_def CRawCache_init_def)

lemma one_conn_cc: "conn_of one_conn 5 = Some (ccs one_conn ! 1)"
  by (simp add: conn_of_def getcc_def one_conn_def)


text \<open>\<open>sendfromcache\<close> sends from the front of the write cache: the bytes the kernel took followed by
  what remains cached are the cache before the call, and it returns 0 exactly when nothing
  remains.\<close>

theorem sendfromcache_keeps_stream:
  assumes "connset_wf s" and "conn_of s flow = Some cc" and "sys_ok sys"
  shows "\<exists>ret wire s'. sendfromcache now sys flow s = Some (ret, wire, s') \<and> connset_wf s' \<and>
    stream_kept flow [] wire s s' \<and> (ret = 0 \<longleftrightarrow> (\<exists>cc'. conn_of s' flow = Some cc' \<and> rc_bytes (cc_w cc') = []))"
proof -
  let ?w = "cc_w cc"
  have f: "getcc flow s = cc" "cc_flow cc = flow" "flow \<noteq> 0" and w: "rc_wf ?w"
    using assms(2) connset_wfD(5) [OF assms(1), of flow] by (auto simp: conn_of_def split: if_splits)
  have len: "length (rc_bytes ?w) = rc_len ?w" by (rule rc_bytes_length [OF w])
  have keep: "connset_wf (setcc flow (cc\<lparr>cc_access := now, cc_w := w'\<rparr>) s) \<and>
      stream_kept flow [] wire s (setcc flow (cc\<lparr>cc_access := now, cc_w := w'\<rparr>) s) \<and>
      conn_of (setcc flow (cc\<lparr>cc_access := now, cc_w := w'\<rparr>) s) flow = Some (cc\<lparr>cc_access := now, cc_w := w'\<rparr>)"
    if "rc_wf w'" "wire @ rc_bytes w' = rc_bytes ?w" for w' wire
    using stream_keptI [OF assms(1,2) refl that(1), of wire "[]" now] that(2)
      update_conn(2) [OF assms(1,2), of "cc\<lparr>cc_access := now, cc_w := w'\<rparr>"] f that(1)
      connset_wfD(4) [OF assms(1), of flow] by simp
  have same: "cc\<lparr>cc_access := now\<rparr> = cc\<lparr>cc_access := now, cc_w := ?w\<rparr>" by simp
  show ?thesis
  proof (cases "rc_len ?w = 0")
    case True
    then show ?thesis using keep [OF w, of "[]"] f len by (simp add: sendfromcache_def)
  next
    case False
    obtain ret n where s: "csock_send sys (rc_bytes ?w) = (ret, n)" by fastforce
    note c = csock_send_cases [OF assms(3) s]
    show ?thesis
    proof (cases "ret = 0 \<and> n \<noteq> 0")
      case True
      let ?w' = "skip n ?w"
      have b: "rc_wf ?w'" "rc_bytes ?w' = drop n (rc_bytes ?w)" using skip_bytes [OF w] by auto
      have "sendfromcache now sys flow s = Some (if n = rc_len ?w then 0 else int n, take n (rc_bytes ?w),
          setcc flow (cc\<lparr>cc_access := now, cc_w := ?w'\<rparr>) s)"
        using True False f s by (simp add: sendfromcache_def w_buf_bytes [OF w] Let_def)
      then show ?thesis using keep [OF b(1), of "take n (rc_bytes ?w)"] b(2) True c(1) len by auto
    next
      case no: False
      then have "\<exists>r. r \<noteq> 0 \<and> sendfromcache now sys flow s = Some (r, [], setcc flow (cc\<lparr>cc_access := now\<rparr>) s)"
        using False f s
        by (auto simp: sendfromcache_def w_buf_bytes [OF w] Let_def C_NEED_SEND_def E_NEED_CLOSE_def)
      then show ?thesis using keep [OF w, of "[]"] False len by auto
    qed
  qed
qed

theorem sendfromcache_keeps_stream_witness:
  "\<exists>ret wire s'. sendfromcache (7, 0) (\<lambda>b. (min 1 (int (length b)), 0)) 5 one_conn = Some (ret, wire, s') \<and>
    stream_kept 5 [] wire one_conn s'"
proof -
  have "sys_ok (\<lambda>b. (min 1 (int (length b)), 0))" by (simp add: sys_ok_def)
  from sendfromcache_keeps_stream [OF one_conn_wf one_conn_cc this, of "(7, 0)"] show ?thesis by blast
qed

text \<open>\<open>closeconn\<close> of a connection returns 0, frees its flow and slot, empties both caches and changes no
  other connection; of an unknown flow it returns \<open>-E_NOT_FINDFD\<close> and changes nothing.\<close>

theorem closeconn_releases:
  assumes "connset_wf s"
  shows "(conn_of s flow \<noteq> None \<longrightarrow> (\<exists>c s'. closeconn flow s = (0, c, s') \<and> connset_wf s' \<and>
      conn_of s' = (conn_of s)(flow := None) \<and> getusedflow s' = getusedflow s - 1 \<and>
      rc_bytes (cc_r (getcc flow s')) = [] \<and> rc_bytes (cc_w (getcc flow s')) = [])) \<and>
    (conn_of s flow = None \<longrightarrow> closeconn flow s = (- E_NOT_FINDFD, False, s))"
proof (intro conjI impI)
  assume "conn_of s flow \<noteq> None"
  then have f: "flow \<noteq> 0" "cc_flow (getcc flow s) = flow" by (auto simp: conn_of_def split: if_splits)
  note w = connset_wfD(4,5) [OF assms, of flow]
  let ?cc = "getcc flow s"
  let ?cc1 = "?cc\<lparr>cc_flow := 0, cc_access := (0, 0), cc_type := 0, cc_r := skip (rc_len (cc_r ?cc)) (cc_r ?cc),
     cc_w := set_fin_bit False (skip (rc_len (cc_w ?cc)) (cc_w ?cc))\<rparr>"
  let ?s' = "(setcc flow ?cc1 s)\<lparr>usedflow := usedflow s - 1\<rparr>"
  have fin: "rc_wf (set_fin_bit b c) = rc_wf c" "rc_bytes (set_fin_bit b c) = rc_bytes c" for b c
    by (simp_all add: set_fin_bit_def rc_wf_def rc_bytes_def split: option.split)
  have "connset_wf ?s'"
    by (rule setcc_wf [OF assms]) (use f w skip_bytes in \<open>auto simp: fin\<close>)
  moreover have "conn_of ?s' = (conn_of s)(flow := None)"
    using conn_of_setcc [OF assms, of flow ?cc1] f by simp
  moreover have "getcc flow ?s' = ?cc1" by (simp add: getcc_setcc [OF assms])
  moreover have "closeconn flow s = (0, cc_type ?cc \<noteq> UDP_SOCKET, ?s')" using f by (simp add: closeconn_def Let_def)
  ultimately show "\<exists>c s'. closeconn flow s = (0, c, s') \<and> connset_wf s' \<and>
      conn_of s' = (conn_of s)(flow := None) \<and> getusedflow s' = getusedflow s - 1 \<and>
      rc_bytes (cc_r (getcc flow s')) = [] \<and> rc_bytes (cc_w (getcc flow s')) = []"
    using w by (simp add: fin skip_all getusedflow_def)
next
  assume "conn_of s flow = None"
  then show "closeconn flow s = (- E_NOT_FINDFD, False, s)"
    by (auto simp: closeconn_def conn_of_def Let_def split: if_splits)
qed

theorem closeconn_releases_witness:
  "\<exists>c s'. closeconn 5 one_conn = (0, c, s') \<and> conn_of s' = (conn_of one_conn)(5 := None)"
  using closeconn_releases [OF one_conn_wf, of 5] one_conn_cc by auto

text \<open>\<open>recv\<close> on a connection appends exactly the bytes the kernel delivered to the read cache and leaves
  the write cache and every other connection alone; when nothing arrives no cache changes.\<close>

theorem recv_appends:
  assumes "connset_wf s" and "conn_of s flow = Some cc" and "\<not> rc_fin (cc_r cc)" and "malloc_ok malloc"
    and "rc_block_size (cc_r cc) + length buf < 2 ^ 31" and "bytes \<le> 0 \<or> bytes = int (length buf)"
  shows "\<exists>ret thrown s' cc'. conn_recv malloc now (bytes, errno, buf) flow s = Some (ret, thrown, s') \<and> connset_wf s' \<and>
    conn_of s' = (conn_of s)(flow \<mapsto> cc') \<and> cc_w cc' = cc_w cc \<and>
    rc_bytes (cc_r cc') = (if bytes > 0 \<and> \<not> thrown then rc_bytes (cc_r cc) @ buf else rc_bytes (cc_r cc)) \<and>
    (thrown \<longrightarrow> (\<exists>k. malloc k = None))"
proof -
  have f: "getcc flow s = cc" "cc_flow cc = flow" "flow \<noteq> 0" and w: "rc_wf (cc_r cc)" "rc_wf (cc_w cc)"
    using assms(2) connset_wfD(4,5) [OF assms(1), of flow] by (auto simp: conn_of_def split: if_splits)
  let ?cc = "cc\<lparr>cc_recvtime := now, cc_access := now\<rparr>"
  have upd: "connset_wf (setcc flow (?cc\<lparr>cc_r := r\<rparr>) s) \<and>
      conn_of (setcc flow (?cc\<lparr>cc_r := r\<rparr>) s) = (conn_of s)(flow \<mapsto> ?cc\<lparr>cc_r := r\<rparr>)" if "rc_wf r" for r
    using update_conn [OF assms(1,2), of "?cc\<lparr>cc_r := r\<rparr>"] f w that by simp
  have same: "?cc = ?cc\<lparr>cc_r := cc_r cc\<rparr>" by simp
  show ?thesis
  proof (cases "bytes > 0")
    case True
    then have r: "csock_receive (bytes, errno, buf) = (0, length buf)" "0 < length buf"
      using assms(6) by (auto simp: csock_receive_def)
    obtain thrown c' where a: "append malloc buf (length buf) (cc_r cc) = Some (thrown, c')" "rc_wf c'"
      "rc_bytes c' = (if thrown then rc_bytes (cc_r cc) else rc_bytes (cc_r cc) @ buf)"
      "thrown \<longrightarrow> (\<exists>k. malloc k = None)"
      using append_bytes [OF w(1) assms(3,4,5)] by blast
    obtain ret where "conn_recv malloc now (bytes, errno, buf) flow s = Some (ret, thrown, setcc flow (?cc\<lparr>cc_r := c'\<rparr>) s)"
      using r f a(1) by (simp add: conn_recv_def Let_def)
    then show ?thesis using upd [OF a(2)] a(3,4) True
      by (intro exI [of _ ret] exI [of _ thrown] exI [of _ "setcc flow (?cc\<lparr>cc_r := c'\<rparr>) s"]
          exI [of _ "?cc\<lparr>cc_r := c'\<rparr>"]) simp
  next
    case False
    obtain rt n where rt: "csock_receive (bytes, errno, buf) = (rt, n)" by fastforce
    then have "\<not> (rt = 0 \<and> n > 0)" using False by (auto simp: csock_receive_def split: if_splits)
    then have "conn_recv malloc now (bytes, errno, buf) flow s =
        Some (if cc_type cc \<noteq> UDP_SOCKET \<and> rt = - EAGAIN then - EAGAIN else - E_NEED_CLOSE, False, setcc flow ?cc s)"
      using rt f by (auto simp: conn_recv_def Let_def)
    then obtain ret where "conn_recv malloc now (bytes, errno, buf) flow s = Some (ret, False, setcc flow ?cc s)"
      by blast
    then show ?thesis using upd [OF w(1)] same False
      by (intro exI [of _ ret] exI [of _ False] exI [of _ "setcc flow ?cc s"] exI [of _ ?cc]) simp
  qed
qed

theorem recv_appends_witness:
  "\<exists>ret s' cc'. conn_recv (\<lambda>n. Some (replicate n 0)) (7, 0) (3, 0, [4, 5, 6]) 5 one_conn = Some (ret, False, s') \<and>
    conn_of s' 5 = Some cc' \<and> rc_bytes (cc_r cc') = [4, 5, 6]"
proof -
  have cc: "\<not> rc_fin (cc_r (ccs one_conn ! 1))" "rc_block_size (cc_r (ccs one_conn ! 1)) + length [4 :: byte, 5, 6] < 2 ^ 31"
    "rc_bytes (cc_r (ccs one_conn ! 1)) = []"
    by (simp_all add: one_conn_def ConnCache_init_def) (simp_all add: CRawCache_init_def rc_bytes_def)
  have m: "malloc_ok (\<lambda>n. Some (replicate n 0))" by (simp add: malloc_ok_def)
  show ?thesis
    using recv_appends [OF one_conn_wf one_conn_cc cc(1) m cc(2), of 3 "(7, 0)" 0] cc(3) by auto
qed

text \<open>\<open>check_expire\<close> lists, each once, exactly the flows of the connections last used before the
  deadline.\<close>

theorem check_expire_exact:
  assumes "connset_wf s"
  shows "set (check_expire deadline s) = {flow. \<exists>cc. conn_of s flow = Some cc \<and> fst (cc_access cc) < deadline} \<and>
    distinct (check_expire deadline s)"
proof
  have len: "length (ccs s) = maxconn s" using connset_wfD(2) [OF assms] .
  have slot: "conn_of s (cc_flow (ccs s ! i)) = Some (ccs s ! i)" if "i < maxconn s" "cc_flow (ccs s ! i) \<noteq> 0" for i
    using assms that by (auto simp: conn_of_def getcc_def connset_wf_def)
  show "set (check_expire deadline s) = {flow. \<exists>cc. conn_of s flow = Some cc \<and> fst (cc_access cc) < deadline}"
  proof (rule set_eqI)
    fix flow
    have "flow \<in> set (check_expire deadline s) \<longleftrightarrow>
        (\<exists>i < maxconn s. cc_flow (ccs s ! i) = flow \<and> flow \<noteq> 0 \<and> fst (cc_access (ccs s ! i)) < deadline)"
      by (auto simp: check_expire_def len in_set_conv_nth)
    also have "\<dots> \<longleftrightarrow> (\<exists>cc. conn_of s flow = Some cc \<and> fst (cc_access cc) < deadline)"
    proof
      assume "\<exists>i < maxconn s. cc_flow (ccs s ! i) = flow \<and> flow \<noteq> 0 \<and> fst (cc_access (ccs s ! i)) < deadline"
      then show "\<exists>cc. conn_of s flow = Some cc \<and> fst (cc_access cc) < deadline" using slot by blast
    next
      assume "\<exists>cc. conn_of s flow = Some cc \<and> fst (cc_access cc) < deadline"
      then show "\<exists>i < maxconn s. cc_flow (ccs s ! i) = flow \<and> flow \<noteq> 0 \<and> fst (cc_access (ccs s ! i)) < deadline"
        using connset_wfD(3) [OF assms, of flow] by (auto simp: conn_of_def getcc_def split: if_splits)
    qed
    finally show "flow \<in> set (check_expire deadline s) \<longleftrightarrow> flow \<in> {flow. \<exists>cc. conn_of s flow = Some cc \<and> fst (cc_access cc) < deadline}"
      by simp
  qed
  have d: "distinct (map cc_flow (filter (\<lambda>cc. cc_flow cc \<noteq> 0) (ccs s)))"
  proof -
    have "inj_on (\<lambda>i. cc_flow (ccs s ! i)) {i. i < maxconn s \<and> cc_flow (ccs s ! i) \<noteq> 0}"
      using assms by (auto simp: connset_wf_def inj_on_def) (metis)
    moreover have "map cc_flow (filter (\<lambda>cc. cc_flow cc \<noteq> 0) (ccs s)) =
        map (\<lambda>i. cc_flow (ccs s ! i)) (filter (\<lambda>i. cc_flow (ccs s ! i) \<noteq> 0) [0..<maxconn s])"
      by (subst map_nth [symmetric, of "ccs s"]) (simp add: filter_map len comp_def)
    ultimately show ?thesis by (simp add: distinct_map inj_on_subset)
  qed
  have eq: "filter (\<lambda>cc. cc_flow cc > 0 \<and> fst (cc_access cc) < deadline) (ccs s) =
      filter (\<lambda>cc. fst (cc_access cc) < deadline) (filter (\<lambda>cc. cc_flow cc \<noteq> 0) (ccs s))"
    by simp
  have "take (maxconn s) (ccs s) = ccs s" by (simp add: len)
  then show "distinct (check_expire deadline s)"
    unfolding check_expire_def by (simp only: eq distinct_map_filter [OF d])
qed

theorem check_expire_exact_witness: "set (check_expire 1 one_conn) = {5}"
proof -
  have "conn_of one_conn flow = (if flow = 5 then Some (ccs one_conn ! 1) else None)" for flow
    by (auto simp: conn_of_def getcc_def one_conn_def ConnCache_init_def nth_Cons' split: if_splits)
  then show ?thesis
    using check_expire_exact [OF one_conn_wf, of 1] by (auto simp: one_conn_def ConnCache_init_def)
qed

end
