(* ===== verification/Nest_Msg.thy ===== *)
theory Nest_Msg
  imports Prelude
begin

text \<open>
  The messages between the processes of the nest framework: the fixed header of twelve 32-bit words
  with its xor check (\<open>TNetCommuHead\<close>, \<open>nest/comm/nest_context.h\<close>), the splitting of a byte stream into
  messages (\<open>TCommuDisp\<close>, \<open>nest/comm/nest_commu.cpp\<close>) and the packages of the agent protocol
  (\<open>nest/comm/nest_proto.cpp\<close>). Hosts are little-endian; a read out of the buffer is \<^term>\<open>None\<close>.
\<close>

unbundle bit_operations_syntax

section \<open>Byte order\<close>

definition bswap :: "u32 \<Rightarrow> u32" where
  "bswap x = push_bit 24 (take_bit 8 x) OR push_bit 16 (take_bit 8 (drop_bit 8 x)) OR
     push_bit 8 (take_bit 8 (drop_bit 16 x)) OR take_bit 8 (drop_bit 24 x)"

section \<open>Header\<close>

record commu_head =
  magic_num :: u32
  msg_len :: u32
  head_len :: u32
  msg_type :: u32
  route_id :: u32
  flow :: u32
  crc :: u32
  from_ip :: u32
  from_port :: u32
  rcv_sec :: u32
  rcv_usec :: u32
  time_cost :: u32

definition NEST_MAGIC_NUM :: u32 where "NEST_MAGIC_NUM = 0x7473656e"
definition HEAD_SIZE :: nat where "HEAD_SIZE = 48"

definition zero_head :: commu_head where
  "zero_head = \<lparr>magic_num = 0, msg_len = 0, head_len = 0, msg_type = 0, route_id = 0, flow = 0, crc = 0, from_ip = 0,
     from_port = 0, rcv_sec = 0, rcv_usec = 0, time_cost = 0\<rparr>"

text \<open>The header as an array of words, and as bytes in memory.\<close>

definition head_words :: "commu_head \<Rightarrow> u32 list" where
  "head_words h = [magic_num h, msg_len h, head_len h, msg_type h, route_id h, flow h, crc h, from_ip h, from_port h,
     rcv_sec h, rcv_usec h, time_cost h]"

definition words_head :: "u32 list \<Rightarrow> commu_head" where
  "words_head w = \<lparr>magic_num = w ! 0, msg_len = w ! 1, head_len = w ! 2, msg_type = w ! 3, route_id = w ! 4, flow = w ! 5,
     crc = w ! 6, from_ip = w ! 7, from_port = w ! 8, rcv_sec = w ! 9, rcv_usec = w ! 10, time_cost = w ! 11\<rparr>"

definition head_bytes :: "commu_head \<Rightarrow> byte list" where
  "head_bytes h = concat (map (\<lambda>w. le32 (unat w)) (head_words h))"

definition bytes_head :: "byte list \<Rightarrow> commu_head" where
  "bytes_head bs = words_head (map (\<lambda>i. word_of_nat (rd32 (drop (4 * i) bs))) [0..<12])"

definition ntoh_msg_head :: "commu_head \<Rightarrow> commu_head" where
  "ntoh_msg_head h = \<lparr>magic_num = bswap (magic_num h), msg_len = bswap (msg_len h), head_len = bswap (head_len h),
     msg_type = bswap (msg_type h), route_id = bswap (route_id h), flow = bswap (flow h), crc = bswap (crc h),
     from_ip = bswap (from_ip h), from_port = bswap (from_port h), rcv_sec = bswap (rcv_sec h),
     rcv_usec = bswap (rcv_usec h), time_cost = bswap (time_cost h)\<rparr>"

definition hton_msg_head :: "commu_head \<Rightarrow> commu_head" where
  "hton_msg_head h = \<lparr>magic_num = bswap (magic_num h), msg_len = bswap (msg_len h), head_len = bswap (head_len h),
     msg_type = bswap (msg_type h), route_id = bswap (route_id h), flow = bswap (flow h), crc = bswap (crc h),
     from_ip = bswap (from_ip h), from_port = bswap (from_port h), rcv_sec = bswap (rcv_sec h),
     rcv_usec = bswap (rcv_usec h), time_cost = bswap (time_cost h)\<rparr>"

definition default_msg_head :: "u32 \<Rightarrow> u32 \<Rightarrow> commu_head" where
  "default_msg_head fl gid = zero_head\<lparr>magic_num := NEST_MAGIC_NUM, msg_len := 0, flow := fl, head_len := word_of_nat HEAD_SIZE,
     msg_type := 0, route_id := gid, rcv_sec := 0, rcv_usec := 0, crc := 0\<rparr>"

definition check_crc :: "commu_head \<Rightarrow> bool" where
  "check_crc h \<longleftrightarrow> fold (\<lambda>w acc. acc XOR w) (tl (head_words h)) (hd (head_words h)) = 0"

text \<open>The result and the header, whose check word is cleared.\<close>

definition generate_crc :: "commu_head \<Rightarrow> u32 \<times> commu_head" where
  "generate_crc h =
     (let c = hd (head_words h); h1 = h\<lparr>crc := 0\<rparr>
      in (fold (\<lambda>w acc. acc XOR w) (tl (head_words h1)) c, h1))"

text \<open>\<open>x.crc = generate_crc(&x)\<close>\<close>

definition sign_head :: "commu_head \<Rightarrow> commu_head" where
  "sign_head h = (case generate_crc h of (c, h1) \<Rightarrow> h1\<lparr>crc := c\<rparr>)"

section \<open>Splitting a stream into messages\<close>

text \<open>The result of \<open>CheckMsg\<close> and the header it has filled in, if it has.\<close>

definition CheckMsg :: "byte list \<Rightarrow> nat \<Rightarrow> nat \<Rightarrow> (int \<times> commu_head option) option" where
  "CheckMsg buf pos left =
     (if left < HEAD_SIZE then Some (0, None)
      else do {
        bs \<leftarrow> mem_rd buf pos HEAD_SIZE;
        let head_info = ntoh_msg_head (bytes_head bs);
        if magic_num head_info \<noteq> NEST_MAGIC_NUM then Some (- 1, Some head_info)
        else if \<not> check_crc head_info then Some (- 11, Some head_info)
        else let n = unat (msg_len head_info)
        in if left < n then Some (0, Some head_info)
           else if unat (head_len head_info) > n then Some (- 2, Some head_info)
           else Some (i32_wrap (int n), Some head_info)
      })"

text \<open>
  \<open>DoRecvCache\<close>: the virtual functions \<open>HandleControl\<close>, \<open>HandleService\<close> and \<open>DoRecvFinished\<close> are
  arguments; they get the header and the body. A turn that goes on takes at least one byte.
\<close>

record 'w msg_handler =
  on_control :: "commu_head \<Rightarrow> byte list \<Rightarrow> 'w \<Rightarrow> 'w"
  on_service :: "commu_head \<Rightarrow> byte list \<Rightarrow> 'w \<Rightarrow> 'w"
  on_finished :: "commu_head \<Rightarrow> 'w \<Rightarrow> 'w"

definition deliver :: "'w msg_handler \<Rightarrow> commu_head \<Rightarrow> byte list \<Rightarrow> 'w \<Rightarrow> 'w" where
  "deliver hdl head body w =
     (if msg_type head \<noteq> 0 then on_control hdl head body w
      else on_finished hdl head (on_service hdl head body w))"

lemma CheckMsg_fits:
  assumes "CheckMsg buf pos left = Some (n, ho)" "n > 0"
  shows "nat n \<le> left"
proof -
  from assms obtain k :: u32 where k: "n = i32_wrap (int (unat k))" "unat k \<le> left"
    by (auto simp: CheckMsg_def Let_def not_less split: if_splits bind_splits)
  have "int (unat k) < 2 ^ 32" using unsigned_less [of k] by simp
  then have "i32_wrap (int (unat k)) \<le> int (unat k)"
    unfolding i32_wrap_def by (cases "int (unat k) < 2 ^ 31") (simp_all add: mod_pos_pos_trivial)
  then show ?thesis using k by linarith
qed

function recv_cache_loop ::
    "'w msg_handler \<Rightarrow> bool \<Rightarrow> byte list \<Rightarrow> nat \<Rightarrow> nat \<Rightarrow> int \<Rightarrow> 'w \<Rightarrow> (int \<times> 'w) option" where
  "recv_cache_loop hdl block buf pos left process_len w =
     (case CheckMsg buf pos left of
        None \<Rightarrow> None
      | Some (n, ho) \<Rightarrow>
          if n < 0 then Some (n, w)
          else if n = 0 then Some (process_len, w)
          else (case ho of
              None \<Rightarrow> None
            | Some head \<Rightarrow>
                (case mem_rd buf (pos + unat (head_len head)) (nat n - unat (head_len head)) of
                   None \<Rightarrow> None
                 | Some body \<Rightarrow>
                     let w1 = deliver hdl head body w
                     in if block then recv_cache_loop hdl block buf (pos + nat n) (u32_sub left (nat n)) (i32_wrap (process_len + n)) w1
                        else Some (i32_wrap (process_len + n), w1))))"
  by pat_completeness auto

termination
proof (relation "measure (\<lambda>(hdl, block, buf, pos, left, process_len, w). left)")
  fix hdl :: "'w msg_handler" and block buf pos left process_len and w :: 'w and x2 n ho head x2a w1
  assume c: "CheckMsg buf pos left = Some x2" "(n, ho) = x2" "\<not> n < 0" "n \<noteq> 0"
  have "nat n \<le> left" "0 < nat n" using CheckMsg_fits [of buf pos left n ho] c by auto
  then have "u32_sub left (nat n) < left"
    using u32_sub_exact [of "nat n" left] less_le_trans [OF u32_sub_less, of left left "nat n"] by (cases "left < u32_max") auto
  then show "((hdl, block, buf, pos + nat n, u32_sub left (nat n), i32_wrap (process_len + n), w1), hdl, block, buf, pos, left, process_len, w)
    \<in> measure (\<lambda>(hdl, block, buf, pos, left, process_len, w). left)" by simp
qed simp

declare recv_cache_loop.simps [simp del]

definition DoRecvCache :: "'w msg_handler \<Rightarrow> bool \<Rightarrow> byte list \<Rightarrow> nat \<Rightarrow> 'w \<Rightarrow> (int \<times> 'w) option" where
  "DoRecvCache hdl block buf len w = recv_cache_loop hdl block buf 0 len 0 w"

section \<open>Headers\<close>

lemma bit_bswap:
  "bit (bswap x) n \<longleftrightarrow>
     (if n < 8 then bit x (n + 24) else if n < 16 then bit x (n + 8) else if n < 24 then bit x (n - 8) else n < 32 \<and> bit x (n - 24))"
  by (auto simp: bswap_def bit_simps add.commute)

lemma bswap_bswap [simp]: "bswap (bswap x) = x"
  by (rule bit_word_eqI) (auto simp: bit_bswap)

lemma bswap_xor: "bswap (x XOR y) = bswap x XOR bswap y"
  by (rule bit_word_eqI) (auto simp: bit_bswap bit_simps)

lemma bswap_0 [simp]: "bswap 0 = 0"
  by (rule bit_word_eqI) (auto simp: bit_bswap)

lemma ntoh_hton [simp]: "ntoh_msg_head (hton_msg_head h) = h"
  by (simp add: ntoh_msg_head_def hton_msg_head_def)

lemma length_head_bytes [simp]: "length (head_bytes h) = HEAD_SIZE"
  by (simp add: head_bytes_def head_words_def HEAD_SIZE_def)

lemma words_of_bytes:
  "i < length (ws :: u32 list) \<Longrightarrow> rd32 (drop (4 * i) (concat (map (\<lambda>w. le32 (unat w)) ws) @ rest)) = unat (ws ! i)"
proof (induction ws arbitrary: i)
  case (Cons w ws)
  have w: "unat w < u32_max" using unsigned_less [of w] by (simp add: u32_max_def)
  show ?case
  proof (cases i)
    case 0
    then show ?thesis using w by simp
  next
    case (Suc j)
    have "drop (4 * Suc j) (le32 (unat w) @ xs) = drop (4 * j) xs" for xs by simp
    then show ?thesis using Cons.IH [of j] Cons.prems Suc by (simp del: drop_append)
  qed
qed simp

lemma bytes_head_bytes [simp]: "bytes_head (head_bytes h @ rest) = h"
proof -
  have l: "length (head_words h) = 12" by (simp add: head_words_def)
  have "map (\<lambda>i. word_of_nat (rd32 (drop (4 * i) (head_bytes h @ rest))) :: u32) [0..<12] = map (\<lambda>i. head_words h ! i) [0..<12]"
    unfolding head_bytes_def by (rule map_cong [OF refl]) (simp add: words_of_bytes l del: drop_append)
  then have "bytes_head (head_bytes h @ rest) = words_head (head_words h)"
    unfolding bytes_head_def using map_nth [of "head_words h"] l by (simp only:)
  then show ?thesis by (simp add: words_head_def head_words_def)
qed

definition xor_all :: "u32 list \<Rightarrow> u32" where
  "xor_all ws = foldr (\<lambda>w acc. w XOR acc) ws 0"

lemma fold_xor: "fold (\<lambda>w acc. acc XOR w) ws c = c XOR xor_all ws"
  by (induction ws arbitrary: c) (simp_all add: xor_all_def xor.assoc)

lemma check_crc_xor: "check_crc h \<longleftrightarrow> xor_all (head_words h) = 0"
  unfolding check_crc_def fold_xor by (simp add: head_words_def xor_all_def)

lemma xor_all_update:
  "i < length ws \<Longrightarrow> xor_all (ws[i := v]) = xor_all ws XOR (ws ! i) XOR v"
proof (induction ws arbitrary: i)
  case (Cons w ws)
  then show ?case by (cases i) (simp_all add: xor_all_def xor.assoc xor.left_commute xor.commute)
qed simp

lemma sign_head_crc: "check_crc (sign_head h)"
  unfolding check_crc_xor
  by (simp add: sign_head_def generate_crc_def Let_def fold_xor xor_all_def head_words_def xor.assoc xor.left_commute xor.commute)

lemma sign_head_fields [simp]:
  "magic_num (sign_head h) = magic_num h" "msg_len (sign_head h) = msg_len h" "head_len (sign_head h) = head_len h"
  "msg_type (sign_head h) = msg_type h" "flow (sign_head h) = flow h" "route_id (sign_head h) = route_id h"
  "rcv_sec (sign_head h) = rcv_sec h" "rcv_usec (sign_head h) = rcv_usec h" "time_cost (sign_head h) = time_cost h"
  by (simp_all add: sign_head_def generate_crc_def Let_def)

text \<open>Signing commutes with the byte order: a header may be signed before or after its conversion.\<close>

lemma sign_hton: "sign_head (hton_msg_head h) = hton_msg_head (sign_head h)"
  by (simp add: sign_head_def generate_crc_def Let_def fold_xor xor_all_def head_words_def hton_msg_head_def bswap_xor)

section \<open>Streams\<close>

text \<open>
  A message as a sender builds it: the length is filled in, the header is signed and converted, the body
  follows. \<open>sent_head\<close> is the header the receiver should see.
\<close>

definition sent_head :: "commu_head \<Rightarrow> byte list \<Rightarrow> commu_head" where
  "sent_head h body = sign_head (h\<lparr>msg_len := word_of_nat (HEAD_SIZE + length body)\<rparr>)"

definition message :: "commu_head \<Rightarrow> byte list \<Rightarrow> byte list" where
  "message h body = head_bytes (hton_msg_head (sent_head h body)) @ body"

definition msg_ok :: "commu_head \<times> byte list \<Rightarrow> bool" where
  "msg_ok m \<longleftrightarrow> (case m of (h, body) \<Rightarrow> magic_num h = NEST_MAGIC_NUM \<and> head_len h = word_of_nat HEAD_SIZE \<and> HEAD_SIZE + length body < 2 ^ 31)"

lemma length_message [simp]: "length (message h body) = HEAD_SIZE + length body"
  by (simp add: message_def)

lemma sent_head_fields:
  assumes "msg_ok (h, body)"
  shows "magic_num (sent_head h body) = NEST_MAGIC_NUM" "unat (msg_len (sent_head h body)) = HEAD_SIZE + length body"
    "unat (head_len (sent_head h body)) = HEAD_SIZE" "check_crc (sent_head h body)"
proof -
  have "unat (word_of_nat (HEAD_SIZE + length body) :: u32) = HEAD_SIZE + length body"
    using assms by (simp add: unat_of_nat msg_ok_def del: of_nat_add)
  then show "unat (msg_len (sent_head h body)) = HEAD_SIZE + length body" by (simp add: sent_head_def del: of_nat_add)
qed (use assms sign_head_crc in \<open>simp_all add: sent_head_def msg_ok_def HEAD_SIZE_def\<close>)

lemma CheckMsg_front:
  assumes "HEAD_SIZE \<le> left" "drop pos buf = head_bytes (hton_msg_head h) @ rest" "magic_num h = NEST_MAGIC_NUM" "check_crc h"
  shows "CheckMsg buf pos left = Some (if left < unat (msg_len h) then 0 else if unat (head_len h) > unat (msg_len h) then - 2
    else i32_wrap (int (unat (msg_len h))), Some h)"
proof -
  have l: "HEAD_SIZE \<le> length (drop pos buf)" using assms(2) by simp
  then have "pos + HEAD_SIZE \<le> length buf" by (simp add: HEAD_SIZE_def)
  then have "mem_rd buf pos HEAD_SIZE = Some (head_bytes (hton_msg_head h) @ [])" using assms(2) by (simp add: mem_rd_def)
  then show ?thesis unfolding CheckMsg_def using assms(1,3,4) bytes_head_bytes [of _ "[]"] by (simp add: Let_def)
qed

lemma CheckMsg_message:
  assumes "msg_ok (h, body)" "drop pos buf = message h body @ rest" "HEAD_SIZE \<le> left"
  shows "CheckMsg buf pos left = Some (if left < HEAD_SIZE + length body then 0 else int (HEAD_SIZE + length body), Some (sent_head h body))"
proof -
  have "i32_wrap (int (HEAD_SIZE + length body)) = int (HEAD_SIZE + length body)"
    using assms(1) by (intro i32_wrap_exact) (auto simp: msg_ok_def HEAD_SIZE_def)
  then show ?thesis
    using CheckMsg_front [OF assms(3), of pos buf "sent_head h body" "body @ rest"] assms(2) sent_head_fields [OF assms(1)]
    by (simp add: message_def)
qed

text \<open>What is left of a message that is not complete yet.\<close>

lemma CheckMsg_partial:
  assumes "msg_ok (h, body)" "pos + left = length buf" "drop pos buf = take left (message h body)" "left < length (message h body)"
  shows "\<exists>ho. CheckMsg buf pos left = Some (0, ho)"
proof (cases "left < HEAD_SIZE")
  case False
  have "drop pos buf = head_bytes (hton_msg_head (sent_head h body)) @ take (left - HEAD_SIZE) body"
    using assms(3) False by (simp add: message_def)
  from CheckMsg_front [OF _ this] show ?thesis using sent_head_fields [OF assms(1)] assms(4) False by simp
qed (simp add: CheckMsg_def)

lemma recv_loop_stream:
  assumes "\<forall>m \<in> set msgs. msg_ok m" "msg_ok (h, body)" "k < length (message h body)"
  shows "\<lbrakk>drop pos buf = concat (map (\<lambda>(h, b). message h b) msgs) @ take k (message h body); pos + left = length buf;
      0 \<le> n; n + int left < 2 ^ 31\<rbrakk> \<Longrightarrow>
    recv_cache_loop hdl True buf pos left n w =
      Some (n + int (length (concat (map (\<lambda>(h, b). message h b) msgs))), fold (\<lambda>(h, b). deliver hdl (sent_head h b) b) msgs w)"
  using assms(1)
proof (induction msgs arbitrary: pos left n w)
  case Nil
  have "length (drop pos buf) = length (take k (message h body))" using Nil.prems(1) by simp
  then have k: "left = k" using Nil.prems(2) assms(3) by simp
  obtain ho where "CheckMsg buf pos left = Some (0, ho)"
    using CheckMsg_partial [OF assms(2) Nil.prems(2)] Nil.prems(1) assms(3) k by auto
  then show ?case by (simp add: recv_cache_loop.simps)
next
  case (Cons m msgs)
  obtain h1 b1 where m: "m = (h1, b1)" by (cases m)
  let ?rest = "concat (map (\<lambda>(h, b). message h b) msgs) @ take k (message h body)"
  have ok: "msg_ok (h1, b1)" "\<forall>m \<in> set msgs. msg_ok m" using Cons.prems(5) m by simp_all
  have d: "drop pos buf = message h1 b1 @ ?rest" using Cons.prems(1) m by simp
  have len: "left = HEAD_SIZE + length b1 + length ?rest" using arg_cong [OF d, of length] Cons.prems(2) by simp
  then have c: "CheckMsg buf pos left = Some (int (HEAD_SIZE + length b1), Some (sent_head h1 b1))"
    using CheckMsg_message [OF ok(1) d, of left] by simp
  have "drop (pos + HEAD_SIZE) buf = b1 @ ?rest"
    unfolding drop_drop [symmetric, of _ pos] add.commute [of pos] using d by (simp add: message_def)
  then have b: "mem_rd buf (pos + HEAD_SIZE) (length b1) = Some b1" using Cons.prems(2) len by (simp add: mem_rd_def)
  have nx: "drop (pos + (HEAD_SIZE + length b1)) buf = ?rest" "pos + (HEAD_SIZE + length b1) + (left - (HEAD_SIZE + length b1)) = length buf"
    using d Cons.prems(2) len by (simp_all add: drop_drop [symmetric, of _ pos] add.commute [of pos] message_def)
  have le: "HEAD_SIZE + length b1 \<le> left" using len by simp
  have fit: "u32_sub left (HEAD_SIZE + length b1) = left - (HEAD_SIZE + length b1)"
    "i32_wrap (n + int (HEAD_SIZE + length b1)) = n + int (HEAD_SIZE + length b1)"
    using Cons.prems(3,4) le by (intro u32_sub_exact i32_wrap_exact; simp add: u32_max_def)+
  have "recv_cache_loop hdl True buf pos left n w =
      recv_cache_loop hdl True buf (pos + (HEAD_SIZE + length b1)) (left - (HEAD_SIZE + length b1)) (n + int (HEAD_SIZE + length b1))
        (deliver hdl (sent_head h1 b1) b1 w)"
    using c b sent_head_fields(3) [OF ok(1)] fit
    by (subst recv_cache_loop.simps) (simp add: HEAD_SIZE_def nat_add_distrib)
  moreover have "0 \<le> n + int (HEAD_SIZE + length b1)"
    "n + int (HEAD_SIZE + length b1) + int (left - (HEAD_SIZE + length b1)) < 2 ^ 31"
    using Cons.prems(3,4) len by auto
  ultimately show ?case using Cons.IH [OF nx _ _ ok(2)] m by simp
qed

text \<open>Arbitrary input: every read is in the buffer and the loop ends.\<close>

lemma CheckMsg_range:
  assumes "pos + left \<le> length buf" "left < 2 ^ 31"
  obtains n ho where "CheckMsg buf pos left = Some (n, ho)" "n \<le> int left"
    "n > 0 \<longrightarrow> (\<exists>h. ho = Some h \<and> unat (head_len h) \<le> nat n)"
proof (cases "left < HEAD_SIZE")
  case True
  then show thesis using that [of 0 None] by (simp add: CheckMsg_def)
next
  case False
  define h where "h = ntoh_msg_head (bytes_head (take HEAD_SIZE (drop pos buf)))"
  have r: "mem_rd buf pos HEAD_SIZE = Some (take HEAD_SIZE (drop pos buf))" using assms False by (simp add: mem_rd_def)
  have "i32_wrap (int k) = int k" if "\<not> left < k" for k using that assms(2) by (intro i32_wrap_exact) auto
  from this [of "unat (msg_len h)"]
  have e: "\<not> left < unat (msg_len h) \<Longrightarrow> i32_wrap (int (unat (msg_len h))) = int (unat (msg_len h))" .
  have eq: "CheckMsg buf pos left = (if magic_num h \<noteq> NEST_MAGIC_NUM then Some (- 1, Some h) else if \<not> check_crc h then Some (- 11, Some h)
     else if left < unat (msg_len h) then Some (0, Some h) else if unat (head_len h) > unat (msg_len h) then Some (- 2, Some h)
     else Some (i32_wrap (int (unat (msg_len h))), Some h))"
    unfolding CheckMsg_def r using False by (simp add: h_def Let_def)
  show thesis
  proof (cases "magic_num h \<noteq> NEST_MAGIC_NUM \<or> \<not> check_crc h \<or> left < unat (msg_len h) \<or> unat (head_len h) > unat (msg_len h)")
    case True
    then have "CheckMsg buf pos left \<in> {Some (- 1, Some h), Some (- 11, Some h), Some (0, Some h), Some (- 2, Some h)}"
      unfolding eq by auto
    then show thesis using that by auto
  next
    case F: False
    then have "CheckMsg buf pos left = Some (int (unat (msg_len h)), Some h)" unfolding eq using e by simp
    moreover have "int (unat (msg_len h)) \<le> int left" using F by (simp only: of_nat_le_iff) simp
    ultimately show thesis by (rule that) (use F in \<open>simp add: not_less\<close>)
  qed
qed

lemma recv_loop_safe:
  "\<lbrakk>pos + left \<le> length buf; 0 \<le> p; p + int left < 2 ^ 31\<rbrakk> \<Longrightarrow>
   \<exists>n w1. recv_cache_loop hdl block buf pos left p w = Some (n, w1) \<and> (n < 0 \<or> p \<le> n \<and> n \<le> p + int left)"
proof (induction left arbitrary: pos p w rule: less_induct)
  case (less left)
  obtain n ho where c: "CheckMsg buf pos left = Some (n, ho)" "n \<le> int left" "n > 0 \<longrightarrow> (\<exists>h. ho = Some h \<and> unat (head_len h) \<le> nat n)"
    by (rule CheckMsg_range [OF less.prems(1)]) (use less.prems(2,3) in auto)
  show ?case
  proof (cases "n > 0")
    case False
    then show ?thesis using c(1) by (subst recv_cache_loop.simps) auto
  next
    case True
    then obtain h where h: "ho = Some h" "unat (head_len h) \<le> nat n" using c(3) by auto
    have "pos + nat n \<le> length buf" using less.prems(1) c(2) True by linarith
    then obtain body where b: "mem_rd buf (pos + unat (head_len h)) (nat n - unat (head_len h)) = Some body"
      using h(2) by (auto simp: mem_rd_def)
    have fit: "u32_sub left (nat n) = left - nat n" "i32_wrap (p + n) = p + n"
      using less.prems(2,3) c(2) True by (auto simp: u32_max_def intro!: u32_sub_exact i32_wrap_exact)
    have s: "recv_cache_loop hdl block buf pos left p w =
        (if block then recv_cache_loop hdl block buf (pos + nat n) (left - nat n) (p + n) (deliver hdl h body w) else Some (p + n, deliver hdl h body w))"
      using c(1) h(1) b True fit by (subst recv_cache_loop.simps) simp
    have "\<exists>k w1. recv_cache_loop hdl block buf (pos + nat n) (left - nat n) (p + n) (deliver hdl h body w) = Some (k, w1) \<and>
        (k < 0 \<or> p + n \<le> k \<and> k \<le> p + n + int (left - nat n))"
      by (rule less.IH) (use True c(2) less.prems in auto)
    then show ?thesis unfolding s using True c(2) by (cases block) (force, simp)
  qed
qed

section \<open>Properties\<close>

text \<open>C16: what one side sends as messages the other side splits into the same messages. When the buffer holds any
  number of complete messages and a part of a next one, less than 2 GB in all (the lengths are 32-bit), \<open>DoRecvCache\<close> hands over every header and body in order,
  once, and reports exactly the bytes of the complete messages.\<close>

theorem stream_split:
  assumes "\<forall>m \<in> set msgs. msg_ok m" "msg_ok (h, body)" "k < length (message h body)"
    and "buf = concat (map (\<lambda>(h, b). message h b) msgs) @ take k (message h body)" "length buf < 2 ^ 31"
  shows "DoRecvCache hdl True buf (length buf) w =
    Some (int (length buf - k), fold (\<lambda>(h, b). deliver hdl (sent_head h b) b) msgs w)"
  using recv_loop_stream [OF assms(1-3), of 0 buf "length buf" 0 hdl w] assms(3-5) by (simp add: DoRecvCache_def)

definition log_handler :: "(commu_head \<times> byte list) list msg_handler" where
  "log_handler = \<lparr>on_control = (\<lambda>h b w. w @ [(h, b)]), on_service = (\<lambda>h b w. w @ [(h, b)]), on_finished = (\<lambda>h w. w)\<rparr>"

definition demo_head :: commu_head where
  "demo_head = default_msg_head 7 1"

lemma demo_head_ok: "msg_ok (demo_head, [1, 2])" "msg_ok (demo_head, [3])"
  by (simp_all add: msg_ok_def demo_head_def default_msg_head_def HEAD_SIZE_def)

theorem stream_split_witness:
  "DoRecvCache log_handler True (message demo_head [1, 2] @ message demo_head [3] @ take 20 (message demo_head [1, 2])) 119 [] =
     Some (99, [(sent_head demo_head [1, 2], [1, 2]), (sent_head demo_head [3], [3])])"
  using stream_split [of "[(demo_head, [1, 2]), (demo_head, [3])]" demo_head "[1, 2]" 20 _ log_handler "[]"] demo_head_ok
  by (simp add: HEAD_SIZE_def deliver_def log_handler_def)

text \<open>C33: on arbitrary bytes \<open>DoRecvCache\<close> ends, never reads outside the buffer, and either reports an error or a
  number of bytes that the buffer has.\<close>

theorem recv_cache_safe:
  assumes "len \<le> length buf" "len < 2 ^ 31"
  shows "\<exists>n w1. DoRecvCache hdl block buf len w = Some (n, w1) \<and> (n < 0 \<or> 0 \<le> n \<and> n \<le> int len)"
  using recv_loop_safe [of 0 len buf 0 hdl block w] assms by (simp add: DoRecvCache_def)

theorem recv_cache_safe_witness:
  "\<exists>n w1. DoRecvCache log_handler True (replicate 60 9) 60 [] = Some (n, w1) \<and> (n < 0 \<or> 0 \<le> n \<and> n \<le> 60)"
  using recv_cache_safe [of 60 "replicate 60 9" log_handler True "[]"] by simp

text \<open>C34: the check of the header detects every error that is confined to one of its twelve words.\<close>

theorem crc_detects_word_error:
  assumes "check_crc h" "i < 12" "v \<noteq> head_words h ! i"
  shows "\<not> check_crc (words_head ((head_words h)[i := v]))"
proof -
  have l: "length (head_words h) = 12" by (simp add: head_words_def)
  have w: "head_words (words_head ws) = ws" if "length ws = 12" for ws
    by (rule nth_equalityI) (use that in \<open>auto simp: words_head_def head_words_def nth_Cons' numeral_eq_Suc less_Suc_eq\<close>)
  have "xor_all ((head_words h)[i := v]) = (head_words h ! i) XOR v"
    using xor_all_update [of i "head_words h" v] assms(1,2) l by (simp add: check_crc_xor)
  moreover have "x XOR v = 0 \<Longrightarrow> v = x" for x
  proof -
    have "v = x XOR (x XOR v)" unfolding xor.assoc [symmetric] by simp
    then show "x XOR v = 0 \<Longrightarrow> v = x" by simp
  qed
  ultimately show ?thesis using w l assms(3) by (auto simp: check_crc_xor)
qed

theorem crc_detects_word_error_witness:
  "\<not> check_crc (words_head ((head_words (sign_head demo_head))[5 := 8]))"
  by (rule crc_detects_word_error) (simp_all add: sign_head_crc, simp add: head_words_def demo_head_def default_msg_head_def)

text \<open>A header with a correct check whose length fields are both 0 blocks the connection: whatever follows
  it in the buffer, \<open>DoRecvCache\<close> reports an incomplete message, so nothing is ever taken from the buffer
  again.\<close>

theorem zero_length_blocks:
  assumes "magic_num h = NEST_MAGIC_NUM" "msg_len h = 0" "head_len h = 0"
  shows "DoRecvCache hdl block (head_bytes (hton_msg_head (sign_head h)) @ rest) (HEAD_SIZE + length rest) w = Some (0, w)"
proof -
  have "CheckMsg (head_bytes (hton_msg_head (sign_head h)) @ rest) 0 (HEAD_SIZE + length rest) = Some (0, Some (sign_head h))"
    using CheckMsg_front [of "HEAD_SIZE + length rest" 0 _ "sign_head h" rest] assms sign_head_crc by (simp add: i32_wrap_def)
  then show ?thesis unfolding DoRecvCache_def by (subst recv_cache_loop.simps) simp
qed

theorem zero_length_blocks_witness:
  "DoRecvCache log_handler True (head_bytes (hton_msg_head (sign_head (demo_head\<lparr>head_len := 0\<rparr>))) @ message demo_head [3]) 97 [] = Some (0, [])"
  using zero_length_blocks [of "demo_head\<lparr>head_len := 0\<rparr>" log_handler True "message demo_head [3]" "[]"]
  by (simp add: demo_head_def default_msg_head_def zero_head_def HEAD_SIZE_def)

end
