(* ===== verification/Nest_Channel.thy ===== *)
theory Nest_Channel
  imports Conn_Set Nest_Msg
begin

text \<open>
  The channels of the nest framework, \<open>TNestChannel\<close> (\<open>nest/comm/nest_channel.cpp\<close>), on the byte caches of
  \<open>tcache.cpp\<close> and the event masks of \<open>CPollerObject\<close> (\<open>comm/poller.cpp\<close>). System calls are arguments; a call on
  several buffers (\<open>writev\<close>) gets their concatenation. The dispatcher's functions are arguments. An exception
  thrown by \<open>append\<close> is a flag of the result.
\<close>

section \<open>State and event masks\<close>

datatype conn_state = UNCONNECTED | CONNECTING | CONNECTED

record channel =
  ch_fd :: int
  ch_state :: conn_state
  ch_r :: raw_cache
  ch_w :: raw_cache
  ch_dispatch :: bool
  ch_owner :: bool
  ch_attached :: bool
  ch_new_in :: bool
  ch_new_out :: bool
  ch_old_in :: bool
  ch_old_out :: bool

definition TNestChannel_init :: channel where
  "TNestChannel_init = \<lparr>ch_fd = - 1, ch_state = UNCONNECTED, ch_r = CRawCache_init, ch_w = CRawCache_init, ch_dispatch = False,
     ch_owner = False, ch_attached = False, ch_new_in = False, ch_new_out = False, ch_old_in = False, ch_old_out = False\<rparr>"

definition CH_EINTR :: int where "CH_EINTR = 4"
definition CH_EISCONN :: int where "CH_EISCONN = 106"
definition CH_EALREADY :: int where "CH_EALREADY = 114"

text \<open>\<open>ctl\<close> tells whether \<open>epoll_ctl\<close> accepts a mask of input and output.\<close>

definition ApplyEvents :: "(bool \<Rightarrow> bool \<Rightarrow> bool) \<Rightarrow> channel \<Rightarrow> int \<times> channel" where
  "ApplyEvents ctl c =
     (if \<not> ch_attached c \<or> (ch_old_in c = ch_new_in c \<and> ch_old_out c = ch_new_out c) then (0, c)
      else if ctl (ch_new_in c) (ch_new_out c) then (0, c\<lparr>ch_old_in := ch_new_in c, ch_old_out := ch_new_out c\<rparr>)
      else (- 1, c))"

text \<open>
  \<open>AttachPoller\<close> with a poller: \<open>ch_owner\<close> is whether \<open>ownerUnit\<close> is set, \<open>ch_attached\<close> whether there is an
  \<open>epslot\<close>; \<open>slot\<close> tells whether the poller has a free slot.
\<close>

definition AttachPoller :: "bool \<Rightarrow> (bool \<Rightarrow> bool \<Rightarrow> bool) \<Rightarrow> channel \<Rightarrow> int \<times> channel" where
  "AttachPoller slot ctl c =
     (if ch_owner c then (- 1, c)
      else let c0 = c\<lparr>ch_owner := True\<rparr>
      in if ch_fd c0 < 0 then (- 1, c0)
         else if \<not> ch_attached c0 then
           (if \<not> slot then (- 1, c0)
            else let c1 = c0\<lparr>ch_attached := True\<rparr>
              in if ctl (ch_new_in c1) (ch_new_out c1) then (0, c1\<lparr>ch_old_in := ch_new_in c1, ch_old_out := ch_new_out c1\<rparr>)
                 else (- 1, c1))
         else ApplyEvents ctl c0)"

text \<open>\<open>EnableOutput\<close> or \<open>DisableOutput\<close>, then \<open>ApplyEvents\<close>: the end of \<open>SendEx\<close> and \<open>SendCache\<close>.\<close>

definition arm_output :: "(bool \<Rightarrow> bool \<Rightarrow> bool) \<Rightarrow> channel \<Rightarrow> channel" where
  "arm_output ctl c = snd (ApplyEvents ctl (c\<lparr>ch_new_out := (rc_len (ch_w c) > 0)\<rparr>))"

section \<open>Sending\<close>

text \<open>Two appends, the second one only when the first has not thrown.\<close>

definition append2 ::
    "(nat \<Rightarrow> byte list option) \<Rightarrow> byte list \<Rightarrow> byte list \<Rightarrow> raw_cache \<Rightarrow> (bool \<times> raw_cache) option" where
  "append2 malloc a b c = do {
     (t1, c1) \<leftarrow> append malloc a (length a) c;
     if t1 then Some (True, c1) else append malloc b (length b) c1
   }"

text \<open>\<open>SendEx\<close>: the result, the bytes the kernel took, whether an exception left the function, the channel.\<close>

definition SendEx ::
    "(nat \<Rightarrow> byte list option) \<Rightarrow> (byte list \<Rightarrow> int \<times> int) \<Rightarrow> (bool \<Rightarrow> bool \<Rightarrow> bool) \<Rightarrow> byte list \<Rightarrow> byte list \<Rightarrow> channel \<Rightarrow>
     (int \<times> byte list \<times> bool \<times> channel) option" where
  "SendEx malloc sys ctl ctrl data c = do {
     buf \<leftarrow> w_buf (ch_w c);
     let (bytes, errno) = sys (buf @ ctrl @ data);
     if bytes < 0 then
       (if errno = EAGAIN \<or> errno = CH_EINTR then do {
          (thrown, w) \<leftarrow> append2 malloc ctrl data (ch_w c);
          Some (0, [], thrown, c\<lparr>ch_w := w\<rparr>)
        }
        else Some (- 1, [], False, c))
     else do {
       let n = nat bytes;
       let wire = take n (buf @ ctrl @ data);
       let cache_len = rc_len (ch_w c);
       (thrown, w) \<leftarrow>
         (if n < cache_len then append2 malloc ctrl data (skip n (ch_w c))
          else if n < cache_len + length ctrl then
            (let left_len = cache_len + length ctrl - n
             in append2 malloc (drop (length ctrl - left_len) ctrl) data (skip cache_len (ch_w c)))
          else if n < cache_len + length ctrl + length data then
            (let left_len = cache_len + length ctrl + length data - n
             in append malloc (drop (length data - left_len) data) left_len (skip cache_len (ch_w c)))
          else Some (False, skip cache_len (ch_w c)));
       let c1 = c\<lparr>ch_w := w\<rparr>;
       Some (if thrown then (0, wire, True, c1) else (i32_wrap bytes, wire, False, arm_output ctl c1))
     }
   }"

text \<open>\<open>on_error\<close> is \<open>DoError\<close> of the dispatcher; it may free the channel, which is not used afterwards.\<close>

definition channel_Send ::
    "(nat \<Rightarrow> byte list option) \<Rightarrow> (byte list \<Rightarrow> int \<times> int) \<Rightarrow> (bool \<Rightarrow> bool \<Rightarrow> bool) \<Rightarrow> ('w \<Rightarrow> 'w) \<Rightarrow> byte list \<Rightarrow> channel \<Rightarrow> 'w \<Rightarrow>
     (int \<times> byte list \<times> bool \<times> channel \<times> 'w) option" where
  "channel_Send malloc sys ctl on_error data c w = do {
     (bytes, wire, thrown, c1) \<leftarrow> SendEx malloc sys ctl [] data c;
     Some (bytes, wire, thrown, c1, if \<not> thrown \<and> bytes < 0 \<and> ch_dispatch c1 then on_error w else w)
   }"

definition SendCache ::
    "(byte list \<Rightarrow> int \<times> int) \<Rightarrow> (bool \<Rightarrow> bool \<Rightarrow> bool) \<Rightarrow> channel \<Rightarrow> (int \<times> byte list \<times> channel) option" where
  "SendCache sys ctl c =
     (if rc_len (ch_w c) > 0 then do {
        buf \<leftarrow> w_buf (ch_w c);
        let (bytes, errno) = sys buf;
        if bytes \<ge> 0 then
          Some (0, take (nat bytes) buf, arm_output ctl (c\<lparr>ch_w := skip (nat bytes) (ch_w c)\<rparr>))
        else if errno \<noteq> EAGAIN \<and> errno \<noteq> CH_EINTR then Some (- 1, [], c)
        else Some (0, [], arm_output ctl c)
      }
      else Some (0, [], arm_output ctl c))"

section \<open>Receiving\<close>

text \<open>
  \<open>RecvCache\<close> and \<open>Recv\<close>: \<open>disp\<close> is \<open>DoRecvCache\<close> or \<open>DoRecv\<close> of the dispatcher on the bytes of the read
  cache. The variable \<open>process_len\<close> that takes its result is unsigned, so the test for an error after
  it is never true.
\<close>

definition take_processed :: "int \<Rightarrow> channel \<Rightarrow> int \<times> channel" where
  "take_processed r c =
     (let process_len = nat (r mod 2 ^ 32) in (i32_wrap (int process_len), c\<lparr>ch_r := skip process_len (ch_r c)\<rparr>))"

definition RecvCache :: "(byte list \<Rightarrow> 'w \<Rightarrow> (int \<times> 'w) option) \<Rightarrow> channel \<Rightarrow> 'w \<Rightarrow> (int \<times> channel \<times> 'w) option" where
  "RecvCache disp c w =
     (if rc_len (ch_r c) = 0 then Some (0, c, w)
      else if \<not> ch_dispatch c then Some (- 100, c, w)
      else do {
        buf \<leftarrow> w_buf (ch_r c);
        (r, w1) \<leftarrow> disp buf w;
        (case take_processed r c of (ret, c1) \<Rightarrow> Some (ret, c1, w1))
      })"

text \<open>\<open>disp\<close> is \<open>DoRecv\<close>, \<open>dispc\<close> is \<open>DoRecvCache\<close> with \<open>block\<close> set; the flag tells whether \<open>append\<close> threw.\<close>

definition channel_Recv ::
    "(nat \<Rightarrow> byte list option) \<Rightarrow> int \<times> byte list \<Rightarrow> (byte list \<Rightarrow> 'w \<Rightarrow> (int \<times> 'w) option) \<Rightarrow>
     (byte list \<Rightarrow> 'w \<Rightarrow> (int \<times> 'w) option) \<Rightarrow> channel \<Rightarrow> 'w \<Rightarrow> (int \<times> bool \<times> channel \<times> 'w) option" where
  "channel_Recv malloc sys disp dispc c w =
     (case sys of (bytes, buf) \<Rightarrow>
        if bytes > 0 then do {
          (thrown, r) \<leftarrow> append malloc buf (nat bytes) (ch_r c);
          let c1 = c\<lparr>ch_r := r\<rparr>;
          if thrown then Some (0, True, c1, w)
          else if \<not> ch_dispatch c1 then Some (- 100, False, c1, w)
          else do {
            b \<leftarrow> w_buf r;
            (p, w1) \<leftarrow> disp b w;
            (case take_processed p c1 of (ret, c2) \<Rightarrow> Some (ret, False, c2, w1))
          }
        }
        else if bytes = 0 then do {
          (ret, c1, w1) \<leftarrow> RecvCache dispc c w;
          Some (- 102, False, c1, w1)
        }
        else Some (- 103, False, c, w))"

definition channel_InputNotify ::
    "(nat \<Rightarrow> byte list option) \<Rightarrow> int \<times> byte list \<Rightarrow> (byte list \<Rightarrow> 'w \<Rightarrow> (int \<times> 'w) option) \<Rightarrow>
     (byte list \<Rightarrow> 'w \<Rightarrow> (int \<times> 'w) option) \<Rightarrow> ('w \<Rightarrow> 'w) \<Rightarrow> channel \<Rightarrow> 'w \<Rightarrow> (int \<times> bool \<times> channel \<times> 'w) option" where
  "channel_InputNotify malloc sys disp dispc on_error c w =
     (if ch_fd c < 0 then Some (- 1, False, c, w)
      else do {
        (ret, thrown, c1, w1) \<leftarrow> channel_Recv malloc sys disp dispc c w;
        Some (ret, thrown, c1, if \<not> thrown \<and> ret < 0 \<and> ch_dispatch c1 then on_error w1 else w1)
      })"

section \<open>Connecting\<close>

text \<open>\<open>Connect\<close>: the result of \<open>connect\<close> and \<open>errno\<close>.\<close>

definition channel_Connect :: "int \<times> int \<Rightarrow> int" where
  "channel_Connect sys =
     (case sys of (rc, err) \<Rightarrow>
        if rc < 0 then (if err = CH_EISCONN then 1
                        else if err = EINPROGRESS \<or> err = CH_EALREADY \<or> err = CH_EINTR then 0 else - 1)
        else 1)"

text \<open>
  \<open>DoConnect\<close>: \<open>on_connected\<close> is \<open>DoConnected\<close> of the dispatcher. It yields \<^term>\<open>None\<close> for the channel when it
  has freed it; the code goes on to use the channel, which is undefined.
\<close>

definition channel_DoConnect ::
    "int \<times> int \<Rightarrow> bool \<Rightarrow> (bool \<Rightarrow> bool \<Rightarrow> bool) \<Rightarrow> (channel \<Rightarrow> 'w \<Rightarrow> channel option \<times> 'w) \<Rightarrow> channel \<Rightarrow> 'w \<Rightarrow>
     (int \<times> channel \<times> 'w) option" where
  "channel_DoConnect sys slot ctl on_connected c w =
     (if ch_state c = CONNECTED then Some (1, c, w)
      else let ret = channel_Connect sys
      in if ret < 0 then Some (- 1, c, w)
         else do {
           (c1, w1) \<leftarrow>
             (if ret > 0 then
                (let c0 = c\<lparr>ch_state := CONNECTED, ch_new_in := True, ch_new_out := False\<rparr>
                 in if ch_dispatch c0 then (case on_connected c0 w of (None, _) \<Rightarrow> None | (Some c', w') \<Rightarrow> Some (c', w'))
                    else Some (c0, w))
              else Some (c\<lparr>ch_state := CONNECTING, ch_new_in := False, ch_new_out := True\<rparr>, w));
           let (rc, c2) = (if \<not> ch_owner c1 then AttachPoller slot ctl c1 else ApplyEvents ctl c1);
           if rc < 0 then Some (- 2, c2, w1) else Some (if ret > 0 then 1 else 0, c2, w1)
         })"

text \<open>\<open>OutputNotify\<close>; \<open>so_error\<close> is whether \<open>getsockopt\<close> fails or reports an error.\<close>

definition channel_OutputNotify ::
    "bool \<Rightarrow> (byte list \<Rightarrow> int \<times> int) \<Rightarrow> (bool \<Rightarrow> bool \<Rightarrow> bool) \<Rightarrow> ('w \<Rightarrow> 'w) \<Rightarrow> (channel \<Rightarrow> 'w \<Rightarrow> channel option \<times> 'w) \<Rightarrow>
     channel \<Rightarrow> 'w \<Rightarrow> (int \<times> byte list \<times> channel option \<times> 'w) option" where
  "channel_OutputNotify so_error sys ctl on_error on_connected c w =
     (if ch_fd c < 0 then Some (- 1, [], Some c, w)
      else if ch_state c = CONNECTING then
        (if so_error then Some (- 1, [], Some c, if ch_dispatch c then on_error w else w)
         else let c1 = snd (ApplyEvents ctl (c\<lparr>ch_state := CONNECTED, ch_new_in := True, ch_new_out := False\<rparr>))
              in if ch_dispatch c1 then (case on_connected c1 w of (c2, w2) \<Rightarrow> Some (0, [], c2, w2)) else Some (0, [], Some c1, w))
      else do {
        (ret, wire, c1) \<leftarrow> SendCache sys ctl c;
        Some (ret, wire, Some c1, if ret < 0 \<and> ch_dispatch c1 then on_error w else w)
      })"

definition channel_HangupNotify :: "('w \<Rightarrow> 'w) \<Rightarrow> channel \<Rightarrow> 'w \<Rightarrow> int \<times> 'w" where
  "channel_HangupNotify on_error c w = (0, if ch_dispatch c then on_error w else w)"

section \<open>The byte streams\<close>

lemma ApplyEvents_frame [simp]:
  "ch_r (snd (ApplyEvents ctl c)) = ch_r c" "ch_w (snd (ApplyEvents ctl c)) = ch_w c" "ch_new_out (snd (ApplyEvents ctl c)) = ch_new_out c"
  "ch_dispatch (snd (ApplyEvents ctl c)) = ch_dispatch c" "ch_state (snd (ApplyEvents ctl c)) = ch_state c"
  "ch_attached (snd (ApplyEvents ctl c)) = ch_attached c"
  by (simp_all add: ApplyEvents_def)

lemma arm_output_frame [simp]:
  "ch_r (arm_output ctl c) = ch_r c" "ch_w (arm_output ctl c) = ch_w c" "ch_new_out (arm_output ctl c) = (rc_len (ch_w c) > 0)"
  "ch_attached (arm_output ctl c) = ch_attached c"
  by (simp_all add: arm_output_def)

lemma arm_output_applied:
  "ch_attached c \<Longrightarrow> \<forall>i out. ctl i out \<Longrightarrow> ch_old_out (arm_output ctl c) = (rc_len (ch_w c) > 0)"
  by (simp add: arm_output_def ApplyEvents_def)

text \<open>The cache has room for \<open>n\<close> more bytes without its sizes wrapping around.\<close>

definition room :: "nat \<Rightarrow> raw_cache \<Rightarrow> bool" where
  "room n c \<longleftrightarrow> rc_wf c \<and> \<not> rc_fin c \<and> rc_block_size c \<le> 2 ^ 30 \<and> rc_len c + n \<le> 2 ^ 29"

lemma room_skip: "room n c \<Longrightarrow> room n (skip k c)"
proof -
  assume r: "room n c"
  then have w: "rc_wf c" by (simp add: room_def)
  note sk = skip_bytes [OF w, of k]
  have "rc_len (skip k c) \<le> rc_len c" using sk(1) rc_bytes_length [OF w] rc_bytes_length [OF sk(2)] by simp
  then show ?thesis using r sk skip_block [of k c] by (simp add: room_def)
qed

lemma room_less: "room n c \<Longrightarrow> m \<le> n \<Longrightarrow> room m c"
  by (simp add: room_def)

lemma append_room:
  assumes "malloc_ok malloc" "room (length d + n) c"
  obtains t c1 where "append malloc d (length d) c = Some (t, c1)" "rc_bytes c1 = (if t then rc_bytes c else rc_bytes c @ d)" "room n c1"
    "t \<longrightarrow> (\<exists>k. malloc k = None)"
proof -
  have r: "rc_wf c" "\<not> rc_fin c" "rc_block_size c \<le> 2 ^ 30" "rc_len c + (length d + n) \<le> 2 ^ 29" using assms(2) by (auto simp: room_def)
  have b: "rc_block_size c + length d < 2 ^ 31" using r by simp
  obtain t c1 where a: "append malloc d (length d) c = Some (t, c1)" "rc_wf c1" "rc_fin c1 = rc_fin c"
    "rc_bytes c1 = (if t then rc_bytes c else rc_bytes c @ d)" "t \<longrightarrow> (\<exists>k. malloc k = None)"
    using append_bytes [OF r(1,2) assms(1) b] by blast
  have "length (rc_bytes c1) \<le> length (rc_bytes c) + length d" using a(4) by simp
  then have "rc_len c1 \<le> rc_len c + length d" using rc_bytes_length r(1) a(2) by simp
  then have "room n c1" using a(2,3) append_block_size [OF a(1) r(1) b] r by (simp add: room_def RAW_CACHE_DEFAULT_SIZE_def)
  with a that show thesis by blast
qed

lemma append2_room:
  assumes "malloc_ok malloc" "room (length a + length b + n) c"
  obtains t c1 where "append2 malloc a b c = Some (t, c1)" "\<not> t \<longrightarrow> rc_bytes c1 = rc_bytes c @ a @ b" "room n c1" "t \<longrightarrow> (\<exists>k. malloc k = None)"
proof -
  have ra: "room (length a + (length b + n)) c" using assms(2) by (simp add: add.assoc)
  obtain t1 c1 where 1: "append malloc a (length a) c = Some (t1, c1)" "rc_bytes c1 = (if t1 then rc_bytes c else rc_bytes c @ a)"
    "room (length b + n) c1" "t1 \<longrightarrow> (\<exists>k. malloc k = None)" by (rule append_room [OF assms(1) ra])
  show thesis
  proof (cases t1)
    case True
    have "room n c1" using room_less [OF 1(3)] by simp
    then show thesis using that [of True c1] 1 True by (simp add: append2_def)
  next
    case False
    obtain t2 c2 where 2: "append malloc b (length b) c1 = Some (t2, c2)" "rc_bytes c2 = (if t2 then rc_bytes c1 else rc_bytes c1 @ b)"
      "room n c2" "t2 \<longrightarrow> (\<exists>k. malloc k = None)" by (rule append_room [OF assms(1) 1(3)])
    then show thesis using that [of t2 c2] 1 False by (simp add: append2_def)
  qed
qed

text \<open>What \<open>SendEx\<close> leaves in the cache is what the kernel has not taken.\<close>

lemma send_rest:
  assumes m: "malloc_ok malloc" and r: "room (length ctrl + length data) c" and n: "n \<le> rc_len c + length ctrl + length data"
  obtains t w where
    "(if n < rc_len c then append2 malloc ctrl data (skip n c)
      else if n < rc_len c + length ctrl then
        (let left_len = rc_len c + length ctrl - n in append2 malloc (drop (length ctrl - left_len) ctrl) data (skip (rc_len c) c))
      else if n < rc_len c + length ctrl + length data then
        (let left_len = rc_len c + length ctrl + length data - n in append malloc (drop (length data - left_len) data) left_len (skip (rc_len c) c))
      else Some (False, skip (rc_len c) c)) = Some (t, w)"
    "\<not> t \<longrightarrow> rc_bytes w = drop n (rc_bytes c @ ctrl @ data)" "room 0 w" "t \<longrightarrow> (\<exists>k. malloc k = None)"
proof -
  have wf: "rc_wf c" using r by (simp add: room_def)
  have len: "length (rc_bytes c) = rc_len c" by (rule rc_bytes_length [OF wf])
  note sk = skip_bytes [OF wf]
  have rs: "room (length ctrl + length data + 0) (skip k c)" for k using room_skip [OF r] by simp
  have z: "rc_bytes (skip (rc_len c) c) = []" using sk(1) len by simp
  consider (cache) "n < rc_len c" | (ctrl) "rc_len c \<le> n" "n < rc_len c + length ctrl"
    | (data) "rc_len c + length ctrl \<le> n" "n < rc_len c + length ctrl + length data" | (all) "n = rc_len c + length ctrl + length data"
    using n by linarith
  then show thesis
  proof cases
    case cache
    obtain t w where "append2 malloc ctrl data (skip n c) = Some (t, w)" "\<not> t \<longrightarrow> rc_bytes w = rc_bytes (skip n c) @ ctrl @ data"
      "room 0 w" "t \<longrightarrow> (\<exists>k. malloc k = None)" by (rule append2_room [OF m rs])
    then show thesis using that cache sk(1) len by simp
  next
    case ctrl
    define d where "d = drop (n - rc_len c) ctrl"
    have rd: "room (length d + length data + 0) (skip (rc_len c) c)" using room_less [OF rs] by (simp add: d_def)
    obtain t w where "append2 malloc d data (skip (rc_len c) c) = Some (t, w)" "\<not> t \<longrightarrow> rc_bytes w = rc_bytes (skip (rc_len c) c) @ d @ data"
      "room 0 w" "t \<longrightarrow> (\<exists>k. malloc k = None)" by (rule append2_room [OF m rd])
    moreover have "length ctrl - (rc_len c + length ctrl - n) = n - rc_len c" using ctrl by simp
    ultimately show thesis using that ctrl len z by (simp add: d_def Let_def)
  next
    case data
    define d where "d = drop (n - rc_len c - length ctrl) data"
    have rd: "room (length d + 0) (skip (rc_len c) c)" using room_less [OF rs] by (simp add: d_def)
    obtain t w where "append malloc d (length d) (skip (rc_len c) c) = Some (t, w)"
      "rc_bytes w = (if t then rc_bytes (skip (rc_len c) c) else rc_bytes (skip (rc_len c) c) @ d)"
      "room 0 w" "t \<longrightarrow> (\<exists>k. malloc k = None)" by (rule append_room [OF m rd])
    moreover have "length data - (rc_len c + length ctrl + length data - n) = n - rc_len c - length ctrl"
      "length d = rc_len c + length ctrl + length data - n" using data by (simp_all add: d_def)
    ultimately show thesis using that data len z by (simp add: d_def Let_def)
  next
    case all
    have "room 0 (skip (rc_len c) c)" using room_less [OF rs] by simp
    then show thesis using that [of False "skip (rc_len c) c"] all len z by simp
  qed
qed

lemma SendEx_ok:
  assumes m: "malloc_ok malloc" and r: "room (length ctrl + length data) (ch_w c)" and sys: "sys_ok sys"
  shows "\<exists>ret wire t c1. SendEx malloc sys ctl ctrl data c = Some (ret, wire, t, c1) \<and> ch_r c1 = ch_r c \<and> (t \<longrightarrow> (\<exists>k. malloc k = None)) \<and>
    (\<not> t \<longrightarrow> room 0 (ch_w c1) \<and> (if ret < 0 then wire = [] \<and> c1 = c
       else wire @ rc_bytes (ch_w c1) = rc_bytes (ch_w c) @ ctrl @ data \<and>
         ch_new_out c1 = (if fst (sys (rc_bytes (ch_w c) @ ctrl @ data)) \<ge> 0 then rc_bytes (ch_w c1) \<noteq> [] else ch_new_out c)))"
proof -
  have wf: "rc_wf (ch_w c)" using r by (simp add: room_def)
  let ?b = "rc_bytes (ch_w c)"
  obtain bytes errno where s: "sys (?b @ ctrl @ data) = (bytes, errno)" by (cases "sys (?b @ ctrl @ data)")
  then have le: "bytes \<le> int (length (?b @ ctrl @ data))" using sys unfolding sys_ok_def by (metis fst_conv)
  have len: "length ?b = rc_len (ch_w c)" by (rule rc_bytes_length [OF wf])
  have w: "w_buf (ch_w c) = Some ?b" by (rule w_buf_bytes [OF wf])
  have r0: "room (length ctrl + length data + 0) (ch_w c)" using r by simp
  show ?thesis
  proof (cases "bytes < 0")
    case True
    obtain t v where a: "append2 malloc ctrl data (ch_w c) = Some (t, v)" "\<not> t \<longrightarrow> rc_bytes v = ?b @ ctrl @ data" "room 0 v"
      "t \<longrightarrow> (\<exists>k. malloc k = None)" by (rule append2_room [OF m r0])
    then show ?thesis using True s w room_less [OF r, of 0] by (auto simp: SendEx_def)
  next
    case False
    define n where "n = nat bytes"
    have n: "n \<le> rc_len (ch_w c) + length ctrl + length data" using le len False by (simp add: n_def)
    obtain t v where a: "(if n < rc_len (ch_w c) then append2 malloc ctrl data (skip n (ch_w c))
      else if n < rc_len (ch_w c) + length ctrl then
        (let left_len = rc_len (ch_w c) + length ctrl - n in append2 malloc (drop (length ctrl - left_len) ctrl) data (skip (rc_len (ch_w c)) (ch_w c)))
      else if n < rc_len (ch_w c) + length ctrl + length data then
        (let left_len = rc_len (ch_w c) + length ctrl + length data - n in append malloc (drop (length data - left_len) data) left_len (skip (rc_len (ch_w c)) (ch_w c)))
      else Some (False, skip (rc_len (ch_w c)) (ch_w c))) = Some (t, v)"
      "\<not> t \<longrightarrow> rc_bytes v = drop n (?b @ ctrl @ data)" "room 0 v" "t \<longrightarrow> (\<exists>k. malloc k = None)"
      by (rule send_rest [OF m r n])
    have "bytes < 2 ^ 31" using le len r by (simp add: room_def)
    then have i: "i32_wrap bytes = bytes" using False by (intro i32_wrap_exact) auto
    have e: "SendEx malloc sys ctl ctrl data c =
        Some (if t then (0, take n (?b @ ctrl @ data), True, c\<lparr>ch_w := v\<rparr>)
          else (bytes, take n (?b @ ctrl @ data), False, arm_output ctl (c\<lparr>ch_w := v\<rparr>)))"
      unfolding SendEx_def w Option.bind.bind_lunit s Let_def prod.case n_def [symmetric] a(1) [unfolded Let_def] i using False by simp
    have "length (rc_bytes v) = rc_len v" using a(3) by (intro rc_bytes_length) (simp add: room_def)
    then have "rc_len v > 0 \<longleftrightarrow> rc_bytes v \<noteq> []" by (cases "rc_bytes v") auto
    note pos = this
    show ?thesis
    proof (cases t)
      case True
      then show ?thesis using e a(4)
        by (intro exI [of _ 0] exI [of _ "take n (?b @ ctrl @ data)"] exI [of _ True] exI [of _ "c\<lparr>ch_w := v\<rparr>"]) simp
    next
      case no: False
      then have v: "rc_bytes v = drop n (?b @ ctrl @ data)" using a(2) by blast
      have "take n (?b @ ctrl @ data) @ rc_bytes v = ?b @ ctrl @ data" unfolding v by (rule append_take_drop_id)
      then show ?thesis
        using e no a(3) False s pos
        by (intro exI [of _ bytes] exI [of _ "take n (?b @ ctrl @ data)"] exI [of _ False] exI [of _ "arm_output ctl (c\<lparr>ch_w := v\<rparr>)"])
          (simp del: append_assoc)
    qed
  qed
qed

lemma SendCache_ok:
  assumes wf: "rc_wf (ch_w c)" and sys: "sys_ok sys"
  shows "\<exists>ret wire c1. SendCache sys ctl c = Some (ret, wire, c1) \<and> ch_r c1 = ch_r c \<and> rc_wf (ch_w c1) \<and>
    wire @ rc_bytes (ch_w c1) = rc_bytes (ch_w c) \<and> (ret = 0 \<longrightarrow> ch_new_out c1 = (rc_bytes (ch_w c1) \<noteq> []))"
proof -
  let ?b = "rc_bytes (ch_w c)"
  obtain bytes errno where s: "sys ?b = (bytes, errno)" by (cases "sys ?b")
  have w: "w_buf (ch_w c) = Some ?b" by (rule w_buf_bytes [OF wf])
  have pos: "rc_len v > 0 \<longleftrightarrow> rc_bytes v \<noteq> []" if "rc_wf v" for v
    using rc_bytes_length [OF that] by (cases "rc_bytes v") auto
  note sk = skip_bytes [OF wf, of "nat bytes"]
  show ?thesis
    using s w wf sk pos [OF wf] pos [OF sk(2)] by (auto simp: SendCache_def)
qed

section \<open>Reassembly\<close>

lemma take_processed_ok:
  assumes "rc_wf (ch_r c)" "0 \<le> n" "n \<le> int (rc_len (ch_r c))" "rc_len (ch_r c) < 2 ^ 31"
  shows "take_processed n c = (n, c\<lparr>ch_r := skip (nat n) (ch_r c)\<rparr>)"
proof -
  have "n mod 2 ^ 32 = n" "i32_wrap n = n" using assms by (simp_all add: i32_wrap_exact)
  then show ?thesis using assms(2) by (simp add: take_processed_def Let_def)
qed

text \<open>
  One chunk from the socket, as in a turn of the proxy: \<open>InputNotify\<close> calls \<open>Recv\<close>, where \<open>DoRecv\<close> of the message
  dispatcher takes nothing; then \<open>poll(true)\<close> of the server (\<open>nest_proxy.cpp\<close>, line 248) calls \<open>RecvCache(true)\<close>
  (\<open>nest_commu.cpp\<close>, line 546), which takes the messages.
\<close>

definition feed ::
    "(nat \<Rightarrow> byte list option) \<Rightarrow> 'w msg_handler \<Rightarrow> byte list \<Rightarrow> channel \<Rightarrow> 'w \<Rightarrow> (int \<times> channel \<times> 'w) option" where
  "feed malloc hdl chunk c w = do {
     (ret, thrown, c1, w1) \<leftarrow>
       channel_Recv malloc (int (length chunk), chunk) (\<lambda>b w. Some (0, w)) (\<lambda>b w. DoRecvCache hdl True b (length b) w) c w;
     if thrown then None else RecvCache (\<lambda>b w. DoRecvCache hdl True b (length b) w) c1 w1
   }"

fun feeds ::
    "(nat \<Rightarrow> byte list option) \<Rightarrow> 'w msg_handler \<Rightarrow> byte list list \<Rightarrow> channel \<Rightarrow> 'w \<Rightarrow> (channel \<times> 'w) option" where
  "feeds malloc hdl [] c w = Some (c, w)"
| "feeds malloc hdl (chunk # chunks) c w = do { (ret, c1, w1) \<leftarrow> feed malloc hdl chunk c w; feeds malloc hdl chunks c1 w1 }"

abbreviation stream :: "(commu_head \<times> byte list) list \<Rightarrow> byte list" where
  "stream msgs \<equiv> concat (map (\<lambda>(h, b). message h b) msgs)"

abbreviation deliver_all :: "'w msg_handler \<Rightarrow> (commu_head \<times> byte list) list \<Rightarrow> 'w \<Rightarrow> 'w" where
  "deliver_all hdl msgs w \<equiv> fold (\<lambda>(h, b). deliver hdl (sent_head h b) b) msgs w"

text \<open>A prefix of a stream of messages is some messages and a part of the next one.\<close>

lemma stream_prefix:
  "\<lbrakk>p @ q = stream msgs; q \<noteq> []\<rbrakk> \<Longrightarrow> \<exists>ms h b ms2. msgs = ms @ (h, b) # ms2 \<and> p = stream ms @ take (length p - length (stream ms)) (message h b) \<and>
     length (stream ms) \<le> length p \<and> length p < length (stream ms) + length (message h b)"
proof (induction msgs arbitrary: p)
  case Nil
  then show ?case by simp
next
  case (Cons m msgs)
  obtain h b where m: "m = (h, b)" by (cases m)
  show ?case
  proof (cases "length p < length (message h b)")
    case True
    have "p = take (length p) (p @ q)" by simp
    also have "\<dots> = take (length p) (message h b)" unfolding Cons.prems(1) using True by (simp add: m)
    finally show ?thesis using True m by (intro exI [of _ "[]"] exI [of _ h] exI [of _ b] exI [of _ msgs]) simp
  next
    case False
    define p2 where "p2 = drop (length (message h b)) p"
    have p: "p = message h b @ p2"
    proof -
      have "take (length (message h b)) (p @ q) = message h b" unfolding Cons.prems(1) by (simp add: m)
      then show ?thesis using False unfolding p2_def by (metis append_take_drop_id not_less take_append take_all diff_is_0_eq take_0 append_Nil2)
    qed
    then have "p2 @ q = stream msgs" using Cons.prems(1) m by simp
    from Cons.IH [OF this Cons.prems(2)] obtain ms h2 b2 ms2 where
      i: "msgs = ms @ (h2, b2) # ms2" "p2 = stream ms @ take (length p2 - length (stream ms)) (message h2 b2)"
      "length (stream ms) \<le> length p2" "length p2 < length (stream ms) + length (message h2 b2)" by blast
    have "length p - length (stream (m # ms)) = length p2 - length (stream ms)" using p m by simp
    then have "p = stream (m # ms) @ take (length p - length (stream (m # ms))) (message h2 b2)"
      using p i(2) m by simp
    then show ?thesis using i p m
      by (intro exI [of _ "m # ms"] exI [of _ h2] exI [of _ b2] exI [of _ ms2]) simp
  qed
qed

text \<open>The channel holds a part \<open>p\<close> of a stream and the rest of the input fits into its cache.\<close>

definition rx_holds :: "nat \<Rightarrow> byte list \<Rightarrow> channel \<Rightarrow> bool" where
  "rx_holds n p c \<longleftrightarrow> ch_dispatch c \<and> room n (ch_r c) \<and> rc_bytes (ch_r c) = p"

lemma RecvCache_stream:
  assumes ok: "\<forall>m \<in> set ms. msg_ok m" "msg_ok (h, b)" and k: "k < length (message h b)"
    and c: "rx_holds n (stream ms @ take k (message h b)) c"
  shows "\<exists>ret c1. RecvCache (\<lambda>b w. DoRecvCache hdl True b (length b) w) c w = Some (ret, c1, deliver_all hdl ms w) \<and>
    rx_holds n (take k (message h b)) c1 \<and> ch_w c1 = ch_w c"
proof -
  let ?p = "stream ms @ take k (message h b)" and ?s = "length (stream ms)"
  have wf: "rc_wf (ch_r c)" and d: "ch_dispatch c" and p: "rc_bytes (ch_r c) = ?p" and r: "room n (ch_r c)"
    using c by (auto simp: rx_holds_def room_def)
  have len: "rc_len (ch_r c) = length ?p" using rc_bytes_length [OF wf] p by simp
  show ?thesis
  proof (cases "rc_len (ch_r c) = 0")
    case True
    then have z: "stream ms = []" "k = 0" using len k by auto
    have "ms = []"
    proof (cases ms)
      case (Cons m ms')
      then show ?thesis using z(1) by (cases m) (auto simp: message_def HEAD_SIZE_def dest: arg_cong [of _ _ length])
    qed
    then show ?thesis using True c by (simp add: RecvCache_def)
  next
    case False
    have small: "length ?p < 2 ^ 31" using r len by (simp add: room_def)
    then have "0 + int (length ?p) < 2 ^ 31" by simp
    then have split: "DoRecvCache hdl True ?p (length ?p) w = Some (int ?s, deliver_all hdl ms w)"
      using recv_loop_stream [OF ok k, of 0 ?p "length ?p" 0 hdl w] by (simp add: DoRecvCache_def)
    have t: "take_processed (int ?s) c = (int ?s, c\<lparr>ch_r := skip ?s (ch_r c)\<rparr>)"
      using take_processed_ok [OF wf, of "int ?s"] len small by simp
    have "RecvCache (\<lambda>b w. DoRecvCache hdl True b (length b) w) c w = Some (int ?s, c\<lparr>ch_r := skip ?s (ch_r c)\<rparr>, deliver_all hdl ms w)"
      unfolding RecvCache_def w_buf_bytes [OF wf] p Option.bind.bind_lunit split using False d t by simp
    moreover have "rx_holds n (take k (message h b)) (c\<lparr>ch_r := skip ?s (ch_r c)\<rparr>)"
      using d room_skip [OF r] skip_bytes(1) [OF wf] p by (simp add: rx_holds_def)
    ultimately show ?thesis by simp
  qed
qed

lemma feed_stream:
  assumes m: "\<forall>k. malloc k \<noteq> None" "malloc_ok malloc" and ne: "chunk \<noteq> []"
    and ok: "\<forall>m \<in> set ms. msg_ok m" "msg_ok (h, b)" and k: "k < length (message h b)"
    and c: "rx_holds (length chunk + n) part c" and all: "part @ chunk = stream ms @ take k (message h b)"
  shows "\<exists>ret c1. feed malloc hdl chunk c w = Some (ret, c1, deliver_all hdl ms w) \<and> rx_holds n (take k (message h b)) c1"
proof -
  have r: "room (length chunk + n) (ch_r c)" and d: "ch_dispatch c" and p: "rc_bytes (ch_r c) = part" using c by (auto simp: rx_holds_def)
  obtain t r1 where a: "append malloc chunk (length chunk) (ch_r c) = Some (t, r1)" "rc_bytes r1 = (if t then part else part @ chunk)" "room n r1"
    "t \<longrightarrow> (\<exists>k. malloc k = None)" unfolding p [symmetric] by (rule append_room [OF m(2) r])
  have t: "\<not> t" using a(4) m(1) by blast
  have wf: "rc_wf r1" using a(3) by (simp add: room_def)
  have z: "take_processed 0 (c\<lparr>ch_r := r1\<rparr>) = (0, c\<lparr>ch_r := skip 0 r1\<rparr>)"
    using a(3) by (subst take_processed_ok) (simp_all add: room_def)
  let ?c = "c\<lparr>ch_r := skip 0 r1\<rparr>"
  have "channel_Recv malloc (int (length chunk), chunk) (\<lambda>b w. Some (0, w)) (\<lambda>b w. DoRecvCache hdl True b (length b) w) c w = Some (0, False, ?c, w)"
    using a(1) t ne d z by (simp add: channel_Recv_def w_buf_bytes [OF wf])
  then have f: "feed malloc hdl chunk c w = RecvCache (\<lambda>b w. DoRecvCache hdl True b (length b) w) ?c w" by (simp add: feed_def)
  have "rx_holds n (stream ms @ take k (message h b)) ?c"
    using d room_skip [OF a(3)] skip_bytes(1) [OF wf] a(2) t all by (simp add: rx_holds_def)
  from RecvCache_stream [OF ok k this, of hdl w] show ?thesis unfolding f by blast
qed

definition partial :: "byte list \<Rightarrow> (commu_head \<times> byte list) list \<Rightarrow> bool" where
  "partial p msgs \<longleftrightarrow> (case msgs of [] \<Rightarrow> p = [] | (h, b) # _ \<Rightarrow> length p < length (message h b))"

lemma feeds_stream:
  assumes m: "\<forall>k. malloc k \<noteq> None" "malloc_ok malloc"
  shows "\<lbrakk>\<forall>x \<in> set chunks. x \<noteq> []; \<forall>m \<in> set msgs. msg_ok m; rx_holds (length (concat chunks)) p c; partial p msgs;
      p @ concat chunks = stream msgs\<rbrakk> \<Longrightarrow>
    \<exists>c1. feeds malloc hdl chunks c w = Some (c1, deliver_all hdl msgs w) \<and> rx_holds 0 [] c1"
proof (induction chunks arbitrary: p msgs c w)
  case Nil
  have "msgs = []" using Nil.prems(4,5) by (cases msgs) (auto simp: partial_def)
  then show ?case using Nil.prems by simp
next
  case (Cons x chunks)
  let ?q = "concat chunks"
  have ne: "x \<noteq> []" "\<forall>x \<in> set chunks. x \<noteq> []" using Cons.prems(1) by simp_all
  have holds: "rx_holds (length x + length ?q) p c" using Cons.prems(3) by simp
  have all: "(p @ x) @ ?q = stream msgs" using Cons.prems(5) by simp
  have "msgs \<noteq> []" using all ne(1) by auto
  then obtain h0 b0 r0 where m0: "msgs = (h0, b0) # r0" by (cases msgs) auto
  obtain ms h b k rest where s: "p @ x = stream ms @ take k (message h b)" "k < length (message h b)" "msg_ok (h, b)" "\<forall>m \<in> set ms. msg_ok m"
      "msgs = ms @ rest" "\<forall>m \<in> set rest. msg_ok m" "partial (take k (message h b)) rest" "take k (message h b) @ ?q = stream rest"
  proof (cases "?q = []")
    case True
    have "0 < length (message h0 b0)" by (simp add: HEAD_SIZE_def)
    then show thesis using that [of msgs 0 h0 b0 "[]"] all True Cons.prems(2) m0 by (simp add: partial_def)
  next
    case False
    obtain ms h b ms2 where q: "msgs = ms @ (h, b) # ms2" "p @ x = stream ms @ take (length (p @ x) - length (stream ms)) (message h b)"
      "length (stream ms) \<le> length (p @ x)" "length (p @ x) < length (stream ms) + length (message h b)"
      using stream_prefix [OF all False] by blast
    define k where "k = length (p @ x) - length (stream ms)"
    have k: "k < length (message h b)" using q(3,4) by (simp add: k_def)
    have "stream ms @ (take k (message h b) @ ?q) = stream ms @ stream ((h, b) # ms2)"
      using all q(2) [folded k_def] q(1) by (metis append.assoc concat_append map_append)
    then have "take k (message h b) @ ?q = stream ((h, b) # ms2)" by (simp only: same_append_eq)
    then show thesis using that [of ms k h b "(h, b) # ms2"] q(1) q(2) [folded k_def] k Cons.prems(2) by (simp add: partial_def)
  qed
  obtain ret c1 where f: "feed malloc hdl x c w = Some (ret, c1, deliver_all hdl ms w)" "rx_holds (length ?q) (take k (message h b)) c1"
    using feed_stream [OF m ne(1) s(4,3,2) holds s(1), of hdl w] by blast
  obtain c2 where "feeds malloc hdl chunks c1 (deliver_all hdl ms w) = Some (c2, deliver_all hdl rest (deliver_all hdl ms w))" "rx_holds 0 [] c2"
    using Cons.IH [OF ne(2) s(6) f(2) s(7,8)] by blast
  then show ?case using f(1) s(5) by simp
qed

section \<open>Properties\<close>

text \<open>C14: messages survive any fragmentation of the byte stream. Cut the bytes of a sequence of messages into
  chunks in any way and let the channel receive them one by one, with a \<open>RecvCache(true)\<close> after each and no
  allocation failing: the handlers get every header and body in order, once, and no byte is left in the read
  cache.\<close>

theorem reassembly:
  assumes "\<forall>k. malloc k \<noteq> None" "malloc_ok malloc" "\<forall>x \<in> set chunks. x \<noteq> []" "\<forall>m \<in> set msgs. msg_ok m"
    and "concat chunks = stream msgs" "length (stream msgs) \<le> 2 ^ 29" "c = TNestChannel_init\<lparr>ch_dispatch := True\<rparr>"
  shows "\<exists>c1. feeds malloc hdl chunks c w = Some (c1, deliver_all hdl msgs w) \<and> rc_bytes (ch_r c1) = []"
proof -
  have "rx_holds (length (concat chunks)) [] c"
    using assms(5-7) by (simp add: rx_holds_def TNestChannel_init_def room_def CRawCache_init_def rc_wf_def rc_bytes_def)
  moreover have "partial [] msgs" by (simp add: partial_def HEAD_SIZE_def split: list.splits)
  ultimately obtain c1 where "feeds malloc hdl chunks c w = Some (c1, deliver_all hdl msgs w)" "rx_holds 0 [] c1"
    using feeds_stream [OF assms(1-4), of "[]" c hdl w] assms(5) by auto
  then show ?thesis by (simp add: rx_holds_def)
qed

theorem reassembly_witness:
  "\<exists>c1. feeds (\<lambda>n. Some (replicate n 0)) log_handler [take 10 (message demo_head [3]), drop 10 (message demo_head [3])]
      (TNestChannel_init\<lparr>ch_dispatch := True\<rparr>) [] = Some (c1, [(sent_head demo_head [3], [3])]) \<and> rc_bytes (ch_r c1) = []"
proof -
  let ?chunks = "[take 10 (message demo_head [3]), drop 10 (message demo_head [3])]" and ?msgs = "[(demo_head, [3])]"
  have "length (message demo_head [3]) = 49" by (simp add: HEAD_SIZE_def)
  then have ne: "\<forall>x \<in> set ?chunks. x \<noteq> []" by (auto simp del: length_message)
  have m: "\<forall>k. (\<lambda>n. Some (replicate n (0 :: byte))) k \<noteq> None" "malloc_ok (\<lambda>n. Some (replicate n 0))" by (simp_all add: malloc_ok_def)
  have ok: "\<forall>m \<in> set ?msgs. msg_ok m" "concat ?chunks = stream ?msgs" "length (stream ?msgs) \<le> 2 ^ 29"
    using demo_head_ok by (simp_all add: HEAD_SIZE_def)
  have d: "deliver_all log_handler ?msgs [] = [(sent_head demo_head [3], [3])]" by (simp add: deliver_def log_handler_def)
  show ?thesis using reassembly [OF m ne ok refl, of log_handler "[]"] unfolding d .
qed

text \<open>C39: \<open>SendEx\<close> keeps the byte stream. For every result of \<open>writev\<close> that is not a hard error, and unless an
  allocation of the write cache fails and throws, the bytes the kernel took followed by the bytes left in the
  write cache are the cached bytes followed by the two buffers. After a result that is not negative, output is
  enabled exactly when bytes are left; after \<open>EAGAIN\<close> or \<open>EINTR\<close> the enabled events are what they were. A
  hard error leaves the channel as it was.\<close>

theorem send_ex_keeps_stream:
  assumes "malloc_ok malloc" "room (length ctrl + length data) (ch_w c)" "sys_ok sys"
  shows "\<exists>ret wire thrown c1. SendEx malloc sys ctl ctrl data c = Some (ret, wire, thrown, c1) \<and> ch_r c1 = ch_r c \<and>
    (thrown \<longrightarrow> (\<exists>k. malloc k = None)) \<and>
    (\<not> thrown \<longrightarrow> (if ret < 0 then wire = [] \<and> c1 = c
       else wire @ rc_bytes (ch_w c1) = rc_bytes (ch_w c) @ ctrl @ data \<and>
         ch_new_out c1 = (if fst (sys (rc_bytes (ch_w c) @ ctrl @ data)) \<ge> 0 then rc_bytes (ch_w c1) \<noteq> [] else ch_new_out c)))"
  using SendEx_ok [OF assms] by metis

definition idle_channel :: channel where
  "idle_channel = TNestChannel_init\<lparr>ch_fd := 5, ch_state := CONNECTED, ch_dispatch := True, ch_owner := True, ch_attached := True,
     ch_new_in := True, ch_old_in := True\<rparr>"

lemma idle_channel_room: "room 100 (ch_w idle_channel)" "rc_bytes (ch_w idle_channel) = []"
  by (simp_all add: idle_channel_def TNestChannel_init_def room_def CRawCache_init_def rc_wf_def rc_bytes_def)

theorem send_ex_keeps_stream_witness:
  "\<exists>ret wire c1. SendEx (\<lambda>n. Some (replicate n 0)) (\<lambda>b. (min 2 (int (length b)), 0)) (\<lambda>i out. True) [1, 2, 3] [4] idle_channel = Some (ret, wire, False, c1) \<and>
     (if ret < 0 then wire = [] \<and> c1 = idle_channel else wire @ rc_bytes (ch_w c1) = [1, 2, 3, 4])"
proof -
  have m: "malloc_ok (\<lambda>n. Some (replicate n 0))" by (simp add: malloc_ok_def)
  have s: "sys_ok (\<lambda>b. (min 2 (int (length b)), 0))" by (simp add: sys_ok_def)
  have r: "room (length [1, 2, 3 :: byte] + length [4 :: byte]) (ch_w idle_channel)" using room_less [OF idle_channel_room(1)] by simp
  obtain ret wire t c1 where x: "SendEx (\<lambda>n. Some (replicate n 0)) (\<lambda>b. (min 2 (int (length b)), 0)) (\<lambda>i out. True) [1, 2, 3] [4] idle_channel =
      Some (ret, wire, t, c1)" "t \<longrightarrow> (\<exists>k. Some (replicate k (0 :: byte)) = None)"
    "\<not> t \<longrightarrow> (if ret < 0 then wire = [] \<and> c1 = idle_channel else wire @ rc_bytes (ch_w c1) = rc_bytes (ch_w idle_channel) @ [1, 2, 3] @ [4])"
    using send_ex_keeps_stream [OF m r s, of "\<lambda>i out. True"] by metis
  then have "t = False" by simp
  with x show ?thesis by (simp add: idle_channel_room)
qed

text \<open>C40: a message that meets a full socket is forgotten until the next send. On a channel that waits for input
  only, when \<open>writev\<close> returns \<open>EAGAIN\<close>, \<open>SendEx\<close> queues the message and returns success, but leaves output
  disabled, so no event will flush the cache.\<close>

theorem send_again_unarmed:
  assumes "malloc_ok malloc" "\<forall>k. malloc k \<noteq> None" "room (length ctrl + length data) (ch_w c)" "data \<noteq> []"
    and "sys (rc_bytes (ch_w c) @ ctrl @ data) = (- 1, EAGAIN)" "\<not> ch_new_out c" "\<not> ch_old_out c"
  shows "\<exists>c1. SendEx malloc sys ctl ctrl data c = Some (0, [], False, c1) \<and> rc_bytes (ch_w c1) \<noteq> [] \<and> \<not> ch_new_out c1 \<and> \<not> ch_old_out c1"
proof -
  have wf: "rc_wf (ch_w c)" using assms(3) by (simp add: room_def)
  have r0: "room (length ctrl + length data + 0) (ch_w c)" using assms(3) by simp
  obtain t v where a: "append2 malloc ctrl data (ch_w c) = Some (t, v)" "\<not> t \<longrightarrow> rc_bytes v = rc_bytes (ch_w c) @ ctrl @ data"
    "t \<longrightarrow> (\<exists>k. malloc k = None)" by (rule append2_room [OF assms(1) r0])
  have "\<not> t" using a(3) assms(2) by blast
  with a assms(4-7) show ?thesis by (simp add: SendEx_def w_buf_bytes [OF wf])
qed

theorem send_again_unarmed_witness:
  "\<exists>c1. SendEx (\<lambda>n. Some (replicate n 0)) (\<lambda>b. (- 1, EAGAIN)) (\<lambda>i out. True) [1] [4] idle_channel = Some (0, [], False, c1) \<and>
     rc_bytes (ch_w c1) \<noteq> [] \<and> \<not> ch_new_out c1 \<and> \<not> ch_old_out c1"
  by (rule send_again_unarmed) (use room_less [OF idle_channel_room(1)] in \<open>simp_all add: malloc_ok_def idle_channel_def TNestChannel_init_def\<close>)

text \<open>An error of the dispatcher is not recognised where it is tested for. The test compares an unsigned
  variable with 0: \<open>RecvCache\<close> returns the dispatcher's own code instead of -200, and drops every byte of the
  read cache.\<close>

theorem recv_error_drops_cache:
  assumes "rc_wf (ch_r c)" "0 < rc_len (ch_r c)" "rc_len (ch_r c) < 2 ^ 31" "ch_dispatch c" "disp (rc_bytes (ch_r c)) w = Some (e, w1)"
    "- (2 ^ 31) \<le> e" "e < 0"
  shows "\<exists>c1. RecvCache disp c w = Some (e, c1, w1) \<and> rc_bytes (ch_r c1) = []"
proof -
  define n where "n = nat (e mod 2 ^ 32)"
  have "(e + 2 ^ 32) mod 2 ^ 32 = e + 2 ^ 32" using assms(6,7) by (intro mod_pos_pos_trivial) auto
  then have "e mod 2 ^ 32 = e + 2 ^ 32" by simp
  then have i: "int n = e + 2 ^ 32" using assms(6) by (simp add: n_def)
  have "e + 2 ^ 32 + 2 ^ 31 = e + 2 ^ 31 + 2 ^ 32" by simp
  then have "i32_wrap (e + 2 ^ 32) = i32_wrap e" unfolding i32_wrap_def by (simp only: mod_add_self2)
  then have n: "2 ^ 31 \<le> n" "i32_wrap (int n) = e" using i assms(6,7) by (simp_all add: i32_wrap_exact)
  have t: "take_processed e c = (e, c\<lparr>ch_r := skip n (ch_r c)\<rparr>)" unfolding take_processed_def n_def [symmetric] Let_def n(2) by simp
  have "rc_bytes (skip n (ch_r c)) = []" using skip_bytes(1) [OF assms(1)] rc_bytes_length [OF assms(1)] assms(3) n(1) by simp
  then show ?thesis using assms(2,4,5) t by (simp add: RecvCache_def w_buf_bytes [OF assms(1)])
qed

theorem recv_error_drops_cache_witness:
  "\<exists>c1. RecvCache (\<lambda>b w. Some (- 11, w)) (TNestChannel_init\<lparr>ch_dispatch := True, ch_r := CRawCache_init\<lparr>rc_mem := Some [7], rc_block_size := 1, rc_len := 1\<rparr>\<rparr>) ()
      = Some (- 11, c1, ()) \<and> rc_bytes (ch_r c1) = []"
  by (rule recv_error_drops_cache) (simp_all add: TNestChannel_init_def CRawCache_init_def rc_wf_def u32_max_def)

end
