(* ===== verification/Nest_Pkg.thy ===== *)
theory Nest_Pkg
  imports Prelude
begin

text \<open>
  The packages of the agent protocol, \<open>nest/comm/nest_proto.cpp\<close>: a start byte, the lengths of head and
  body in network byte order, head, body, an end byte. Buffers are byte lists; an access out of a buffer
  is \<^term>\<open>None\<close>. The texts of the error messages are left out.
\<close>

section \<open>Operations\<close>

definition NEST_PKG_STX :: byte where "NEST_PKG_STX = 0x5b"
definition NEST_PKG_ETX :: byte where "NEST_PKG_ETX = 0x5d"
definition NEST_PKG_COMM_HEAD_LEN :: nat where "NEST_PKG_COMM_HEAD_LEN = 10"
definition NEST_PKG_HEAD_LEN_POS :: nat where "NEST_PKG_HEAD_LEN_POS = 1"
definition NEST_PKG_BODY_LEN_POS :: nat where "NEST_PKG_BODY_LEN_POS = 5"
definition NEST_PKG_HEAD_BUFF_POS :: nat where "NEST_PKG_HEAD_BUFF_POS = 9"

text \<open>After a check, \<open>head_buff\<close> and \<open>body_buff\<close> are offsets in the message.\<close>

record pkg_view =
  pv_head_buff :: nat
  pv_head_len :: nat
  pv_body_buff :: nat
  pv_body_len :: nat

text \<open>The 32-bit integer at an offset, through \<open>ntohl\<close> on a little-endian host.\<close>

definition rd_be :: "byte list \<Rightarrow> nat \<Rightarrow> nat option" where
  "rd_be buf off = do { bs \<leftarrow> mem_rd buf off 4; Some (rd32 (rev bs)) }"

definition wr_be :: "byte list \<Rightarrow> nat \<Rightarrow> nat \<Rightarrow> byte list option" where
  "wr_be buf off n = mem_wr buf off (rev (le32 n))"

text \<open>The total length is computed in \<open>size_t\<close> and stored in 32 bits; the index of the end byte is 32-bit.\<close>

definition pkg_len :: "nat \<Rightarrow> nat \<Rightarrow> nat" where
  "pkg_len hl bl = (NEST_PKG_COMM_HEAD_LEN + hl + bl) mod u32_max"

definition NestProtoCheck :: "byte list option \<Rightarrow> nat \<Rightarrow> (int \<times> pkg_view option) option" where
  "NestProtoCheck msg_buff len =
     (case msg_buff of
        None \<Rightarrow> Some (- 1, None)
      | Some cur \<Rightarrow>
          if len < NEST_PKG_COMM_HEAD_LEN then Some (0, None)
          else do {
            stx \<leftarrow> mem_rd cur 0 1;
            if stx \<noteq> [NEST_PKG_STX] then Some (- 2, None)
            else do {
              hl \<leftarrow> rd_be cur NEST_PKG_HEAD_LEN_POS;
              bl \<leftarrow> rd_be cur NEST_PKG_BODY_LEN_POS;
              let n = pkg_len hl bl;
              if n > len then Some (0, None)
              else do {
                etx \<leftarrow> mem_rd cur (u32_sub n 1) 1;
                if etx \<noteq> [NEST_PKG_ETX] then Some (- 3, None)
                else Some (i32_wrap (int n),
                  Some \<lparr>pv_head_buff = NEST_PKG_HEAD_BUFF_POS, pv_head_len = hl,
                        pv_body_buff = NEST_PKG_HEAD_BUFF_POS + hl, pv_body_len = bl\<rparr>)
              }
            }
          })"

text \<open>\<open>head\<close> and \<open>body\<close> are the memory at \<open>head_buff\<close> and \<open>body_buff\<close>; \<open>msg_buff\<close> is not tested for \<open>NULL\<close>.\<close>

definition NestProtoPackPkg ::
    "byte list \<Rightarrow> nat \<Rightarrow> byte list option \<Rightarrow> nat \<Rightarrow> byte list option \<Rightarrow> nat \<Rightarrow> (int \<times> byte list) option" where
  "NestProtoPackPkg cur left head hl body bl =
     (case head of
        None \<Rightarrow> Some (- 1, cur)
      | Some hb \<Rightarrow>
          let n = pkg_len hl bl
          in if left < n then Some (- 2, cur)
             else do {
               c1 \<leftarrow> mem_wr cur 0 [NEST_PKG_STX];
               c2 \<leftarrow> wr_be c1 NEST_PKG_HEAD_LEN_POS hl;
               c3 \<leftarrow> wr_be c2 NEST_PKG_BODY_LEN_POS bl;
               h \<leftarrow> mem_rd hb 0 hl;
               c4 \<leftarrow> mem_wr c3 NEST_PKG_HEAD_BUFF_POS h;
               c5 \<leftarrow> (case body of
                       Some bb \<Rightarrow> if bl > 0 then do { b \<leftarrow> mem_rd bb 0 bl; mem_wr c4 (NEST_PKG_HEAD_BUFF_POS + hl) b } else Some c4
                     | None \<Rightarrow> Some c4);
               c6 \<leftarrow> mem_wr c5 (u32_sub n 1) [NEST_PKG_ETX];
               Some (i32_wrap (int n), c6)
             })"

section \<open>Packages\<close>

definition pkg :: "byte list \<Rightarrow> byte list \<Rightarrow> byte list" where
  "pkg h b = [NEST_PKG_STX] @ rev (le32 (length h)) @ rev (le32 (length b)) @ h @ b @ [NEST_PKG_ETX]"

lemmas pkg_defs = NEST_PKG_COMM_HEAD_LEN_def NEST_PKG_HEAD_LEN_POS_def NEST_PKG_BODY_LEN_POS_def NEST_PKG_HEAD_BUFF_POS_def

lemma length_pkg [simp]: "length (pkg h b) = 10 + length h + length b"
  by (simp add: pkg_def)

lemma pkg_len_exact: "10 + hl + bl < u32_max \<Longrightarrow> pkg_len hl bl = 10 + hl + bl"
  by (simp add: pkg_len_def pkg_defs)

lemma i32_of_nat: "n < 2 ^ 31 \<Longrightarrow> i32_wrap (int n) = int n"
  by (rule i32_wrap_exact) simp_all

lemma split_at:
  assumes "n \<le> length xs"
  obtains a b where "xs = a @ b" "length a = n" "length b = length xs - n"
  using assms that [of "take n xs" "drop n xs"] by simp

lemma mem_wr_at: "length a = off \<Longrightarrow> length d \<le> length c \<Longrightarrow> mem_wr (a @ c) off d = Some (a @ d @ drop (length d) c)"
  by (simp add: mem_wr_def)

lemma mem_rd_at: "length a = off \<Longrightarrow> mem_rd (a @ d @ c) off (length d) = Some d"
  by (simp add: mem_rd_def)

lemma pack_pkg:
  assumes n: "10 + length h + length b < 2 ^ 31" and cur: "10 + length h + length b \<le> length cur" and left: "left = length cur"
  shows "NestProtoPackPkg cur left (Some h) (length h) (Some b) (length b) =
    Some (int (10 + length h + length b), pkg h b @ drop (10 + length h + length b) cur)"
proof -
  have e: "pkg_len (length h) (length b) = 10 + length h + length b" "u32_sub (10 + length h + length b) 1 = 9 + length h + length b"
    "i32_wrap (int (10 + length h + length b)) = int (10 + length h + length b)"
    using n by (auto simp: pkg_len_exact u32_sub_exact u32_max_def i32_of_nat simp del: of_nat_add)
  have l0: "1 \<le> length cur" using cur by simp
  obtain x0 y0 where 0: "cur = x0 @ y0" "length x0 = 1" "length y0 = length cur - 1" by (rule split_at [OF l0])
  have l1: "4 \<le> length y0" using cur 0(3) by simp
  obtain x1 y1 where 1: "y0 = x1 @ y1" "length x1 = 4" "length y1 = length y0 - 4" by (rule split_at [OF l1])
  have l2: "4 \<le> length y1" using cur 0(3) 1(3) by simp
  obtain x2 y2 where 2: "y1 = x2 @ y2" "length x2 = 4" "length y2 = length y1 - 4" by (rule split_at [OF l2])
  have l3: "length h \<le> length y2" using cur 0(3) 1(3) 2(3) by simp
  obtain x3 y3 where 3: "y2 = x3 @ y3" "length x3 = length h" "length y3 = length y2 - length h" by (rule split_at [OF l3])
  have l4: "length b \<le> length y3" using cur 0(3) 1(3) 2(3) 3(3) by simp
  obtain x4 y4 where 4: "y3 = x4 @ y4" "length x4 = length b" "length y4 = length y3 - length b" by (rule split_at [OF l4])
  have l5: "1 \<le> length y4" using cur 0(3) 1(3) 2(3) 3(3) 4(3) by simp
  obtain x5 t where 5: "y4 = x5 @ t" "length x5 = 1" by (rule split_at [OF l5])
  let ?S = "[NEST_PKG_STX]" and ?H = "rev (le32 (length h))" and ?B = "rev (le32 (length b))" and ?E = "[NEST_PKG_ETX]"
  have c: "cur = x0 @ x1 @ x2 @ x3 @ x4 @ x5 @ t" using 0 1 2 3 4 5 by simp
  have t: "drop (10 + length h + length b) cur = t" unfolding c using 0 1 2 3 4 5 by simp
  have w1: "mem_wr cur 0 ?S = Some (?S @ x1 @ x2 @ x3 @ x4 @ x5 @ t)" using mem_wr_at [of "[]" 0 ?S cur] 0(2) by (simp add: c)
  have w2: "wr_be (?S @ x1 @ x2 @ x3 @ x4 @ x5 @ t) NEST_PKG_HEAD_LEN_POS (length h) = Some (?S @ ?H @ x2 @ x3 @ x4 @ x5 @ t)"
    using mem_wr_at [of ?S 1 ?H "x1 @ x2 @ x3 @ x4 @ x5 @ t"] 1(2) by (simp add: wr_be_def pkg_defs)
  have w3: "wr_be (?S @ ?H @ x2 @ x3 @ x4 @ x5 @ t) NEST_PKG_BODY_LEN_POS (length b) = Some (?S @ ?H @ ?B @ x3 @ x4 @ x5 @ t)"
    using mem_wr_at [of "?S @ ?H" 5 ?B "x2 @ x3 @ x4 @ x5 @ t"] 2(2) by (simp add: wr_be_def pkg_defs)
  have w4: "mem_wr (?S @ ?H @ ?B @ x3 @ x4 @ x5 @ t) NEST_PKG_HEAD_BUFF_POS h = Some (?S @ ?H @ ?B @ h @ x4 @ x5 @ t)"
    using mem_wr_at [of "?S @ ?H @ ?B" 9 h "x3 @ x4 @ x5 @ t"] 3(2) by (simp add: pkg_defs)
  have w5: "mem_wr (?S @ ?H @ ?B @ h @ x4 @ x5 @ t) (NEST_PKG_HEAD_BUFF_POS + length h) b = Some (?S @ ?H @ ?B @ h @ b @ x5 @ t)"
    using mem_wr_at [of "?S @ ?H @ ?B @ h" "9 + length h" b "x4 @ x5 @ t"] 4(2) by (simp add: pkg_defs)
  have w6: "mem_wr (?S @ ?H @ ?B @ h @ b @ x5 @ t) (9 + length h + length b) ?E = Some (?S @ ?H @ ?B @ h @ b @ ?E @ t)"
    using mem_wr_at [of "?S @ ?H @ ?B @ h @ b" "9 + length h + length b" ?E "x5 @ t"] 5(2) by simp
  have r: "mem_rd h 0 (length h) = Some h" "mem_rd b 0 (length b) = Some b" by (simp_all add: mem_rd_def)
  have b0: "length b = 0 \<Longrightarrow> x4 = []" "length b = 0 \<Longrightarrow> b = []" using 4(2) by simp_all
  show ?thesis
    unfolding NestProtoPackPkg_def option.case Let_def e t w1 Option.bind.bind_lunit w2 w3 r w4 w5
    using left cur w6 e(3) b0 by (auto simp: pkg_def simp del: of_nat_add)
qed

lemma check_pkg:
  assumes n: "10 + length h + length b < 2 ^ 31"
  shows "NestProtoCheck (Some (pkg h b @ rest)) (10 + length h + length b + length rest) =
    Some (int (10 + length h + length b),
      Some \<lparr>pv_head_buff = 9, pv_head_len = length h, pv_body_buff = 9 + length h, pv_body_len = length b\<rparr>)"
proof -
  let ?S = "[NEST_PKG_STX]" and ?H = "rev (le32 (length h))" and ?B = "rev (le32 (length b))" and ?E = "[NEST_PKG_ETX]"
  let ?c = "?S @ ?H @ ?B @ h @ b @ ?E @ rest"
  have e: "pkg_len (length h) (length b) = 10 + length h + length b" "u32_sub (10 + length h + length b) 1 = 9 + length h + length b"
    "i32_wrap (int (10 + length h + length b)) = int (10 + length h + length b)"
    using n by (auto simp: pkg_len_exact u32_sub_exact u32_max_def i32_of_nat simp del: of_nat_add)
  have p: "pkg h b @ rest = ?c" by (simp add: pkg_def)
  have r: "mem_rd ?c 0 1 = Some ?S" "mem_rd ?c 1 4 = Some ?H" "mem_rd ?c 5 4 = Some ?B" "mem_rd ?c (9 + length h + length b) 1 = Some ?E"
    using mem_rd_at [of "[]" 0 ?S "?H @ ?B @ h @ b @ ?E @ rest"] mem_rd_at [of ?S 1 ?H "?B @ h @ b @ ?E @ rest"]
      mem_rd_at [of "?S @ ?H" 5 ?B "h @ b @ ?E @ rest"] mem_rd_at [of "?S @ ?H @ ?B @ h @ b" "9 + length h + length b" ?E rest] by simp_all
  have len: "rd32 (rev ?H) = length h" "rd32 (rev ?B) = length b" using n by (simp_all add: u32_max_def)
  show ?thesis
    unfolding NestProtoCheck_def option.case p rd_be_def pkg_defs r Option.bind.bind_lunit len Let_def e pkg_len_def [symmetric]
    by (simp add: r(4) e(1) [unfolded pkg_len_def pkg_defs] e del: of_nat_add)
qed

section \<open>Properties\<close>

text \<open>C35: a package that \<open>NestProtoPackPkg\<close> has written into a large enough buffer is accepted by
  \<open>NestProtoCheck\<close>, with the length that was returned, and the head and the body it points to are the ones that
  were packed; the rest of the buffer is unchanged.\<close>

theorem pkg_roundtrip:
  assumes "10 + length h + length b < 2 ^ 31" "10 + length h + length b \<le> length cur"
  shows "\<exists>out v. NestProtoPackPkg cur (length cur) (Some h) (length h) (Some b) (length b) = Some (int (10 + length h + length b), out) \<and>
    NestProtoCheck (Some out) (length out) = Some (int (10 + length h + length b), Some v) \<and>
    mem_rd out (pv_head_buff v) (pv_head_len v) = Some h \<and> mem_rd out (pv_body_buff v) (pv_body_len v) = Some b \<and>
    drop (10 + length h + length b) out = drop (10 + length h + length b) cur"
proof -
  let ?n = "10 + length h + length b"
  let ?t = "drop ?n cur"
  let ?v = "\<lparr>pv_head_buff = 9, pv_head_len = length h, pv_body_buff = 9 + length h, pv_body_len = length b\<rparr>"
  have "length (pkg h b @ ?t) = ?n + length ?t" by simp
  then have c: "NestProtoCheck (Some (pkg h b @ ?t)) (length (pkg h b @ ?t)) = Some (int ?n, Some ?v)"
    using check_pkg [OF assms(1), of ?t] by (simp only:)
  have "mem_rd (pkg h b @ ?t) 9 (length h) = Some h" "mem_rd (pkg h b @ ?t) (9 + length h) (length b) = Some b"
    using mem_rd_at [of "[NEST_PKG_STX] @ rev (le32 (length h)) @ rev (le32 (length b))" 9 h "b @ [NEST_PKG_ETX] @ ?t"]
      mem_rd_at [of "[NEST_PKG_STX] @ rev (le32 (length h)) @ rev (le32 (length b)) @ h" "9 + length h" b "[NEST_PKG_ETX] @ ?t"]
    by (simp_all add: pkg_def)
  then show ?thesis using pack_pkg [OF assms refl] c by (intro exI [of _ "pkg h b @ ?t"] exI [of _ ?v]) simp
qed

theorem pkg_roundtrip_witness:
  "\<exists>out v. NestProtoPackPkg (replicate 15 0) 15 (Some [1, 2]) 2 (Some [3]) 1 = Some (13, out) \<and>
     NestProtoCheck (Some out) (length out) = Some (13, Some v) \<and> mem_rd out (pv_head_buff v) (pv_head_len v) = Some [1, 2]"
proof -
  have "10 + length [1, 2 :: byte] + length [3 :: byte] < 2 ^ 31" "10 + length [1, 2 :: byte] + length [3 :: byte] \<le> length (replicate 15 (0 :: byte))"
    by simp_all
  from pkg_roundtrip [OF this] show ?thesis by (auto simp: numeral_2_eq_2)
qed

text \<open>C36: \<open>NestProtoCheck\<close> reads outside the buffer exactly when the two length fields of the package add up, with
  the ten bytes of the frame, to a multiple of \<open>2 ^ 32\<close>: the sum is cut to 32 bits, 0 passes the
  comparison with the number of bytes received, and the end byte is looked up at index \<open>2 ^ 32 - 1\<close>.\<close>

theorem check_fault_iff:
  assumes len: "10 \<le> len" "len \<le> length buf" "length buf < u32_max" and stx: "hd buf = NEST_PKG_STX"
    and hl: "rd_be buf 1 = Some hl" and bl: "rd_be buf 5 = Some bl"
  shows "NestProtoCheck (Some buf) len = None \<longleftrightarrow> (10 + hl + bl) mod u32_max = 0"
proof -
  define n where "n = pkg_len hl bl"
  have s: "mem_rd buf 0 1 = Some [NEST_PKG_STX]" using len stx by (cases buf) (auto simp: mem_rd_def)
  have c: "NestProtoCheck (Some buf) len =
    (if n > len then Some (0, None)
     else mem_rd buf (u32_sub n 1) 1 \<bind> (\<lambda>etx. if etx \<noteq> [NEST_PKG_ETX] then Some (- 3, None)
       else Some (i32_wrap (int n), Some \<lparr>pv_head_buff = 9, pv_head_len = hl, pv_body_buff = 9 + hl, pv_body_len = bl\<rparr>)))"
    unfolding NestProtoCheck_def option.case n_def pkg_defs s hl bl Option.bind.bind_lunit Let_def using len by simp
  have "mem_rd buf (u32_sub n 1) 1 = None \<longleftrightarrow> n = 0" if "n \<le> len"
  proof (cases "n = 0")
    case True
    have "u32_sub 0 1 = u32_max - 1" by (simp add: u32_sub_def u32_max_def)
    then show ?thesis using True len by (simp add: mem_rd_def)
  next
    case False
    then have "u32_sub n 1 = n - 1" using that len by (intro u32_sub_exact) auto
    then show ?thesis using False that len by (simp add: mem_rd_def)
  qed
  then have "NestProtoCheck (Some buf) len = None \<longleftrightarrow> n = 0"
    unfolding c using len by (cases "mem_rd buf (u32_sub n 1) 1") auto
  then show ?thesis by (simp add: n_def pkg_len_def pkg_defs)
qed

definition bad_pkg :: "byte list" where
  "bad_pkg = [NEST_PKG_STX] @ [255, 255, 255, 244] @ [0, 0, 0, 2] @ [NEST_PKG_ETX]"

theorem check_fault_iff_witness: "NestProtoCheck (Some bad_pkg) 10 = None"
proof -
  have "rd_be bad_pkg 1 = Some 4294967284" "rd_be bad_pkg 5 = Some 2"
    by (simp_all add: bad_pkg_def rd_be_def mem_rd_def rd32_def)
  from check_fault_iff [OF _ _ _ _ this, of 10] show ?thesis by (simp add: bad_pkg_def u32_max_def)
qed

end
