(* ===== verification/Spec2Isabelle.thy ===== *)
theory Spec2Isabelle
  imports Heap_Timer Shm_MQ_Fifo Shm_Commu Shm_MQ_Spsc Session_Mgr Msg_Buf_Pool Mt_Io Sk_Stream Weight_Sched Nest_Channel Nest_Pkg
begin

text \<open>
  A verification of the core of the server framework SPP 3.0.1: the message queues and channels
  between its processes and the micro-thread library its workers run on. Paths are relative to \<open>src/src\<close>.

  \<^bold>\<open>The program.\<close> A proxy process accepts connections and passes requests to worker processes
  through queues in shared memory (\<open>comm/tbase/tshmcommu\<close>, class \<open>CTShmMQ\<close> with its producers,
  consumers and \<open>CTShmCommu\<close>). The connections of the proxy, with what was read and what waits to
  be written, are kept in a table (\<open>comm/tbase/tsockcommu\<close>: \<open>CRawCache\<close>, \<open>CConnSet\<close>). A
  worker may run every request in a micro-thread (\<open>sync_frame/micro_thread\<close>): \<open>MtFrame\<close>
  schedules the threads of a pool; a thread that waits for a descriptor registers it with the epoll
  layer (\<open>EpollProxy\<close>) and goes to the sleep queue, a binary heap (\<open>heap.h\<close>); a daemon thread runs
  when nobody else can, asks epoll for events, wakes the threads that are due and fires the timers
  (\<open>heap_timer\<close>). Sessions are found by id in a hash table (\<open>hash_list.h\<close>, \<open>mt_session\<close>), message
  buffers are recycled through free lists (\<open>mt_mbuf_pool\<close>), and sockets may keep their data in lists
  of blocks (\<open>mt_cache\<close>). In the distributed variant (\<open>nest/comm\<close>) proxy and workers talk over TCP channels:
  a channel splits its byte stream into messages with a checked header, a route spreads messages
  over its channels by weight, and the processes report to an agent in packages.

  \<^bold>\<open>Conventions.\<close> A pointer is a natural number, \<open>NULL\<close> is 0; fields of objects are records or
  functions from addresses. Integers of 32 and 64 bits that may wrap are words or have the
  wrap-around written out (\<open>u32_add\<close>, \<open>u32_sub\<close>, \<open>i32_wrap\<close>). System calls, allocation, virtual methods and
  call-backs are function arguments or arguments with the answer; what a theorem needs of them is a
  named hypothesis (\<open>sys_ok\<close>, \<open>malloc_ok\<close>, \<open>sk_env_ok\<close>, \<open>fresh_alloc\<close>, \<open>ctl_spec\<close>, \<open>notify_quiet\<close>, \<open>boot_ok\<close>) with a
  witness. The result \<^term>\<open>None\<close> stands for undefined behaviour (a copy outside a block, taking
  from an empty list, removing a non-member) and, for loops defined by \<open>partial_function\<close>, for a
  loop that does not end; the theorems prove that it does not occur, or exactly when it does.

  \<^bold>\<open>Theories.\<close>

  \<^item> \<open>Prelude\<close>: names of types, word and list lemmas. \<open>Min_Queue\<close>: the interface of a queue that
    is drained from its top, as two locales (some entry on top; the least entry on top) with the theorems on
    draining; the timers and the sleep queue interpret both. \<open>Byte_Fifo\<close>: the interface of a byte queue, as a locale with the theorem on
    histories of puts and gets; the two kinds of caches interpret it.

  \<^item> \<open>Heap_List\<close> (\<open>heap.h\<close>): the array heap with its index back-pointers. Push and pop keep the
    shape and the order, pop returns a minimum, deletion removes exactly its entry; deletion keeps the order
    exactly under a condition the code does not check. \<open>Heap_Timer\<close> (\<open>heap_timer.cpp\<close>): \<open>start_timer\<close>,
    \<open>stop_timer\<close>, \<open>check_expired\<close>; in every reachable state a check ends and fires only timers that are due, and
    all of them, in order, as long as no armed timer was stopped or started again.

  \<^item> \<open>Ring\<close>, \<open>Shm_MQ\<close>, \<open>Shm_MQ_Fifo\<close> (\<open>tshmcommu.cpp\<close>): the ring buffer byte by byte, with its safe areas,
    resets and the split of a message at the end of the block. \<open>enqueue\<close> and \<open>dequeue\<close> refine a
    bounded first-in first-out queue; no copy leaves the block; the conditions of each error. \<open>Shm_MQ_Spsc\<close>: one producer and
    one consumer interleaved at their reads and writes of the shared positions: first in, first out, and neither
    waits for the other. \<open>Shm_Commu\<close>: \<open>produce\<close>,
    \<open>comsume\<close>, their locked variants, \<open>poll\<close>, \<open>sendto\<close> and \<open>init\<close>; locale \<open>msg_source\<close> for a consumer.

  \<^item> \<open>Hash_List\<close> (\<open>hash_list.h\<close>), \<open>Int_Key\<close>, \<open>Session_Mgr\<close> (\<open>mt_session.cpp\<close>), \<open>Msg_Buf_Pool\<close>
    (\<open>mt_mbuf_pool.cpp\<close>): chained hashing, for every key class that meets the locale \<open>hash_key\<close>, is a finite map; the
    session table and the buffer pool on top of it.

  \<^item> \<open>Raw_Cache\<close>, \<open>Conn_Set\<close> (\<open>tsockcommu/tcache.cpp\<close>, \<open>tconnset.cpp\<close>): the growing byte cache is a
    byte string; slots and flow numbers of connections; sending keeps the byte stream of a connection.

  \<^item> \<open>Sk_Cache\<close>, \<open>Sk_Stream\<close> (\<open>mt_cache.cpp\<close>): blocks, the pool of blocks, caches as lists of blocks.
    A cache is a byte queue; appending is all or nothing; receiving appends what the socket gave, sending
    moves a prefix to it; reading over the blocks equals reading the byte string.

  \<^item> \<open>Nest_Msg\<close> (\<open>nest_commu.cpp\<close>, \<open>nest_context.h\<close>): header, byte order, check word, \<open>CheckMsg\<close> and
    \<open>DoRecvCache\<close>; a stream of messages is split into the same messages, arbitrary bytes are handled in bounds.
    \<open>Nest_Channel\<close> (\<open>nest_channel.cpp\<close>): \<open>SendEx\<close>, \<open>SendCache\<close>, \<open>Recv\<close>, \<open>RecvCache\<close>, \<open>DoConnect\<close> and the
    notifications on top of \<open>Raw_Cache\<close>; messages survive any fragmentation, sending keeps the stream.
    \<open>Nest_Pkg\<close> (\<open>nest_proto.cpp\<close>): packing and checking the packages of the agent.

  \<^item> \<open>Weight_Sched\<close> (\<open>weight_schedule.cpp\<close>, \<open>TNetCommuServer\<close>): the choice of a channel by weight is
    fair, weights keep their bounds in every reachable state of a route, probes take a least weight.

  \<^item> \<open>Epoll_Proxy\<close> (\<open>epoll_proxy.cpp\<close>): the reference counts per descriptor and what the kernel is
    told; registering a list is all or nothing unless the kernel refuses a removal, records and kernel stay in step.

  \<^item> \<open>Micro_Thread\<close>, \<open>Mt_Frame\<close> (\<open>micro_thread.cpp\<close>, \<open>mt_api.cpp\<close>): threads and their stacks, the pool, the
    lists, the scheduler with \<open>EpollSchedule\<close>, \<open>WaitNotify\<close>, \<open>sleep\<close>, \<open>mt_exec_all_task\<close>, the turn of the
    daemon, start and end. \<open>Mt_Lists\<close>, \<open>Mt_Sched\<close>: the invariant of the lists, of the counters and
    of parents and sub-threads, kept by every call and every interleaving of calls (the step
    relation \<open>sched_step\<close>); absence of undefined behaviour; the order in which threads run; \<open>WakeupTimeout\<close>
    wakes only threads that are due, and all of them when the sleep queue is in order.
    \<open>Mt_Io\<close>: the wrapped system calls \<open>recv\<close>, \<open>send\<close>, \<open>connect\<close> and the others; they return, lose and
    repeat nothing, and leave the scheduler consistent.

  \<^bold>\<open>Bounds.\<close> The sleep queue starts with room for 100000 entries and grows to twice the number of
  threads: the invariant shows that a push never finds it full. Sizes of queues and caches are below \<open>2 ^ 31\<close>
  where the code computes with \<open>int\<close>; each theorem says so. No loop has fuel.

  \<^bold>\<open>Not modelled.\<close> The context switch in assembler and the saved registers; system calls, signals,
  locks of the operating system, logging, statistics and monitoring; processes (\<open>proxy\<close>, \<open>worker\<close>,
  \<open>controller\<close>, those of \<open>nest\<close>), which are glue around the parts above; of \<open>nest/comm\<close> the listening
  sockets, the table of routes and the contexts of requests; the asynchronous frameworks
  (\<open>async\<close>, \<open>async_frame\<close>), which call user plug-ins; the XML and YAML parsers and the
  configuration classes; the tools and the generated protocol code. The manifest lists them one by one.
\<close>

end
